(* ===== verification/Prelude.thy ===== *)
theory Prelude
  imports "HOL-Library.Word" "HOL-Library.Sublist" "HOL-Library.Char_ord"
    "HOL-Library.List_Lexorder" "HOL-Library.Multiset"
begin

text \<open>
  The shared ground of the development: byte strings and their order, the parts
  of Go's \<^verbatim>\<open>fmt\<close>, \<^verbatim>\<open>strings\<close>, \<^verbatim>\<open>bytes\<close> and \<^verbatim>\<open>encoding/binary\<close> packages the
  sources use, fixed-width integers, and the collections of rewrite rules the
  component theories extend.

  A Go \<^verbatim>\<open>string\<close> or \<^verbatim>\<open>[]byte\<close> is a list of characters, one per byte; the order
  on lists from the library is the byte-wise lexicographic order that Go's
  comparison and RocksDB's default comparator use.  An \<^verbatim>\<open>int64\<close> that only
  carries times and sizes is an \<^typ>\<open>int\<close>, with the wrap-around written out where
  the code adds; a \<^verbatim>\<open>uint64\<close> or \<^verbatim>\<open>uint32\<close> is a word.
\<close>

section \<open>Collections and type names\<close>

named_theorems key_defs \<open>definitions of the key constructors\<close>
named_theorems codec_simps \<open>rewrite rules for encoders and decoders\<close>

type_synonym bytes = string
type_synonym version = "64 word"
type_synonym 'a result = "string + 'a"

section \<open>Go integers\<close>

definition wrap_int64 :: "int \<Rightarrow> int" where
  "wrap_int64 n = (n + 2 ^ 63) mod 2 ^ 64 - 2 ^ 63"

definition in_int64 :: "int \<Rightarrow> bool" where
  "in_int64 n \<longleftrightarrow> - (2 ^ 63) \<le> n \<and> n < 2 ^ 63"

definition int64_of_uint64 :: "64 word \<Rightarrow> int" where
  "int64_of_uint64 w = wrap_int64 (uint w)"

definition uint64_of_int64 :: "int \<Rightarrow> 64 word" where
  "uint64_of_int64 n = word_of_int n"

lemma wrap_int64_id [simp]: "in_int64 n \<Longrightarrow> wrap_int64 n = n"
  by (simp add: wrap_int64_def in_int64_def)

lemma in_int64_wrap [simp]: "in_int64 (wrap_int64 n)"
proof -
  have "0 \<le> (n + 2 ^ 63) mod 2 ^ 64" and "(n + 2 ^ 63) mod 2 ^ 64 < 2 ^ 64"
    by (rule pos_mod_sign, simp) (rule pos_mod_bound, simp)
  then show ?thesis
    by (simp add: in_int64_def wrap_int64_def)
qed

lemma in_int64_01 [simp]: "in_int64 0" "in_int64 1"
  by (simp_all add: in_int64_def)

lemma wrap_int64_add_left [simp]: "wrap_int64 (wrap_int64 a + b) = wrap_int64 (a + b)"
  by (simp add: wrap_int64_def algebra_simps mod_simps)

lemma int64_roundtrip [simp]: "int64_of_uint64 (uint64_of_int64 n) = wrap_int64 n"
  by (simp add: int64_of_uint64_def uint64_of_int64_def uint_word_of_int wrap_int64_def mod_simps)

section \<open>Decimal numerals: the verb \<open>%d\<close> with a zero-padded width\<close>

definition digit :: "nat \<Rightarrow> char" where
  "digit d = char_of (48 + d)"

definition is_digit :: "char \<Rightarrow> bool" where
  "is_digit c \<longleftrightarrow> 48 \<le> (of_char c :: nat) \<and> (of_char c :: nat) \<le> 57"

definition digit_val :: "char \<Rightarrow> nat" where
  "digit_val c = of_char c - 48"

fun dec :: "nat \<Rightarrow> string" where
  "dec n = (if n < 10 then [digit n] else dec (n div 10) @ [digit (n mod 10)])"

declare dec.simps [simp del]

definition pad0 :: "nat \<Rightarrow> string \<Rightarrow> string" where
  "pad0 w s = replicate (w - length s) (CHR ''0'') @ s"

definition fmt_0d :: "nat \<Rightarrow> int \<Rightarrow> string" where
  "fmt_0d w n = (if n < 0 then CHR ''-'' # pad0 (w - 1) (dec (nat (- n))) else pad0 w (dec (nat n)))"

definition dec_val :: "string \<Rightarrow> nat" where
  "dec_val = foldl (\<lambda>a c. 10 * a + digit_val c) 0"

text \<open>
  \<^verbatim>\<open>fmt.Sscanf\<close> with one \<open>%<w>d\<close> verb: ASCII blanks are skipped, an optional
  sign is read, then digits as far as the width reaches; input after the number
  is ignored, and a number that does not fit in an \<^verbatim>\<open>int64\<close> is an error.
\<close>

definition is_blank :: "char \<Rightarrow> bool" where
  "is_blank c \<longleftrightarrow> c = CHR '' '' \<or> (of_char c :: nat) \<in> {9, 11, 12, 13}"

definition sscanf_d :: "nat \<Rightarrow> string \<Rightarrow> int option" where
  "sscanf_d w s =
    (let r = take w (dropWhile is_blank s);
         neg = (r \<noteq> [] \<and> hd r = CHR ''-'');
         body = (if r \<noteq> [] \<and> (hd r = CHR ''-'' \<or> hd r = CHR ''+'') then tl r else r);
         ds = takeWhile is_digit body;
         v = (if neg then - int (dec_val ds) else int (dec_val ds))
     in if ds = [] \<or> \<not> in_int64 v then None else Some v)"

text \<open>The digits of \<open>n\<close> in exactly \<open>w\<close> places, most significant first.\<close>

fun fixd :: "nat \<Rightarrow> nat \<Rightarrow> string" where
  "fixd 0 n = []"
| "fixd (Suc w) n = digit (n div 10 ^ w) # fixd w (n mod 10 ^ w)"

lemma of_char_digit [simp]: "d < 10 \<Longrightarrow> (of_char (digit d) :: nat) = 48 + d"
  by (simp add: digit_def)

lemma is_digit_digit [simp]: "d < 10 \<Longrightarrow> is_digit (digit d)"
  by (simp add: is_digit_def)

lemma digit_val_digit [simp]: "d < 10 \<Longrightarrow> digit_val (digit d) = d"
  by (simp add: digit_val_def)

lemma digit_0 [simp]: "digit 0 = CHR ''0''"
  by (simp add: digit_def char_of_def bit_iff_odd)

lemma length_fixd [simp]: "length (fixd w n) = w"
  by (induction w n rule: fixd.induct) auto

lemma div_pow10_less: "n < 10 ^ Suc w \<Longrightarrow> n div 10 ^ w < (10 :: nat)"
  by (simp add: less_mult_imp_div_less mult.commute)

lemma set_fixd: "n < 10 ^ w \<Longrightarrow> c \<in> set (fixd w n) \<Longrightarrow> is_digit c"
proof (induction w n rule: fixd.induct)
  case (2 w n)
  then show ?case
    using is_digit_digit [OF div_pow10_less [OF 2(2)]] by auto
qed simp

lemma fixd_snoc: "n < 10 ^ Suc w \<Longrightarrow> fixd (Suc w) n = fixd w (n div 10) @ [digit (n mod 10)]"
proof (induction w arbitrary: n)
  case (Suc w)
  let ?q = "n mod 10 ^ Suc w"
  have "n div 10 div 10 ^ w = n div 10 ^ Suc w"
    by (simp add: div_mult2_eq [symmetric] mult.commute)
  moreover have "?q div 10 = n div 10 mod 10 ^ w"
    by (simp add: mod_mult2_eq mult.commute)
  moreover have "?q mod 10 = n mod 10"
    by (simp add: mod_mod_cancel)
  moreover have "?q < 10 ^ Suc w" by simp
  ultimately show ?case
    using Suc.IH [of ?q] by (metis append_Cons fixd.simps(2))
qed simp

lemma fixd_zero: "fixd w 0 = replicate w (CHR ''0'')"
  by (induction w) auto

lemma length_dec_le: "n < 10 ^ w \<Longrightarrow> 0 < w \<Longrightarrow> length (dec n) \<le> w"
proof (induction w arbitrary: n)
  case (Suc w)
  show ?case
  proof (cases "n < 10")
    case False
    then have "0 < w" and "n div 10 < 10 ^ w"
      using Suc.prems by (cases w, simp_all add: less_mult_imp_div_less mult.commute)
    then show ?thesis
      using Suc.IH [of "n div 10"] False by (simp add: dec.simps [of n])
  qed (simp add: dec.simps [of n])
qed simp

lemma pad0_dec: "n < 10 ^ w \<Longrightarrow> 0 < w \<Longrightarrow> pad0 w (dec n) = fixd w n"
proof (induction w arbitrary: n)
  case (Suc w)
  show ?case
  proof (cases "n < 10")
    case True
    then have "fixd (Suc w) n = fixd w 0 @ [digit n]"
      using fixd_snoc [OF Suc.prems(1)] by simp
    with True show ?thesis
      by (simp add: dec.simps [of n] pad0_def fixd_zero)
  next
    case False
    then have w: "0 < w" and n10: "n div 10 < 10 ^ w"
      using Suc.prems by (cases w, simp_all add: less_mult_imp_div_less mult.commute)
    have "pad0 (Suc w) (dec n) = pad0 w (dec (n div 10)) @ [digit (n mod 10)]"
      using False length_dec_le [OF n10 w] by (simp add: dec.simps [of n] pad0_def)
    with Suc.IH [OF n10 w] fixd_snoc [OF Suc.prems(1)] show ?thesis
      by simp
  qed
qed simp

lemma foldl_dec: "foldl (\<lambda>a c. 10 * a + digit_val c) b ds = b * 10 ^ length ds + dec_val ds"
proof (induction ds arbitrary: b)
  case (Cons c ds)
  show ?case
    using Cons.IH [of "10 * b + digit_val c"] Cons.IH [of "digit_val c"]
    by (simp add: dec_val_def algebra_simps)
qed (simp add: dec_val_def)

lemma dec_val_Cons: "dec_val (c # ds) = digit_val c * 10 ^ length ds + dec_val ds"
  using foldl_dec [of "digit_val c" ds] by (simp add: dec_val_def)

lemma dec_val_fixd: "n < 10 ^ w \<Longrightarrow> dec_val (fixd w n) = n"
proof (induction w arbitrary: n)
  case 0
  then show ?case by (simp add: dec_val_def)
next
  case (Suc w)
  then show ?case
    using div_pow10_less [of n w] by (simp add: dec_val_Cons div_mult_mod_eq)
qed

lemma fmt_0d_eq: "0 \<le> t \<Longrightarrow> t < 10 ^ w \<Longrightarrow> 0 < w \<Longrightarrow> fmt_0d w t = fixd w (nat t)"
  by (simp add: fmt_0d_def pad0_dec nat_less_iff)

lemma digit_not_special:
  "is_digit c \<Longrightarrow> \<not> is_blank c \<and> c \<noteq> CHR ''-'' \<and> c \<noteq> CHR ''+'' \<and> c \<noteq> CHR ''/'' \<and> c \<noteq> CHR ''|''"
  by (auto simp: is_digit_def is_blank_def)

lemma sscanf_fixd:
  assumes "n < 10 ^ w" "0 < w" "int n < 2 ^ 63" "w \<le> v"
  shows "sscanf_d v (fixd w n) = Some (int n)"
proof -
  obtain c cs where cs: "fixd w n = c # cs"
    using assms(2) by (cases w) auto
  have dig: "\<forall>d \<in> set (fixd w n). is_digit d"
    using set_fixd [OF assms(1)] by blast
  then have "is_digit c" by (simp add: cs)
  then have drop: "dropWhile is_blank (fixd w n) = fixd w n"
    and hd: "hd (fixd w n) \<noteq> CHR ''-''" "hd (fixd w n) \<noteq> CHR ''+''"
    using digit_not_special [of c] by (simp_all add: cs)
  have tw: "takeWhile is_digit (fixd w n) = fixd w n"
    using dig by (simp add: takeWhile_eq_all_conv)
  moreover have "take v (fixd w n) = fixd w n" "fixd w n \<noteq> []"
    using assms(2,4) by (simp_all, simp add: cs)
  ultimately show ?thesis
    using assms hd by (simp add: sscanf_d_def drop tw dec_val_fixd in_int64_def)
qed

lemma fixd_less:
  "m < n \<Longrightarrow> n < 10 ^ w \<Longrightarrow> fixd w m @ xs < fixd w n @ ys"
proof (induction w arbitrary: m n)
  case (Suc w)
  let ?a = "m div 10 ^ w" and ?b = "n div 10 ^ w"
  have lt: "?a < 10" "?b < 10"
    using Suc.prems by (simp_all only: div_pow10_less less_trans)
  have "?a \<le> ?b" using Suc.prems by (simp add: div_le_mono)
  then consider "?a < ?b" | "?a = ?b" by linarith
  then show ?case
  proof cases
    case 1
    then have "digit ?a < digit ?b"
      using lt by (simp add: less_char_def)
    then show ?thesis by simp
  next
    case 2
    then have "m mod 10 ^ w < n mod 10 ^ w"
      using Suc.prems by (metis add_less_cancel_left mult_div_mod_eq)
    then show ?thesis
      using 2 Suc.IH [of "m mod 10 ^ w" "n mod 10 ^ w"] by simp
  qed
qed simp

section \<open>Splitting strings\<close>

text \<open>\<^verbatim>\<open>strings.SplitN(s, sep, 2)\<close> for a one-byte separator: the part before the
  first separator, and the rest when there is one.\<close>

definition split_first :: "char \<Rightarrow> string \<Rightarrow> string \<times> string option" where
  "split_first c s =
    (takeWhile (\<lambda>x. x \<noteq> c) s,
     case dropWhile (\<lambda>x. x \<noteq> c) s of [] \<Rightarrow> None | _ # r \<Rightarrow> Some r)"

text \<open>\<^verbatim>\<open>bytes.IndexByte\<close>, with \<^const>\<open>None\<close> for the result \<open>-1\<close>.\<close>

definition index_byte :: "bytes \<Rightarrow> char \<Rightarrow> nat option" where
  "index_byte s c = (if c \<in> set s then Some (length (takeWhile (\<lambda>x. x \<noteq> c) s)) else None)"

lemma split_first_append:
  assumes "c \<notin> set a"
  shows "split_first c (a @ c # r) = (a, Some r)"
proof -
  have *: "\<forall>x \<in> set a. x \<noteq> c" using assms by auto
  then show ?thesis
    by (simp add: split_first_def dropWhile_append2 takeWhile_append2)
qed

lemma index_byte_append:
  assumes "c \<notin> set a"
  shows "index_byte (a @ c # r) c = Some (length a)"
proof -
  have *: "\<forall>x \<in> set a. x \<noteq> c" using assms by auto
  then show ?thesis
    by (simp add: index_byte_def takeWhile_append2)
qed

lemma append_less_iff [simp]: "(p @ xs < p @ ys) = (xs < (ys :: 'a :: order list))"
  by (induction p) auto

lemma prefix_unequal_disjoint:
  "\<lbrakk> prefix p k; prefix q k; \<not> prefix p q; \<not> prefix q p \<rbrakk> \<Longrightarrow> False"
  using prefix_same_cases by blast

section \<open>Fixed-width binary integers: \<open>encoding/binary\<close>\<close>

fun nat_to_le :: "nat \<Rightarrow> nat \<Rightarrow> bytes" where
  "nat_to_le 0 n = []"
| "nat_to_le (Suc k) n = char_of (n mod 256) # nat_to_le k (n div 256)"

fun le_to_nat :: "bytes \<Rightarrow> nat" where
  "le_to_nat [] = 0"
| "le_to_nat (c # cs) = of_char c + 256 * le_to_nat cs"

definition put_le64 :: "64 word \<Rightarrow> bytes" where
  "put_le64 w = nat_to_le 8 (unat w)"

definition get_le64 :: "bytes \<Rightarrow> 64 word" where
  "get_le64 b = of_nat (le_to_nat b)"

definition put_be64 :: "64 word \<Rightarrow> bytes" where
  "put_be64 w = rev (nat_to_le 8 (unat w))"

definition get_be64 :: "bytes \<Rightarrow> 64 word" where
  "get_be64 b = of_nat (le_to_nat (rev b))"

definition put_be32 :: "32 word \<Rightarrow> bytes" where
  "put_be32 w = rev (nat_to_le 4 (unat w))"

definition get_be32 :: "bytes \<Rightarrow> 32 word" where
  "get_be32 b = of_nat (le_to_nat (rev b))"

lemma length_nat_to_le [simp]: "length (nat_to_le k n) = k"
  by (induction k n rule: nat_to_le.induct) auto

lemma le_to_nat_to_le: "n < 256 ^ k \<Longrightarrow> le_to_nat (nat_to_le k n) = n"
proof (induction k n rule: nat_to_le.induct)
  case (2 k n)
  then have "n div 256 < 256 ^ k" by (simp add: less_mult_imp_div_less mult.commute)
  with 2 show ?case by simp
qed simp

lemma nat_to_le_to_nat: "nat_to_le (length b) (le_to_nat b) = b"
proof (induction b)
  case (Cons c b)
  have "(of_char c :: nat) < 256" by simp
  with Cons show ?case by simp
qed simp

lemma unat64_bound: "unat (w :: 64 word) < 256 ^ 8"
  using unsigned_less [of w, where 'a = nat] by simp

lemma unat32_bound: "unat (w :: 32 word) < 256 ^ 4"
  using unsigned_less [of w, where 'a = nat] by simp

lemma length_put [simp]:
  "length (put_le64 w) = 8" "length (put_be64 w) = 8" "length (put_be32 v) = 4"
  by (simp_all add: put_le64_def put_be64_def put_be32_def)

lemma get_put_le64 [simp]: "get_le64 (put_le64 w) = w"
  by (simp add: get_le64_def put_le64_def le_to_nat_to_le [OF unat64_bound])

lemma get_put_be64 [simp]: "get_be64 (put_be64 w) = w"
  by (simp add: get_be64_def put_be64_def le_to_nat_to_le [OF unat64_bound])

lemma get_put_be32 [simp]: "get_be32 (put_be32 w) = w"
  by (simp add: get_be32_def put_be32_def le_to_nat_to_le [OF unat32_bound])

section \<open>Loops over a list\<close>

lemma foldl_invariant:
  assumes "I st" and "\<And>st x. x \<in> set xs \<Longrightarrow> I st \<Longrightarrow> I (f st x)"
  shows "I (foldl f st xs)"
  using assms by (induction xs arbitrary: st) auto

section \<open>Sorted lists\<close>

lemma sorted_last: "sorted ks \<Longrightarrow> k \<in> set ks \<Longrightarrow> k \<le> last ks"
  by (induction ks) auto

lemma filter_after_take:
  assumes "sorted xs" "distinct xs" "0 < n" "n < length xs"
  shows "filter ((<) (last (take n xs))) xs = drop n xs"
proof -
  let ?a = "take n xs" and ?b = "drop n xs"
  have ab: "xs = ?a @ ?b" by simp
  have s: "sorted ?a" "\<forall>x \<in> set ?a. \<forall>y \<in> set ?b. x \<le> y"
    using assms(1) by (simp add: sorted_wrt_take, metis ab sorted_append assms(1))
  have "last ?a \<in> set ?a" using assms(3,4) by (intro last_in_set) auto
  then have "\<forall>y \<in> set ?b. last ?a < y" "\<forall>x \<in> set ?a. \<not> last ?a < x"
    using s sorted_last [OF s(1)] assms(2) ab by (auto simp: order.order_iff_strict not_less) (metis distinct_append ab disjoint_iff)
  then have "filter ((<) (last ?a)) ?b = ?b" "filter ((<) (last ?a)) ?a = []" by (auto simp: filter_id_conv filter_empty_conv)
  then show ?thesis by (metis ab append_Nil filter_append)
qed

end
