(* ===== verification/Keys.thy ===== *)
theory Keys
  imports Prelude
begin

text \<open>
  The key schema of the metadata database (\<^verbatim>\<open>src/storage/keys/keys.go\<close>): the
  prefixes, the constructor and the parser of every index key, and Go's calendar
  formatting used by the access buckets.  The locales state what the scans rely
  on (a parser inverts its constructor; keys sort by time); every index of the
  program interprets them.
\<close>

section \<open>Prefixes\<close>

definition MetadataPrefix :: bytes where "MetadataPrefix = ''!meta/''"
definition VersionHWMKey :: bytes where "VersionHWMKey = ''!verhwm''"
definition AccessBucketPrefix :: bytes where "AccessBucketPrefix = ''!access_bucket/''"
definition AccessBucketIndexPrefix :: bytes where "AccessBucketIndexPrefix = ''!access_bucket_index/''"
definition CompactionIndexPrefix :: bytes where "CompactionIndexPrefix = ''!compact/''"
definition SyncIndexPrefix :: bytes where "SyncIndexPrefix = ''!sync/''"
definition DeletionQueuePrefix :: bytes where "DeletionQueuePrefix = ''!del/''"
definition DeleteIndexPrefix :: bytes where "DeleteIndexPrefix = ''!delete:segment/''"
definition FifoIndexPrefix :: bytes where "FifoIndexPrefix = ''!fifo/''"
definition FifoBackrefPrefix :: bytes where "FifoBackrefPrefix = ''!fifo_ref/''"

lemmas prefix_defs = MetadataPrefix_def VersionHWMKey_def AccessBucketPrefix_def
  AccessBucketIndexPrefix_def CompactionIndexPrefix_def SyncIndexPrefix_def
  DeletionQueuePrefix_def DeleteIndexPrefix_def FifoIndexPrefix_def FifoBackrefPrefix_def

definition key_families :: "bytes list" where
  "key_families = [MetadataPrefix, VersionHWMKey, AccessBucketPrefix, AccessBucketIndexPrefix,
     CompactionIndexPrefix, SyncIndexPrefix, DeletionQueuePrefix, DeleteIndexPrefix,
     FifoIndexPrefix, FifoBackrefPrefix]"

section \<open>Metadata and compaction keys\<close>

definition MakeMetadataKey :: "string \<Rightarrow> bytes" where
  [key_defs]: "MakeMetadataKey userKey = MetadataPrefix @ userKey"

definition MakeCompactionKey :: "int \<Rightarrow> string \<Rightarrow> bytes" where
  [key_defs]: "MakeCompactionKey ts key = ''!compact/'' @ fmt_0d 20 ts @ ''|'' @ key"

definition ParseCompactionIndexRow :: "bytes \<Rightarrow> bytes \<Rightarrow> (string \<times> string) option" where
  "ParseCompactionIndexRow k v =
    (case index_byte k (CHR ''|'') of
       None \<Rightarrow> None
     | Some pipeIdx \<Rightarrow> if pipeIdx = 0 then None else Some (drop (pipeIdx + 1) k, v))"

definition ExtractUserKey :: "bytes \<Rightarrow> string" where
  "ExtractUserKey key = (if prefix MetadataPrefix key then drop (length MetadataPrefix) key else key)"

definition IsMetadataKey :: "bytes \<Rightarrow> bool" where
  "IsMetadataKey key = prefix MetadataPrefix key"

definition IsInternalKey :: "bytes \<Rightarrow> bool" where
  "IsInternalKey key = (key \<noteq> [] \<and> hd key = CHR ''!'')"

section \<open>Sync, deletion-queue and delete-index keys\<close>

text \<open>The clock reading of \<^verbatim>\<open>MakeSyncKey\<close> is its first argument.\<close>

definition MakeSyncKey :: "int \<Rightarrow> string \<Rightarrow> bytes" where
  [key_defs]: "MakeSyncKey nowNano filepath = SyncIndexPrefix @ fmt_0d 20 nowNano @ ''/'' @ filepath"

definition ParseSyncKey :: "bytes \<Rightarrow> (int \<times> string) result" where
  "ParseSyncKey keyStr =
    (if \<not> prefix SyncIndexPrefix keyStr then Inl ''invalid sync key prefix''
     else (case split_first (CHR ''/'') (drop (length SyncIndexPrefix) keyStr) of
         (_, None) \<Rightarrow> Inl ''invalid sync key format''
       | (ts, Some path) \<Rightarrow>
           (case sscanf_d 20 ts of
              None \<Rightarrow> Inl ''failed to parse timestamp''
            | Some timestamp \<Rightarrow> Inr (timestamp, path))))"

definition IsSyncKey :: "bytes \<Rightarrow> bool" where
  "IsSyncKey key = prefix SyncIndexPrefix key"

definition MakeDeletionQueueKey :: "int \<Rightarrow> string \<Rightarrow> bytes" where
  [key_defs]: "MakeDeletionQueueKey timestamp filepath =
     DeletionQueuePrefix @ fmt_0d 20 timestamp @ ''/'' @ filepath"

definition ParseDeletionQueueKey :: "bytes \<Rightarrow> (int \<times> string) result" where
  "ParseDeletionQueueKey keyStr =
    (if \<not> prefix DeletionQueuePrefix keyStr then Inl ''invalid deletion queue key prefix''
     else (case split_first (CHR ''/'') (drop (length DeletionQueuePrefix) keyStr) of
         (_, None) \<Rightarrow> Inl ''invalid deletion queue key format''
       | (ts, Some path) \<Rightarrow>
           (case sscanf_d 20 ts of
              None \<Rightarrow> Inl ''failed to parse timestamp''
            | Some timestamp \<Rightarrow> Inr (timestamp, path))))"

definition IsDeletionQueueKey :: "bytes \<Rightarrow> bool" where
  "IsDeletionQueueKey key = prefix DeletionQueuePrefix key"

definition MakeDeleteIndexKey :: "string \<Rightarrow> bytes" where
  [key_defs]: "MakeDeleteIndexKey segmentPath = DeleteIndexPrefix @ segmentPath"

definition ExtractSegmentPath :: "bytes \<Rightarrow> string" where
  "ExtractSegmentPath key = (if prefix DeleteIndexPrefix key then drop (length DeleteIndexPrefix) key else [])"

definition IsDeleteIndexKey :: "bytes \<Rightarrow> bool" where
  "IsDeleteIndexKey key = prefix DeleteIndexPrefix key"

section \<open>Calendar time: \<open>time.Format\<close> with the layout YYYYMMDDHH\<close>

text \<open>A \<^verbatim>\<open>time.Time\<close> is its \<^verbatim>\<open>UnixNano\<close> and the offset in seconds of its location.
  Year and day of the year follow Go's 400-, 100-, 4- and 1-year cycles.\<close>

record gotime =
  unixNano :: int
  zoneOffset :: int

definition is_leap :: "int \<Rightarrow> bool" where
  "is_leap y = (y mod 4 = 0 \<and> (y mod 100 \<noteq> 0 \<or> y mod 400 = 0))"

definition year_yday :: "int \<Rightarrow> int \<times> int" where
  "year_yday days =
    (let D = days + 719162; d0 = D mod 146097;
         n1 = d0 div 36524 - d0 div 36524 div 4; d1 = d0 - 36524 * n1;
         n2 = d1 div 1461; d2 = d1 - 1461 * n2;
         n3 = d2 div 365 - d2 div 365 div 4; d3 = d2 - 365 * n3
     in (400 * (D div 146097) + 100 * n1 + 4 * n2 + n3 + 1, d3))"

definition daysBefore :: "int list" where
  "daysBefore = [0, 31, 59, 90, 120, 151, 181, 212, 243, 273, 304, 334, 365]"

definition month_day :: "bool \<Rightarrow> int \<Rightarrow> int \<times> int" where
  "month_day leap yday =
    (if leap \<and> yday = 59 then (2, 29)
     else (let day = (if leap \<and> yday > 59 then yday - 1 else yday); m = nat (day div 31)
           in if day \<ge> daysBefore ! (m + 1) then (int m + 2, day - daysBefore ! (m + 1) + 1)
              else (int m + 1, day - daysBefore ! m + 1)))"

definition format_YYYYMMDDHH :: "gotime \<Rightarrow> string" where
  "format_YYYYMMDDHH t =
    (let s = unixNano t div 1000000000 + zoneOffset t;
         (y, yday) = year_yday (s div 86400);
         (m, d) = month_day (is_leap y) yday;
         h = s mod 86400 div 3600
     in fmt_0d 4 y @ fmt_0d 2 m @ fmt_0d 2 d @ fmt_0d 2 h)"

section \<open>Access-bucket and FIFO keys\<close>

definition GetBucketedAccessKey :: "gotime \<Rightarrow> string" where
  [key_defs]: "GetBucketedAccessKey timestamp = AccessBucketPrefix @ format_YYYYMMDDHH timestamp @ ''/''"

definition MakeBucketedAccessKey :: "string \<Rightarrow> gotime \<Rightarrow> bytes" where
  [key_defs]: "MakeBucketedAccessKey key accessTime =
     GetBucketedAccessKey accessTime @ fmt_0d 19 (unixNano accessTime) @ ''/'' @ key"

definition MakeBucketedAccessIndexKey :: "string \<Rightarrow> bytes" where
  [key_defs]: "MakeBucketedAccessIndexKey key = AccessBucketIndexPrefix @ key"

definition IsBucketedAccessKey :: "bytes \<Rightarrow> bool" where
  "IsBucketedAccessKey key =
    (length key \<ge> length AccessBucketPrefix \<and> take (length AccessBucketPrefix) key = AccessBucketPrefix)"

definition MakeFifoIndexKey :: "string \<Rightarrow> gotime \<Rightarrow> bytes" where
  [key_defs]: "MakeFifoIndexKey key writeTime = FifoIndexPrefix @ fmt_0d 19 (unixNano writeTime) @ ''/'' @ key"

definition GetFifoIndexPrefix :: bytes where
  "GetFifoIndexPrefix = FifoIndexPrefix"

definition MakeFifoBackrefKey :: "string \<Rightarrow> bytes" where
  [key_defs]: "MakeFifoBackrefKey key = FifoBackrefPrefix @ key"

text \<open>The width of the verb \<open>%d\<close> in \<^verbatim>\<open>Sscanf\<close> is unlimited; the 19 characters it
  is given bound it.\<close>

definition ParseFifoIndexTime :: "bytes \<Rightarrow> int result" where
  "ParseFifoIndexTime s =
    (let n = length FifoIndexPrefix in
     if length s < n + 20 \<or> take n s \<noteq> FifoIndexPrefix \<or> s ! (n + 19) \<noteq> CHR ''/''
     then Inl ''invalid fifo index key: bad prefix or timestamp''
     else (case sscanf_d 19 (take 19 (drop n s)) of
             None \<Rightarrow> Inl ''invalid fifo index key: bad timestamp''
           | Some nanos \<Rightarrow> Inr nanos))"

definition ParseFifoIndexKey :: "bytes \<Rightarrow> string result" where
  "ParseFifoIndexKey s =
    (let n = length FifoIndexPrefix in
     if length s < n \<or> take n s \<noteq> FifoIndexPrefix then Inl ''invalid fifo index key: bad prefix''
     else (let rest = drop n s in
       if length rest < 20 \<or> rest ! 19 \<noteq> CHR ''/''
       then Inl ''invalid fifo index key: missing timestamp separator''
       else Inr (drop 20 rest)))"

definition ParseBucketedAccessKey :: "bytes \<Rightarrow> (string \<times> int) result" where
  "ParseBucketedAccessKey keyStr =
    (let prefixLen = length AccessBucketPrefix in
     if length keyStr < prefixLen then Inl ''invalid bucketed key: too short''
     else (let remaining = drop prefixLen keyStr in
       if length remaining < 11 then Inl ''invalid bucketed key: missing bucket''
       else (let remaining = drop 11 remaining in
         if length remaining < 20 then Inl ''invalid bucketed key: missing timestamp''
         else (case sscanf_d 19 (take 19 remaining) of
                 None \<Rightarrow> Inl ''invalid timestamp in bucketed key''
               | Some timestamp \<Rightarrow> Inr (drop 20 remaining, timestamp)))))"

definition ExtractAccessBucketFromKey :: "bytes \<Rightarrow> string" where
  "ExtractAccessBucketFromKey keyStr =
    (let prefixLen = length AccessBucketPrefix in
     if length keyStr < prefixLen + 11 then [] else take (prefixLen + 11) keyStr)"

section \<open>What the index scans rely on\<close>

definition nonneg_int64 :: "int \<Rightarrow> bool" where
  "nonneg_int64 t \<longleftrightarrow> 0 \<le> t \<and> t < 2 ^ 63"

locale keyed_index =
  fixes pfx :: bytes
    and enc :: "int \<Rightarrow> string \<Rightarrow> bytes"
    and dec_key :: "bytes \<Rightarrow> string option"
    and ok :: "int \<Rightarrow> bool"
  assumes enc_prefix: "prefix pfx (enc t k)"
    and dec_key_enc: "ok t \<Longrightarrow> dec_key (enc t k) = Some k"
begin

lemma enc_eq_key:
  assumes "ok t" "ok t'" "enc t k = enc t' k'"
  shows "k = k'"
  using dec_key_enc [OF assms(1), of k] dec_key_enc [OF assms(2), of k'] assms(3) by simp

end

locale timed_index = keyed_index +
  fixes dec_time :: "bytes \<Rightarrow> int option"
  assumes dec_time_enc: "ok t \<Longrightarrow> dec_time (enc t k) = Some t"
begin

lemma enc_inject:
  assumes "ok t" "ok t'"
  shows "enc t k = enc t' k' \<longleftrightarrow> t = t' \<and> k = k'"
  using enc_eq_key [OF assms] dec_time_enc [OF assms(1), of k] dec_time_enc [OF assms(2), of k']
  by auto

end

locale ordered_index = keyed_index +
  assumes enc_less: "\<lbrakk> ok t; ok t'; t < t' \<rbrakk> \<Longrightarrow> enc t k < enc t' k'"
begin

text \<open>A key-ordered scan of the index visits the entries in time order.\<close>

lemma scan_in_time_order:
  assumes "\<forall>(t, k) \<in> set es. ok t" and "sorted (map (\<lambda>(t, k). enc t k) es)"
  shows "sorted (map fst es)"
  using assms
proof (induction es)
  case (Cons e es)
  obtain t k where e: "e = (t, k)" by (cases e)
  have "t \<le> t'" if "(t', k') \<in> set es" for t' k'
  proof (rule ccontr)
    assume "\<not> t \<le> t'"
    moreover have "ok t'" "ok t" using Cons.prems that e by auto
    ultimately have "enc t' k' < enc t k" by (simp add: enc_less)
    moreover have "enc t k \<le> enc t' k'" using Cons.prems(2) that e by auto
    ultimately show False by simp
  qed
  with Cons e show ?case by auto
qed simp

end

section \<open>Lemmas\<close>

lemma fmt_width:
  assumes "nonneg_int64 t" "19 \<le> w"
  shows "length (fmt_0d w t) = w" "fmt_0d w t = fixd w (nat t)"
    "sscanf_d w (fmt_0d w t) = Some t" "c \<in> set (fmt_0d w t) \<Longrightarrow> is_digit c"
proof -
  have "(2 :: int) ^ 63 < 10 ^ 19" by simp
  also have "(10 :: int) ^ 19 \<le> 10 ^ w" using assms(2) by (intro power_increasing) simp_all
  finally have t: "0 \<le> t" "t < 10 ^ w" "t < 2 ^ 63" using assms by (simp_all add: nonneg_int64_def)
  then have n: "nat t < 10 ^ w" by (simp add: nat_less_iff)
  show eq: "fmt_0d w t = fixd w (nat t)" using fmt_0d_eq [of t w] t assms(2) by simp
  show "length (fmt_0d w t) = w" by (simp add: eq)
  show "sscanf_d w (fmt_0d w t) = Some t"
    using sscanf_fixd [OF n, of w] t assms(2) by (simp add: eq)
  show "c \<in> set (fmt_0d w t) \<Longrightarrow> is_digit c" using set_fixd [OF n, of c] by (simp add: eq)
qed

lemma fmt_no_sep:
  assumes "nonneg_int64 t" "19 \<le> w"
  shows "CHR ''/'' \<notin> set (fmt_0d w t)" "CHR ''|'' \<notin> set (fmt_0d w t)"
  using fmt_width(4) [OF assms] digit_not_special by blast+

lemma fmt_less:
  assumes "nonneg_int64 t" "nonneg_int64 t'" "t < t'" "19 \<le> w"
  shows "fmt_0d w t @ xs < fmt_0d w t' @ ys"
proof -
  have "(2 :: int) ^ 63 < 10 ^ 19" by simp
  also have "(10 :: int) ^ 19 \<le> 10 ^ w" using assms(4) by (intro power_increasing) simp_all
  finally have "nat t' < 10 ^ w" using assms(2) by (simp add: nonneg_int64_def nat_less_iff)
  then show ?thesis
    using assms fixd_less [of "nat t" "nat t'" w] by (simp add: fmt_width(2) nonneg_int64_def)
qed

lemma split_fmt: "nonneg_int64 t \<Longrightarrow> split_first (CHR ''/'') (fmt_0d 20 t @ ''/'' @ p) = (fmt_0d 20 t, Some p)"
  using split_first_append [OF fmt_no_sep(1)] by simp

lemma parse_sync_make:
  "nonneg_int64 t \<Longrightarrow> ParseSyncKey (MakeSyncKey t p) = Inr (t, p)"
  using split_fmt [of t p] by (simp add: ParseSyncKey_def MakeSyncKey_def fmt_width(1,3))

lemma parse_deletion_make:
  "nonneg_int64 t \<Longrightarrow> ParseDeletionQueueKey (MakeDeletionQueueKey t p) = Inr (t, p)"
  using split_fmt [of t p] by (simp add: ParseDeletionQueueKey_def MakeDeletionQueueKey_def fmt_width(1,3))

lemma parse_compaction_make:
  assumes "nonneg_int64 t"
  shows "ParseCompactionIndexRow (MakeCompactionKey t k) v = Some (k, v)"
proof -
  let ?a = "''!compact/'' @ fmt_0d 20 t"
  have "CHR ''|'' \<notin> set ?a" using fmt_no_sep(2) [OF assms, of 20] by simp
  then have "index_byte (?a @ CHR ''|'' # k) (CHR ''|'') = Some (length ?a)"
    by (rule index_byte_append)
  then show ?thesis
    by (simp add: ParseCompactionIndexRow_def MakeCompactionKey_def fmt_width(1) [OF assms])
qed

lemma fifo_entry_nth: "nonneg_int64 t \<Longrightarrow> (fmt_0d 19 t @ CHR ''/'' # k) ! 19 = CHR ''/''"
  by (metis fmt_width(1) le_refl nth_append_length)

lemma parse_fifo_make:
  assumes "nonneg_int64 (unixNano t)"
  shows "ParseFifoIndexKey (MakeFifoIndexKey k t) = Inr k"
    and "ParseFifoIndexTime (MakeFifoIndexKey k t) = Inr (unixNano t)"
proof -
  let ?n = "length FifoIndexPrefix"
  have "(FifoIndexPrefix @ fmt_0d 19 (unixNano t) @ CHR ''/'' # k) ! (?n + 19) = CHR ''/''"
    using fifo_entry_nth [OF assms, of k] by (simp add: nth_append)
  then show "ParseFifoIndexKey (MakeFifoIndexKey k t) = Inr k"
    and "ParseFifoIndexTime (MakeFifoIndexKey k t) = Inr (unixNano t)"
    using fifo_entry_nth [OF assms, of k]
    by (simp_all add: ParseFifoIndexKey_def ParseFifoIndexTime_def MakeFifoIndexKey_def
        fmt_width(1,3) [OF assms])
qed

section \<open>The indexes of the program\<close>

definition right_option :: "'a result \<Rightarrow> 'a option" where
  "right_option r = (case r of Inl _ \<Rightarrow> None | Inr x \<Rightarrow> Some x)"

lemma right_option_Inr [simp]: "right_option (Inr x) = Some x"
  by (simp add: right_option_def)

abbreviation at_nano :: "int \<Rightarrow> int \<Rightarrow> gotime" where
  "at_nano off t \<equiv> \<lparr>unixNano = t, zoneOffset = off\<rparr>"

interpretation sync_index: ordered_index SyncIndexPrefix MakeSyncKey
  "\<lambda>b. map_option snd (right_option (ParseSyncKey b))" nonneg_int64
  by unfold_locales (simp_all add: parse_sync_make, simp_all add: MakeSyncKey_def fmt_less)

interpretation sync_index: timed_index SyncIndexPrefix MakeSyncKey
  "\<lambda>b. map_option snd (right_option (ParseSyncKey b))" nonneg_int64
  "\<lambda>b. map_option fst (right_option (ParseSyncKey b))"
  by unfold_locales (simp add: parse_sync_make)

interpretation deletion_index: ordered_index DeletionQueuePrefix MakeDeletionQueueKey
  "\<lambda>b. map_option snd (right_option (ParseDeletionQueueKey b))" nonneg_int64
  by unfold_locales (simp_all add: parse_deletion_make, simp_all add: MakeDeletionQueueKey_def fmt_less)

interpretation deletion_index: timed_index DeletionQueuePrefix MakeDeletionQueueKey
  "\<lambda>b. map_option snd (right_option (ParseDeletionQueueKey b))" nonneg_int64
  "\<lambda>b. map_option fst (right_option (ParseDeletionQueueKey b))"
  by unfold_locales (simp add: parse_deletion_make)

interpretation compaction_index: ordered_index CompactionIndexPrefix MakeCompactionKey
  "\<lambda>b. map_option fst (ParseCompactionIndexRow b v)" nonneg_int64 for v
  by unfold_locales (simp_all add: parse_compaction_make,
      simp_all add: MakeCompactionKey_def CompactionIndexPrefix_def fmt_less)

interpretation fifo_index: ordered_index FifoIndexPrefix "\<lambda>t k. MakeFifoIndexKey k (at_nano off t)"
  "\<lambda>b. right_option (ParseFifoIndexKey b)" nonneg_int64 for off
  by unfold_locales (simp_all add: parse_fifo_make, simp_all add: MakeFifoIndexKey_def fmt_less)

interpretation fifo_index: timed_index FifoIndexPrefix "\<lambda>t k. MakeFifoIndexKey k (at_nano off t)"
  "\<lambda>b. right_option (ParseFifoIndexKey b)" nonneg_int64 "\<lambda>b. right_option (ParseFifoIndexTime b)" for off
  by unfold_locales (simp add: parse_fifo_make)

section \<open>The access buckets\<close>

text \<open>Zone offsets are below one day; the layout then always has ten characters.\<close>

definition valid_zone :: "int \<Rightarrow> bool" where
  "valid_zone off \<longleftrightarrow> - 86400 < off \<and> off < 86400"

lemma cycle_cut:
  fixes c d :: int
  assumes "0 \<le> d" "d \<le> 4 * c" "0 < c" "n = d div c - d div c div 4"
  shows "0 \<le> n" "n \<le> 3" "0 \<le> d - c * n" "d - c * n \<le> c"
proof -
  have d: "d = c * (d div c) + d mod c" "0 \<le> d mod c" "d mod c < c" using assms(3) by simp_all
  have q: "0 \<le> d div c" "d div c \<le> 4"
    using assms(1-3) by (simp_all add: pos_imp_zdiv_nonneg_iff) (metis div_le_mono2 mult.commute nonzero_mult_div_cancel_right less_irrefl zdiv_mono1)
  consider "d div c = 4" | "d div c div 4 = 0" "d div c \<le> 3" using q by linarith
  then have "0 \<le> n \<and> n \<le> 3 \<and> 0 \<le> d - c * n \<and> d - c * n \<le> c"
  proof cases
    case 1
    then have "n = 3" "d = 4 * c" using assms(2,4) d by auto
    with assms(3) show ?thesis by simp
  next
    case 2
    with assms(4) have n: "n = d div c" by simp
    with d(1) have "d - c * n = d mod c" by (simp add: minus_mult_div_eq_mod)
    with n q 2 d show ?thesis by simp
  qed
  then show "0 \<le> n" "n \<le> 3" "0 \<le> d - c * n" "d - c * n \<le> c" by blast+
qed

lemma year_yday_bounds:
  assumes "-2 \<le> days" "days \<le> 200000"
  shows "0 \<le> fst (year_yday days) \<and> fst (year_yday days) \<le> 9999"
    and "0 \<le> snd (year_yday days) \<and> snd (year_yday days) \<le> 365"
proof -
  define D where "D = days + 719162"
  define d0 where "d0 = D mod 146097"
  define n1 where "n1 = d0 div 36524 - d0 div 36524 div 4"
  define d1 where "d1 = d0 - 36524 * n1"
  define n2 where "n2 = d1 div 1461"
  define d2 where "d2 = d1 - 1461 * n2"
  define n3 where "n3 = d2 div 365 - d2 div 365 div 4"
  have e: "year_yday days = (400 * (D div 146097) + 100 * n1 + 4 * n2 + n3 + 1, d2 - 365 * n3)"
    unfolding year_yday_def Let_def D_def [symmetric] d0_def [symmetric] n1_def [symmetric]
      d1_def [symmetric] n2_def [symmetric] d2_def [symmetric] n3_def [symmetric] by (rule refl)
  have D: "0 \<le> D div 146097" "D div 146097 \<le> 6"
    using assms zdiv_mono1 [of D 919162 146097] by (simp_all add: D_def pos_imp_zdiv_nonneg_iff)
  have d0: "0 \<le> d0" "d0 \<le> 146096" unfolding d0_def by simp_all
  have n1: "0 \<le> n1" "n1 \<le> 3" "0 \<le> d1" "d1 \<le> 36524"
    using cycle_cut [OF d0(1) _ _ n1_def] d0 unfolding d1_def by simp_all
  have n2: "0 \<le> n2" "n2 \<le> 24"
    using n1 zdiv_mono1 [of d1 36524 1461] by (simp_all add: n2_def pos_imp_zdiv_nonneg_iff)
  have "d2 = d1 mod 1461" by (simp add: d2_def n2_def minus_mult_div_eq_mod)
  then have d2: "0 \<le> d2" "d2 \<le> 1460" by simp_all
  have n3: "0 \<le> n3" "n3 \<le> 3" "0 \<le> d2 - 365 * n3" "d2 - 365 * n3 \<le> 365"
    using cycle_cut [OF d2(1) _ _ n3_def] d2 by simp_all
  show "0 \<le> fst (year_yday days) \<and> fst (year_yday days) \<le> 9999"
    using D n1 n2 n3 by (simp add: e)
  show "0 \<le> snd (year_yday days) \<and> snd (year_yday days) \<le> 365"
    using n3 by (simp add: e)
qed

lemma daysBefore_bounds: "m < 13 \<Longrightarrow> 0 \<le> daysBefore ! m \<and> daysBefore ! m \<le> 31 * int m"
  by (auto simp: daysBefore_def less_Suc_eq numeral_eq_Suc)

lemma daysBefore_lower: "m < 12 \<Longrightarrow> 31 * int m \<le> daysBefore ! m + 7"
  by (auto simp: daysBefore_def less_Suc_eq numeral_eq_Suc)

lemma month_day_bounds:
  assumes "0 \<le> yday" "yday \<le> 365"
  shows "0 \<le> fst (month_day l yday) \<and> fst (month_day l yday) \<le> 13"
    and "0 \<le> snd (month_day l yday) \<and> snd (month_day l yday) \<le> 40"
proof -
  define day where "day = (if l \<and> yday > 59 then yday - 1 else yday)"
  define m where "m = nat (day div 31)"
  have day: "0 \<le> day" "day \<le> 365" using assms by (auto simp: day_def)
  have m: "m < 12" "31 * int m \<le> day" "day < 31 * int m + 31"
    using day unfolding m_def by linarith+
  note b = daysBefore_bounds [of m] daysBefore_bounds [of "m + 1"] daysBefore_lower [OF m(1)]
  have e: "month_day l yday = (if l \<and> yday = 59 then (2, 29)
      else if day \<ge> daysBefore ! (m + 1) then (int m + 2, day - daysBefore ! (m + 1) + 1)
      else (int m + 1, day - daysBefore ! m + 1))"
    by (simp add: month_day_def day_def m_def Let_def)
  show "0 \<le> fst (month_day l yday) \<and> fst (month_day l yday) \<le> 13" using m by (simp add: e)
  have "day - daysBefore ! (m + 1) \<le> 38" if "m + 1 < 12"
    using m daysBefore_lower [OF that] by simp
  moreover have "day - daysBefore ! (m + 1) \<le> 38" if "m + 1 = 12"
    using m day that by (simp add: daysBefore_def)
  moreover from m(1) have "m + 1 < 12 \<or> m + 1 = 12" by linarith
  ultimately have "day - daysBefore ! (m + 1) \<le> 38" by blast
  then show "0 \<le> snd (month_day l yday) \<and> snd (month_day l yday) \<le> 40"
    using m b by (simp add: e)
qed

lemma length_fmt2: "0 \<le> n \<Longrightarrow> n < 10 ^ w \<Longrightarrow> 0 < w \<Longrightarrow> length (fmt_0d w n) = w"
  by (simp add: fmt_0d_eq)

lemma length_format:
  assumes "nonneg_int64 (unixNano t)" "valid_zone (zoneOffset t)"
  shows "length (format_YYYYMMDDHH t) = 10"
proof -
  define s where "s = unixNano t div 1000000000 + zoneOffset t"
  obtain y yd where y: "year_yday (s div 86400) = (y, yd)" by fastforce
  obtain m d where m: "month_day (is_leap y) yd = (m, d)" by fastforce
  have "-86400 < s" "s < 9223372037 + 86400"
    using assms unfolding s_def nonneg_int64_def valid_zone_def by auto
  then have "-2 \<le> s div 86400" "s div 86400 \<le> 200000"
    using zdiv_mono1 [of "-86400" s 86400] zdiv_mono1 [of s 9223458437 86400] by simp_all
  note b = year_yday_bounds [OF this, unfolded y fst_conv snd_conv]
  note c = month_day_bounds [of yd "is_leap y", unfolded m fst_conv snd_conv]
  have h: "0 \<le> s mod 86400 div 3600" "s mod 86400 div 3600 < 24" by simp_all
  show ?thesis
    using b c h y m by (simp add: format_YYYYMMDDHH_def s_def [symmetric] Let_def length_fmt2)
qed

lemma parse_bucketed_make:
  assumes "nonneg_int64 (unixNano t)" "valid_zone (zoneOffset t)"
  shows "ParseBucketedAccessKey (MakeBucketedAccessKey k t) = Inr (k, unixNano t)"
  using length_format [OF assms] fmt_width(1,3) [OF assms(1), of 19]
  by (simp add: ParseBucketedAccessKey_def MakeBucketedAccessKey_def GetBucketedAccessKey_def Let_def)

interpretation access_index: timed_index AccessBucketPrefix "\<lambda>t k. MakeBucketedAccessKey k (at_nano off t)"
  "\<lambda>b. map_option fst (right_option (ParseBucketedAccessKey b))"
  "\<lambda>t. nonneg_int64 t \<and> valid_zone off"
  "\<lambda>b. map_option snd (right_option (ParseBucketedAccessKey b))" for off
  by unfold_locales (simp_all add: parse_bucketed_make,
      simp_all add: MakeBucketedAccessKey_def GetBucketedAccessKey_def)


section \<open>The families of keys are disjoint\<close>

lemma key_neq [simp]:
  "MakeMetadataKey a \<noteq> VersionHWMKey" "MakeMetadataKey a \<noteq> MakeBucketedAccessKey b t"
  "MakeMetadataKey a \<noteq> MakeBucketedAccessIndexKey c" "MakeMetadataKey a \<noteq> MakeCompactionKey n d"
  "MakeMetadataKey a \<noteq> MakeSyncKey m e" "MakeMetadataKey a \<noteq> MakeDeletionQueueKey l f"
  "MakeMetadataKey a \<noteq> MakeDeleteIndexKey g" "MakeMetadataKey a \<noteq> MakeFifoIndexKey h u"
  "MakeMetadataKey a \<noteq> MakeFifoBackrefKey i" "VersionHWMKey \<noteq> MakeMetadataKey a"
  "VersionHWMKey \<noteq> MakeBucketedAccessKey b t" "VersionHWMKey \<noteq> MakeBucketedAccessIndexKey c"
  "VersionHWMKey \<noteq> MakeCompactionKey n d" "VersionHWMKey \<noteq> MakeSyncKey m e"
  "VersionHWMKey \<noteq> MakeDeletionQueueKey l f" "VersionHWMKey \<noteq> MakeDeleteIndexKey g"
  "VersionHWMKey \<noteq> MakeFifoIndexKey h u" "VersionHWMKey \<noteq> MakeFifoBackrefKey i"
  "MakeBucketedAccessKey b t \<noteq> MakeMetadataKey a" "MakeBucketedAccessKey b t \<noteq> VersionHWMKey"
  "MakeBucketedAccessKey b t \<noteq> MakeBucketedAccessIndexKey c" "MakeBucketedAccessKey b t \<noteq> MakeCompactionKey n d"
  "MakeBucketedAccessKey b t \<noteq> MakeSyncKey m e" "MakeBucketedAccessKey b t \<noteq> MakeDeletionQueueKey l f"
  "MakeBucketedAccessKey b t \<noteq> MakeDeleteIndexKey g" "MakeBucketedAccessKey b t \<noteq> MakeFifoIndexKey h u"
  "MakeBucketedAccessKey b t \<noteq> MakeFifoBackrefKey i" "MakeBucketedAccessIndexKey c \<noteq> MakeMetadataKey a"
  "MakeBucketedAccessIndexKey c \<noteq> VersionHWMKey" "MakeBucketedAccessIndexKey c \<noteq> MakeBucketedAccessKey b t"
  "MakeBucketedAccessIndexKey c \<noteq> MakeCompactionKey n d" "MakeBucketedAccessIndexKey c \<noteq> MakeSyncKey m e"
  "MakeBucketedAccessIndexKey c \<noteq> MakeDeletionQueueKey l f" "MakeBucketedAccessIndexKey c \<noteq> MakeDeleteIndexKey g"
  "MakeBucketedAccessIndexKey c \<noteq> MakeFifoIndexKey h u" "MakeBucketedAccessIndexKey c \<noteq> MakeFifoBackrefKey i"
  "MakeCompactionKey n d \<noteq> MakeMetadataKey a" "MakeCompactionKey n d \<noteq> VersionHWMKey"
  "MakeCompactionKey n d \<noteq> MakeBucketedAccessKey b t" "MakeCompactionKey n d \<noteq> MakeBucketedAccessIndexKey c"
  "MakeCompactionKey n d \<noteq> MakeSyncKey m e" "MakeCompactionKey n d \<noteq> MakeDeletionQueueKey l f"
  "MakeCompactionKey n d \<noteq> MakeDeleteIndexKey g" "MakeCompactionKey n d \<noteq> MakeFifoIndexKey h u"
  "MakeCompactionKey n d \<noteq> MakeFifoBackrefKey i" "MakeSyncKey m e \<noteq> MakeMetadataKey a"
  "MakeSyncKey m e \<noteq> VersionHWMKey" "MakeSyncKey m e \<noteq> MakeBucketedAccessKey b t"
  "MakeSyncKey m e \<noteq> MakeBucketedAccessIndexKey c" "MakeSyncKey m e \<noteq> MakeCompactionKey n d"
  "MakeSyncKey m e \<noteq> MakeDeletionQueueKey l f" "MakeSyncKey m e \<noteq> MakeDeleteIndexKey g"
  "MakeSyncKey m e \<noteq> MakeFifoIndexKey h u" "MakeSyncKey m e \<noteq> MakeFifoBackrefKey i"
  "MakeDeletionQueueKey l f \<noteq> MakeMetadataKey a" "MakeDeletionQueueKey l f \<noteq> VersionHWMKey"
  "MakeDeletionQueueKey l f \<noteq> MakeBucketedAccessKey b t" "MakeDeletionQueueKey l f \<noteq> MakeBucketedAccessIndexKey c"
  "MakeDeletionQueueKey l f \<noteq> MakeCompactionKey n d" "MakeDeletionQueueKey l f \<noteq> MakeSyncKey m e"
  "MakeDeletionQueueKey l f \<noteq> MakeDeleteIndexKey g" "MakeDeletionQueueKey l f \<noteq> MakeFifoIndexKey h u"
  "MakeDeletionQueueKey l f \<noteq> MakeFifoBackrefKey i" "MakeDeleteIndexKey g \<noteq> MakeMetadataKey a"
  "MakeDeleteIndexKey g \<noteq> VersionHWMKey" "MakeDeleteIndexKey g \<noteq> MakeBucketedAccessKey b t"
  "MakeDeleteIndexKey g \<noteq> MakeBucketedAccessIndexKey c" "MakeDeleteIndexKey g \<noteq> MakeCompactionKey n d"
  "MakeDeleteIndexKey g \<noteq> MakeSyncKey m e" "MakeDeleteIndexKey g \<noteq> MakeDeletionQueueKey l f"
  "MakeDeleteIndexKey g \<noteq> MakeFifoIndexKey h u" "MakeDeleteIndexKey g \<noteq> MakeFifoBackrefKey i"
  "MakeFifoIndexKey h u \<noteq> MakeMetadataKey a" "MakeFifoIndexKey h u \<noteq> VersionHWMKey"
  "MakeFifoIndexKey h u \<noteq> MakeBucketedAccessKey b t" "MakeFifoIndexKey h u \<noteq> MakeBucketedAccessIndexKey c"
  "MakeFifoIndexKey h u \<noteq> MakeCompactionKey n d" "MakeFifoIndexKey h u \<noteq> MakeSyncKey m e"
  "MakeFifoIndexKey h u \<noteq> MakeDeletionQueueKey l f" "MakeFifoIndexKey h u \<noteq> MakeDeleteIndexKey g"
  "MakeFifoIndexKey h u \<noteq> MakeFifoBackrefKey i" "MakeFifoBackrefKey i \<noteq> MakeMetadataKey a"
  "MakeFifoBackrefKey i \<noteq> VersionHWMKey" "MakeFifoBackrefKey i \<noteq> MakeBucketedAccessKey b t"
  "MakeFifoBackrefKey i \<noteq> MakeBucketedAccessIndexKey c" "MakeFifoBackrefKey i \<noteq> MakeCompactionKey n d"
  "MakeFifoBackrefKey i \<noteq> MakeSyncKey m e" "MakeFifoBackrefKey i \<noteq> MakeDeletionQueueKey l f"
  "MakeFifoBackrefKey i \<noteq> MakeDeleteIndexKey g" "MakeFifoBackrefKey i \<noteq> MakeFifoIndexKey h u"
  by (simp_all add: key_defs prefix_defs)

lemma key_inject [simp]:
  "MakeMetadataKey a = MakeMetadataKey b \<longleftrightarrow> a = b"
  "MakeBucketedAccessIndexKey a = MakeBucketedAccessIndexKey b \<longleftrightarrow> a = b"
  "MakeDeleteIndexKey a = MakeDeleteIndexKey b \<longleftrightarrow> a = b"
  "MakeFifoBackrefKey a = MakeFifoBackrefKey b \<longleftrightarrow> a = b"
  by (simp_all add: key_defs prefix_defs)

end
