(* ===== verification/Rows.thy ===== *)
theory Rows
  imports Keys
begin

text \<open>
  The stored row: the protobuf messages of \<^verbatim>\<open>src/storage/proto/storage.proto\<close> as
  records, and the protobuf library as a parameter.  \<^verbatim>\<open>proto.Marshal\<close> and
  \<^verbatim>\<open>proto.Unmarshal\<close>, and the \<^verbatim>\<open>protowire\<close> scanning functions, are not part of the
  sources; they are the fields of a record \<open>proto_api\<close>, and the locale \<open>protobuf\<close> states the documented behaviour the
  program relies on.  The theory \<open>Wire\<close> gives a byte-level instance.
\<close>

section \<open>Messages\<close>

text \<open>A Go protobuf enum is open: a number the program does not know is kept.\<close>

datatype ValueType = INLINE | RAW_FILE | SEGMENT | UNKNOWN_TYPE "32 word"

datatype MetaOp = META_OP_NONE | META_OP_CAS_PUT | META_OP_CAS_DELETE

record ValueMessage =
  ValueTypeF :: ValueType
  Data :: bytes
  Expiry :: int
  RawFilePath :: string
  SegmentPath :: string
  SegmentOffset :: int
  ValueLength :: int
  Checksum :: "32 word"
  Version :: version
  OpType :: MetaOp
  CasExpectedVersion :: version

record DeleteIndexEntry =
  DeletedEntries :: int
  DeletedBytes :: int

definition vm0 :: ValueMessage where
  "vm0 = \<lparr>ValueTypeF = INLINE, Data = [], Expiry = 0, RawFilePath = [], SegmentPath = [],
     SegmentOffset = 0, ValueLength = 0, Checksum = 0, Version = 0, OpType = META_OP_NONE,
     CasExpectedVersion = 0\<rparr>"

definition di0 :: DeleteIndexEntry where
  "di0 = \<lparr>DeletedEntries = 0, DeletedBytes = 0\<rparr>"

section \<open>The fields a message is encoded as\<close>

text \<open>A field of the wire format with its number: a varint or a run of bytes.  A
  field that has its default value is not encoded.\<close>

datatype field = FVarint nat nat | FBytes nat bytes

definition u64 :: "int \<Rightarrow> nat" where
  "u64 n = nat (n mod 2 ^ 64)"

definition opt_varint :: "nat \<Rightarrow> nat \<Rightarrow> field list" where
  "opt_varint num v = (if v = 0 then [] else [FVarint num v])"

definition opt_bytes :: "nat \<Rightarrow> bytes \<Rightarrow> field list" where
  "opt_bytes num s = (if s = [] then [] else [FBytes num s])"

primrec type_num :: "ValueType \<Rightarrow> nat" where
  "type_num INLINE = 0" | "type_num RAW_FILE = 1" | "type_num SEGMENT = 2"
| "type_num (UNKNOWN_TYPE w) = u64 (sint w)"

primrec op_num :: "MetaOp \<Rightarrow> nat" where
  "op_num META_OP_NONE = 0" | "op_num META_OP_CAS_PUT = 1" | "op_num META_OP_CAS_DELETE = 2"

definition vm_fields :: "ValueMessage \<Rightarrow> field list" where
  "vm_fields v = opt_varint 1 (type_num (ValueTypeF v)) @ opt_bytes 2 (Data v)
     @ opt_varint 3 (u64 (Expiry v)) @ opt_bytes 4 (RawFilePath v) @ opt_bytes 5 (SegmentPath v)
     @ opt_varint 6 (u64 (SegmentOffset v)) @ opt_varint 7 (u64 (ValueLength v))
     @ opt_varint 8 (unat (Checksum v)) @ opt_varint 9 (unat (Version v))
     @ opt_varint 10 (op_num (OpType v)) @ opt_varint 11 (unat (CasExpectedVersion v))"

text \<open>Decoding: the last occurrence of a field wins and unknown fields are ignored.\<close>

definition num_type :: "nat \<Rightarrow> ValueType" where
  "num_type n = (let w = word_of_nat n in if w = 0 then INLINE else if w = 1 then RAW_FILE
     else if w = 2 then SEGMENT else UNKNOWN_TYPE w)"

primrec type_wf :: "ValueType \<Rightarrow> bool" where
  "type_wf INLINE = True" | "type_wf RAW_FILE = True" | "type_wf SEGMENT = True"
| "type_wf (UNKNOWN_TYPE w) = (w \<noteq> 0 \<and> w \<noteq> 1 \<and> w \<noteq> 2)"

definition num_op :: "nat \<Rightarrow> MetaOp" where
  "num_op n = (if n = 1 then META_OP_CAS_PUT else if n = 2 then META_OP_CAS_DELETE else META_OP_NONE)"

definition i64 :: "nat \<Rightarrow> int" where
  "i64 n = wrap_int64 (int n)"

definition set_field :: "ValueMessage \<Rightarrow> field \<Rightarrow> ValueMessage" where
  "set_field v f = (case f of
     FVarint num n \<Rightarrow>
       if num = 1 then v\<lparr>ValueTypeF := num_type n\<rparr> else if num = 3 then v\<lparr>Expiry := i64 n\<rparr>
       else if num = 6 then v\<lparr>SegmentOffset := i64 n\<rparr> else if num = 7 then v\<lparr>ValueLength := i64 n\<rparr>
       else if num = 8 then v\<lparr>Checksum := of_nat n\<rparr> else if num = 9 then v\<lparr>Version := of_nat n\<rparr>
       else if num = 10 then v\<lparr>OpType := num_op n\<rparr>
       else if num = 11 then v\<lparr>CasExpectedVersion := of_nat n\<rparr> else v
   | FBytes num s \<Rightarrow>
       if num = 2 then v\<lparr>Data := s\<rparr> else if num = 4 then v\<lparr>RawFilePath := s\<rparr>
       else if num = 5 then v\<lparr>SegmentPath := s\<rparr> else v)"

text \<open>The fields considered: 64-bit varints, and for \<^verbatim>\<open>op_type\<close> one of its three values.\<close>

fun field_ok :: "field \<Rightarrow> bool" where
  "field_ok (FVarint num v) = (v < 2 ^ 64 \<and> (num = 10 \<longrightarrow> v \<le> 2))"
| "field_ok (FBytes num s) = True"

section \<open>UTF-8 validity\<close>

text \<open>Go's \<^verbatim>\<open>utf8.Valid\<close>: the well-formed byte sequences of the Unicode standard.\<close>

definition in_range :: "nat \<Rightarrow> nat \<Rightarrow> char \<Rightarrow> bool" where
  "in_range lo hi c \<longleftrightarrow> lo \<le> of_char c \<and> of_char c \<le> hi"

fun utf8_valid :: "bytes \<Rightarrow> bool" where
  "utf8_valid [] = True"
| "utf8_valid (a # s) =
    (if in_range 0 127 a then utf8_valid s
     else if in_range 194 223 a then
       (case s of b # r \<Rightarrow> in_range 128 191 b \<and> utf8_valid r | _ \<Rightarrow> False)
     else if in_range 224 239 a then
       (case s of b # c # r \<Rightarrow>
            in_range (if a = char_of (224 :: nat) then 160 else 128)
                     (if a = char_of (237 :: nat) then 159 else 191) b
            \<and> in_range 128 191 c \<and> utf8_valid r | _ \<Rightarrow> False)
     else if in_range 240 244 a then
       (case s of b # c # d # r \<Rightarrow>
            in_range (if a = char_of (240 :: nat) then 144 else 128)
                     (if a = char_of (244 :: nat) then 143 else 191) b
            \<and> in_range 128 191 c \<and> in_range 128 191 d \<and> utf8_valid r | _ \<Rightarrow> False)
     else False)"

lemma utf8_Nil [simp]: "utf8_valid []"
  by simp

lemma utf8_ascii: "\<forall>c \<in> set s. (of_char c :: nat) < 128 \<Longrightarrow> utf8_valid s"
  by (induction s) (auto simp: in_range_def)

declare utf8_valid.simps(2) [simp del]

section \<open>The protobuf library\<close>

record proto_api =
  marshal :: "ValueMessage \<Rightarrow> bytes option"
  unmarshal :: "bytes \<Rightarrow> ValueMessage option"
  marshal_di :: "DeleteIndexEntry \<Rightarrow> bytes option"
  unmarshal_di :: "bytes \<Rightarrow> DeleteIndexEntry option"
  ConsumeTag :: "bytes \<Rightarrow> nat \<times> nat \<times> int"
  IsValidNumber :: "nat \<Rightarrow> bool"
  ConsumeVarint :: "bytes \<Rightarrow> 64 word \<times> int"
  ConsumeBytes :: "bytes \<Rightarrow> bytes \<times> int"
  ConsumeFieldValue :: "nat \<Rightarrow> nat \<Rightarrow> bytes \<Rightarrow> int"

text \<open>A message that a Go program can hold and the library can encode: the
  \<^verbatim>\<open>int64\<close> fields are in range, the \<^verbatim>\<open>string\<close> fields are valid UTF-8, and an unknown
  value type is none of the known ones.\<close>

definition vm_wf :: "ValueMessage \<Rightarrow> bool" where
  "vm_wf v \<longleftrightarrow> in_int64 (Expiry v) \<and> in_int64 (SegmentOffset v) \<and> in_int64 (ValueLength v)
     \<and> utf8_valid (RawFilePath v) \<and> utf8_valid (SegmentPath v) \<and> type_wf (ValueTypeF v)"

definition di_wf :: "DeleteIndexEntry \<Rightarrow> bool" where
  "di_wf e \<longleftrightarrow> in_int64 (DeletedEntries e) \<and> in_int64 (DeletedBytes e)"

text \<open>The encoding of a message whose only set field is \<open>Expiry = 1\<close>, which the
  program checks when it starts.\<close>

definition expiredSentinel :: bytes where
  "expiredSentinel = [char_of (24 :: nat), char_of (1 :: nat)]"

locale protobuf =
  fixes P :: "'a proto_api_scheme"
  assumes unmarshal_marshal: "marshal P v = Some b \<Longrightarrow> unmarshal P b = Some v"
    and marshal_total: "vm_wf v \<Longrightarrow> \<exists>b. marshal P v = Some b"
    and unmarshal_wf: "unmarshal P b = Some v \<Longrightarrow> vm_wf v"
    and marshal_default: "marshal P vm0 = Some []"
    and marshal_sentinel: "marshal P (vm0\<lparr>Expiry := 1\<rparr>) = Some expiredSentinel"
    and unmarshal_marshal_di: "marshal_di P e = Some b \<Longrightarrow> unmarshal_di P b = Some e"
    and marshal_di_total: "di_wf e \<Longrightarrow> \<exists>b. marshal_di P e = Some b"
    and unmarshal_di_wf: "unmarshal_di P b = Some e \<Longrightarrow> di_wf e"
    and marshal_di_default: "marshal_di P di0 = Some []"
begin

lemma marshal_unmarshal_ex:
  assumes "vm_wf v" obtains b where "marshal P v = Some b" "unmarshal P b = Some v"
  using assms marshal_total unmarshal_marshal by blast

lemma marshal_empty_iff: "marshal P v = Some [] \<longleftrightarrow> v = vm0"
  using marshal_default unmarshal_marshal by (metis option.inject)

lemma unmarshal_empty: "unmarshal P [] = Some vm0"
  using marshal_default unmarshal_marshal by blast

lemma unmarshal_sentinel: "unmarshal P expiredSentinel = Some (vm0\<lparr>Expiry := 1\<rparr>)"
  using marshal_sentinel unmarshal_marshal by blast

lemma unmarshal_di_empty: "unmarshal_di P [] = Some di0"
  using marshal_di_default unmarshal_marshal_di by blast

end

lemma vm_wf_vm0 [simp]: "vm_wf vm0"
  by (simp add: vm_wf_def vm0_def in_int64_def)

lemma vm0_simps [simp]:
  "ValueTypeF vm0 = INLINE" "Data vm0 = []" "Expiry vm0 = 0" "RawFilePath vm0 = []"
  "SegmentPath vm0 = []" "SegmentOffset vm0 = 0" "ValueLength vm0 = 0" "Checksum vm0 = 0"
  "Version vm0 = 0" "OpType vm0 = META_OP_NONE" "CasExpectedVersion vm0 = 0"
  by (simp_all add: vm0_def)

end
