(* ===== verification/Wire.thy ===== *)
theory Wire
  imports Rows
begin

text \<open>
  A byte-level instance of the protobuf interface: the proto3 wire format for the
  two messages, with base-128 varints, field tags, default values left out and
  the last occurrence of a field winning.  It shows that the laws of the locale
  \<open>protobuf\<close> hold together, and it is what the witnesses compute with; the program's
  own definitions never refer to it.
\<close>

section \<open>Varints and fields\<close>

fun varint :: "nat \<Rightarrow> bytes" where
  "varint n = (if n < 128 then [char_of n] else char_of (128 + n mod 128) # varint (n div 128))"

declare varint.simps [simp del]

fun parse_varint :: "bytes \<Rightarrow> (nat \<times> bytes) option" where
  "parse_varint [] = None"
| "parse_varint (c # s) =
    (let b = of_char c in
     if b < 128 then Some (b, s)
     else (case parse_varint s of None \<Rightarrow> None | Some (v, r) \<Rightarrow> Some (b - 128 + 128 * v, r)))"

fun enc_field :: "field \<Rightarrow> bytes" where
  "enc_field (FVarint num v) = varint (8 * num) @ varint v"
| "enc_field (FBytes num s) = varint (8 * num + 2) @ varint (length s) @ s"

fun parse_field :: "bytes \<Rightarrow> (field \<times> bytes) option" where
  "parse_field s =
    (case parse_varint s of None \<Rightarrow> None
     | Some (tag, r) \<Rightarrow>
       (case parse_varint r of None \<Rightarrow> None
        | Some (v, r') \<Rightarrow>
          if tag mod 8 = 0 then (if v < 2 ^ 64 then Some (FVarint (tag div 8) v, r') else None)
          else if tag mod 8 = 2 \<and> v \<le> length r' then Some (FBytes (tag div 8) (take v r'), drop v r')
          else None))"

declare parse_field.simps [simp del]

fun parse_fields :: "bytes \<Rightarrow> field list option" where
  "parse_fields s =
    (if s = [] then Some []
     else (case parse_field s of None \<Rightarrow> None
           | Some (f, r) \<Rightarrow> if length r < length s then map_option (Cons f) (parse_fields r) else None))"

declare parse_fields.simps [simp del]

lemma varint_nonempty [simp]: "varint n \<noteq> []"
  by (simp add: varint.simps [of n])

lemma parse_varint_append [simp]: "parse_varint (varint n @ r) = Some (n, r)"
proof (induction n rule: varint.induct)
  case (1 n)
  show ?case
  proof (cases "n < 128")
    case True
    then show ?thesis by (simp add: varint.simps [of n])
  next
    case False
    have "128 + n mod 128 < 256" by simp
    then show ?thesis
      using False 1 by (simp add: varint.simps [of n])
  qed
qed

lemma parse_field_append: "field_ok f \<Longrightarrow> parse_field (enc_field f @ r) = Some (f, r)"
proof (cases f)
  case (FBytes num s)
  have "(8 * num + 2) mod 8 = 2" "(8 * num + 2) div 8 = num" by presburger+
  then show ?thesis using FBytes by (simp add: parse_field.simps del: add_2_eq_Suc')
qed (simp add: parse_field.simps)

lemma enc_field_nonempty [simp]: "enc_field f \<noteq> []"
  by (cases f) auto

lemma parse_fields_concat:
  "(\<forall>f \<in> set fs. field_ok f) \<Longrightarrow> parse_fields (concat (map enc_field fs)) = Some fs"
proof (induction fs)
  case Nil
  then show ?case by (simp add: parse_fields.simps)
next
  case (Cons f fs)
  let ?r = "concat (map enc_field fs)"
  have "length ?r < length (enc_field f @ ?r)" by simp
  with Cons show ?case
    by (simp add: parse_fields.simps [of "enc_field f @ ?r"] parse_field_append)
qed

section \<open>Messages as fields\<close>

lemma i64_u64 [simp]: "in_int64 n \<Longrightarrow> i64 (u64 n) = n"
proof -
  assume "in_int64 n"
  moreover have "wrap_int64 (n mod 2 ^ 64) = wrap_int64 n"
    by (simp add: wrap_int64_def mod_simps)
  ultimately show ?thesis by (simp add: i64_def u64_def)
qed

lemma u64_less [simp]: "u64 n < 18446744073709551616"
  by (simp add: u64_def nat_less_iff)

lemma u64_zero [simp]: "u64 0 = 0"
  by (simp add: u64_def)

lemma u64_eq_0: "in_int64 n \<Longrightarrow> u64 n = 0 \<longleftrightarrow> n = 0"
  using i64_u64 [of n] by (auto simp: i64_def wrap_int64_def)

definition di_fields :: "DeleteIndexEntry \<Rightarrow> field list" where
  "di_fields e = opt_varint 1 (u64 (DeletedEntries e)) @ opt_varint 2 (u64 (DeletedBytes e))"

definition set_di_field :: "DeleteIndexEntry \<Rightarrow> field \<Rightarrow> DeleteIndexEntry" where
  "set_di_field e f = (case f of
     FVarint num n \<Rightarrow> if num = 1 then e\<lparr>DeletedEntries := i64 n\<rparr>
       else if num = 2 then e\<lparr>DeletedBytes := i64 n\<rparr> else e
   | FBytes num s \<Rightarrow> e)"

text \<open>The scanner: a tag or a value and the number of bytes it takes, negative on
  malformed input.\<close>

definition wire_ConsumeTag :: "bytes \<Rightarrow> nat \<times> nat \<times> int" where
  "wire_ConsumeTag b = (case parse_varint b of None \<Rightarrow> (0, 0, -1)
     | Some (tag, r) \<Rightarrow> (tag div 8, tag mod 8, int (length b) - int (length r)))"

definition wire_ConsumeVarint :: "bytes \<Rightarrow> 64 word \<times> int" where
  "wire_ConsumeVarint b = (case parse_varint b of None \<Rightarrow> (0, -1)
     | Some (v, r) \<Rightarrow> if v < 2 ^ 64 then (of_nat v, int (length b) - int (length r)) else (0, -1))"

definition wire_ConsumeBytes :: "bytes \<Rightarrow> bytes \<times> int" where
  "wire_ConsumeBytes b = (case parse_varint b of None \<Rightarrow> ([], -1)
     | Some (n, r) \<Rightarrow> if n \<le> length r then (take n r, int (length b) - int (length r) + int n) else ([], -1))"

definition wire_ConsumeFieldValue :: "nat \<Rightarrow> nat \<Rightarrow> bytes \<Rightarrow> int" where
  "wire_ConsumeFieldValue num typ b =
    (if typ = 0 then snd (wire_ConsumeVarint b) else if typ = 2 then snd (wire_ConsumeBytes b) else -1)"

definition wire_proto :: proto_api where
  "wire_proto = \<lparr>
     marshal = (\<lambda>v. if vm_wf v then Some (concat (map enc_field (vm_fields v))) else None),
     unmarshal = (\<lambda>b. case parse_fields b of None \<Rightarrow> None
       | Some fs \<Rightarrow> let v = foldl set_field vm0 fs in if vm_wf v then Some v else None),
     marshal_di = (\<lambda>e. if di_wf e then Some (concat (map enc_field (di_fields e))) else None),
     unmarshal_di = (\<lambda>b. case parse_fields b of None \<Rightarrow> None
       | Some fs \<Rightarrow> let e = foldl set_di_field di0 fs in if di_wf e then Some e else None),
     ConsumeTag = wire_ConsumeTag, IsValidNumber = (\<lambda>n. 1 \<le> n \<and> n < 2 ^ 29),
     ConsumeVarint = wire_ConsumeVarint, ConsumeBytes = wire_ConsumeBytes,
     ConsumeFieldValue = wire_ConsumeFieldValue\<rparr>"

lemma word_of_u64 [simp]: "word_of_nat (u64 n) = (word_of_int n :: 32 word)"
proof -
  have "word_of_nat (u64 n) = (word_of_int (n mod 2 ^ 64) :: 32 word)"
    by (simp add: u64_def of_nat_nat)
  also have "\<dots> = word_of_int n"
    by (simp add: word_of_int_eq_iff take_bit_eq_mod mod_mod_cancel)
  finally show ?thesis .
qed

lemma num_type_num [simp]: "type_wf t \<Longrightarrow> num_type (type_num t) = t"
  by (cases t) (simp_all add: num_type_def)

lemma type_num_num_0 [simp]: "num_type 0 = INLINE"
  by (simp add: num_type_def)

lemma type_wf_num [simp]: "type_wf (num_type n)"
  by (simp add: num_type_def Let_def)

lemma num_op_num [simp]: "num_op (op_num p) = p"
  by (cases p) (simp_all add: num_op_def)

lemma type_num_0: "type_wf t \<Longrightarrow> type_num t = 0 \<longleftrightarrow> t = INLINE"
proof
  assume "type_wf t" "type_num t = 0"
  then show "t = INLINE" using num_type_num [of t] by simp
qed simp

lemma op_num_0: "op_num p = 0 \<longleftrightarrow> p = META_OP_NONE"
  by (cases p) simp_all

lemma foldl_opt:
  "ValueTypeF v = INLINE \<Longrightarrow> type_wf t \<Longrightarrow> foldl set_field v (opt_varint 1 (type_num t)) = v\<lparr>ValueTypeF := t\<rparr>"
  "Data v = [] \<Longrightarrow> foldl set_field v (opt_bytes 2 s) = v\<lparr>Data := s\<rparr>"
  "Expiry v = 0 \<Longrightarrow> in_int64 n \<Longrightarrow> foldl set_field v (opt_varint 3 (u64 n)) = v\<lparr>Expiry := n\<rparr>"
  "RawFilePath v = [] \<Longrightarrow> foldl set_field v (opt_bytes 4 s) = v\<lparr>RawFilePath := s\<rparr>"
  "SegmentPath v = [] \<Longrightarrow> foldl set_field v (opt_bytes 5 s) = v\<lparr>SegmentPath := s\<rparr>"
  "SegmentOffset v = 0 \<Longrightarrow> in_int64 n \<Longrightarrow> foldl set_field v (opt_varint 6 (u64 n)) = v\<lparr>SegmentOffset := n\<rparr>"
  "ValueLength v = 0 \<Longrightarrow> in_int64 n \<Longrightarrow> foldl set_field v (opt_varint 7 (u64 n)) = v\<lparr>ValueLength := n\<rparr>"
  "Checksum v = 0 \<Longrightarrow> foldl set_field v (opt_varint 8 (unat c)) = v\<lparr>Checksum := c\<rparr>"
  "Version v = 0 \<Longrightarrow> foldl set_field v (opt_varint 9 (unat w)) = v\<lparr>Version := w\<rparr>"
  "OpType v = META_OP_NONE \<Longrightarrow> foldl set_field v (opt_varint 10 (op_num p)) = v\<lparr>OpType := p\<rparr>"
  "CasExpectedVersion v = 0 \<Longrightarrow> foldl set_field v (opt_varint 11 (unat w)) = v\<lparr>CasExpectedVersion := w\<rparr>"
  by (cases v; simp add: opt_varint_def opt_bytes_def set_field_def type_num_0 op_num_0 u64_eq_0
      unat_eq_zero; fail)+

lemma foldl_opt_di:
  "DeletedEntries e = 0 \<Longrightarrow> in_int64 n \<Longrightarrow> foldl set_di_field e (opt_varint 1 (u64 n)) = e\<lparr>DeletedEntries := n\<rparr>"
  "DeletedBytes e = 0 \<Longrightarrow> in_int64 n \<Longrightarrow> foldl set_di_field e (opt_varint 2 (u64 n)) = e\<lparr>DeletedBytes := n\<rparr>"
  by (cases e; simp add: opt_varint_def set_di_field_def u64_eq_0; fail)+

lemma field_ok_opt [simp]:
  "(\<forall>f \<in> set (opt_varint num v). field_ok f) \<longleftrightarrow> v < 2 ^ 64 \<and> (num = 10 \<longrightarrow> v \<le> 2)"
  "\<forall>f \<in> set (opt_bytes num s). field_ok f"
  by (auto simp: opt_varint_def opt_bytes_def)

lemma type_num_less: "type_num t < 2 ^ 64"
  by (cases t) simp_all

lemma op_num_less: "op_num p < 2 ^ 64" "op_num p \<le> 2"
  by (cases p; simp)+

lemma unat_less64: "unat (w :: 64 word) < 2 ^ 64" and unat32_less64: "unat (c :: 32 word) < 2 ^ 64"
  using unsigned_less [of w, where 'a = nat] unsigned_less [of c, where 'a = nat] by simp_all

lemma vm_fields_ok: "\<forall>f \<in> set (vm_fields v). field_ok f"
  unfolding vm_fields_def set_append ball_Un field_ok_opt
  using type_num_less op_num_less unat_less64 unat32_less64 by simp

lemma di_fields_ok: "\<forall>f \<in> set (di_fields e). field_ok f"
  unfolding di_fields_def set_append ball_Un field_ok_opt by simp

lemma foldl_vm_fields: "vm_wf v \<Longrightarrow> foldl set_field vm0 (vm_fields v) = v"
  by (cases v) (simp add: vm_fields_def foldl_opt vm_wf_def vm0_def del: One_nat_def)

lemma foldl_di_fields: "di_wf e \<Longrightarrow> foldl set_di_field di0 (di_fields e) = e"
  by (cases e) (simp add: di_fields_def foldl_opt_di di_wf_def di0_def del: One_nat_def)

interpretation wire: protobuf wire_proto
proof unfold_locales
  fix v b assume "marshal wire_proto v = Some b"
  then show "unmarshal wire_proto b = Some v"
    using vm_fields_ok by (auto simp: wire_proto_def parse_fields_concat foldl_vm_fields split: if_splits)
next
  fix e b assume "marshal_di wire_proto e = Some b"
  then show "unmarshal_di wire_proto b = Some e"
    using di_fields_ok by (auto simp: wire_proto_def parse_fields_concat foldl_di_fields split: if_splits)
next
  show "marshal wire_proto (vm0\<lparr>Expiry := 1\<rparr>) = Some expiredSentinel"
    by (simp add: wire_proto_def vm_wf_def in_int64_def vm_fields_def opt_varint_def opt_bytes_def
        u64_def expiredSentinel_def varint.simps)
qed (auto simp: wire_proto_def Let_def vm_fields_def di_fields_def opt_varint_def opt_bytes_def
    di_wf_def di0_def in_int64_def split: option.splits if_splits)

end
