(* ===== verification/Merge.thy ===== *)
theory Merge
  imports Wire
begin

text \<open>
  The RocksDB merge operator (\<^verbatim>\<open>src/storage/merge/operator.go\<close>, \<^verbatim>\<open>operands.go\<close>):
  the compare-and-swap rules for metadata rows, the fence that a delete leaves,
  the path-conditioned rewrites of the compactor, and the counters of the delete
  index.  RocksDB calls \<open>FullMerge\<close> with the row and the operands in the order
  they were written, when a key is read and again when it compacts a file.
\<close>

section \<open>Row state\<close>

definition VersionLegacy :: version where "VersionLegacy = 1"

definition tombstoneExpiry :: int where "tombstoneExpiry = 1"

text \<open>A Go pointer to a message that may be \<^verbatim>\<open>nil\<close> is an option.\<close>

definition IsTombstone :: "ValueMessage option \<Rightarrow> bool" where
  "IsTombstone vm = (case vm of None \<Rightarrow> False
     | Some v \<Rightarrow> Expiry v = tombstoneExpiry \<and> RawFilePath v = [] \<and> SegmentPath v = [])"

definition EffectiveRowVersion :: "ValueMessage option \<Rightarrow> version" where
  "EffectiveRowVersion vm = (case vm of None \<Rightarrow> 0
     | Some v \<Rightarrow> if Expiry v = tombstoneExpiry then Version v
                 else if Version v = 0 then VersionLegacy else Version v)"

definition fenceAdmits :: "ValueMessage \<Rightarrow> version \<Rightarrow> bool" where
  "fenceAdmits tombstone expected = (expected = 0 \<or> expected \<ge> Version tombstone)"

section \<open>The metadata compare-and-swap\<close>

text \<open>The pair is the loop's \<open>base\<close> and \<open>hadBase\<close>; one function per arm of the
  loop body.\<close>

definition tombstone_vm :: "version \<Rightarrow> ValueMessage" where
  "tombstone_vm ver = vm0\<lparr>Expiry := tombstoneExpiry, Version := ver\<rparr>"

definition cas_put_op :: "ValueMessage \<times> bool \<Rightarrow> ValueMessage \<Rightarrow> ValueMessage \<times> bool" where
  "cas_put_op st op = (case st of (base, hadBase) \<Rightarrow>
     let app = (if \<not> hadBase then True
                else if Expiry base = tombstoneExpiry then fenceAdmits base (CasExpectedVersion op)
                else EffectiveRowVersion (Some base) = CasExpectedVersion op)
     in if app then (op\<lparr>OpType := META_OP_NONE, CasExpectedVersion := 0\<rparr>, True) else st)"

definition cas_delete_op :: "ValueMessage \<times> bool \<Rightarrow> ValueMessage \<Rightarrow> ValueMessage \<times> bool" where
  "cas_delete_op st op = (case st of (base, hadBase) \<Rightarrow>
     if \<not> hadBase then
       (if CasExpectedVersion op = 0 then (tombstone_vm (Version op), True) else (tombstone_vm 0, True))
     else if Expiry base = tombstoneExpiry then
       (if fenceAdmits base (CasExpectedVersion op) then (tombstone_vm (Version op), True) else st)
     else (if EffectiveRowVersion (Some base) = CasExpectedVersion op
           then (tombstone_vm (Version op), True) else st))"

definition purge_op :: "ValueMessage \<times> bool \<Rightarrow> ValueMessage \<Rightarrow> ValueMessage \<times> bool" where
  "purge_op st op = (case st of (base, hadBase) \<Rightarrow>
     if hadBase \<and> ValueTypeF base = RAW_FILE \<and> RawFilePath base = RawFilePath op
     then (tombstone_vm 0, True) else st)"

definition migrate_op :: "ValueMessage \<times> bool \<Rightarrow> ValueMessage \<Rightarrow> ValueMessage \<times> bool" where
  "migrate_op st op = (case st of (base, hadBase) \<Rightarrow>
     if \<not> hadBase \<or> ValueTypeF op \<noteq> SEGMENT \<or> RawFilePath op = [] then st
     else (let rawMatch = (ValueTypeF base = RAW_FILE \<and> RawFilePath base = RawFilePath op);
               segMatch = (ValueTypeF base = SEGMENT \<and> SegmentPath base = RawFilePath op)
           in if \<not> rawMatch \<and> \<not> segMatch then st
              else (vm0\<lparr>ValueTypeF := ValueTypeF op, Data := Data op, Expiry := Expiry op,
                      SegmentPath := SegmentPath op, SegmentOffset := SegmentOffset op,
                      ValueLength := ValueLength op, Checksum := Checksum op,
                      Version := Version base\<rparr>, True)))"

definition apply_op :: "ValueMessage \<times> bool \<Rightarrow> ValueMessage \<Rightarrow> ValueMessage \<times> bool" where
  "apply_op st op = (case OpType op of
       META_OP_CAS_PUT \<Rightarrow> cas_put_op st op
     | META_OP_CAS_DELETE \<Rightarrow> cas_delete_op st op
     | META_OP_NONE \<Rightarrow>
         if ValueTypeF op = RAW_FILE \<and> RawFilePath op \<noteq> [] then purge_op st op
         else migrate_op st op)"

definition merge_operand :: "'a proto_api_scheme \<Rightarrow> ValueMessage \<times> bool \<Rightarrow> bytes \<Rightarrow> ValueMessage \<times> bool" where
  "merge_operand P st operandBytes =
    (case unmarshal P operandBytes of None \<Rightarrow> st | Some op \<Rightarrow> apply_op st op)"

definition finish_merge :: "'a proto_api_scheme \<Rightarrow> ValueMessage \<times> bool \<Rightarrow> bytes \<times> bool" where
  "finish_merge P st = (case st of (base, hadBase) \<Rightarrow>
     if \<not> hadBase then (expiredSentinel, True)
     else (case marshal P base of None \<Rightarrow> ([], False) | Some r \<Rightarrow> (r, True)))"

definition mergeMetadataCAS :: "'a proto_api_scheme \<Rightarrow> bytes \<Rightarrow> bytes list \<Rightarrow> bytes \<times> bool" where
  "mergeMetadataCAS P existingValue operands =
    (if existingValue \<noteq> []
     then (case unmarshal P existingValue of
             None \<Rightarrow> (existingValue, True)
           | Some base \<Rightarrow> finish_merge P (foldl (merge_operand P) (base, True) operands))
     else finish_merge P (foldl (merge_operand P) (vm0, False) operands))"

section \<open>The delete index\<close>

definition MakeDeleteIndexOperand :: "int \<Rightarrow> int \<Rightarrow> bytes" where
  "MakeDeleteIndexOperand deletedEntries deletedBytes =
     put_le64 (uint64_of_int64 deletedEntries) @ put_le64 (uint64_of_int64 deletedBytes)"

definition add_increment :: "DeleteIndexEntry \<Rightarrow> bytes \<Rightarrow> DeleteIndexEntry" where
  "add_increment entry operand =
    (if length operand = 16 then
       (let entryIncr = int64_of_uint64 (get_le64 (take 8 operand));
            byteIncr = int64_of_uint64 (get_le64 (take 8 (drop 8 operand)))
        in \<lparr>DeletedEntries = wrap_int64 (DeletedEntries entry + entryIncr),
            DeletedBytes = wrap_int64 (DeletedBytes entry + byteIncr)\<rparr>)
     else entry)"

definition mergeDeleteIndex :: "'a proto_api_scheme \<Rightarrow> bytes \<Rightarrow> bytes list \<Rightarrow> bytes \<times> bool" where
  "mergeDeleteIndex P existingValue operands =
    (let entry = (if existingValue \<noteq> []
                  then (case unmarshal_di P existingValue of None \<Rightarrow> di0 | Some e \<Rightarrow> e) else di0)
     in case marshal_di P (foldl add_increment entry operands) of
          None \<Rightarrow> ([], False) | Some result \<Rightarrow> (result, True))"

section \<open>The operator\<close>

definition FullMerge :: "'a proto_api_scheme \<Rightarrow> bytes \<Rightarrow> bytes \<Rightarrow> bytes list \<Rightarrow> bytes \<times> bool" where
  "FullMerge P key existingValue operands =
    (if IsDeleteIndexKey key then mergeDeleteIndex P existingValue operands
     else if IsMetadataKey key then mergeMetadataCAS P existingValue operands
     else if operands \<noteq> [] then (last operands, True) else (existingValue, True))"

definition MakeRawFilePurgeOperand :: "'a proto_api_scheme \<Rightarrow> string \<Rightarrow> bytes option" where
  "MakeRawFilePurgeOperand P rawFilePath =
     marshal P (vm0\<lparr>ValueTypeF := RAW_FILE, RawFilePath := rawFilePath\<rparr>)"

section \<open>Lemmas on one operand\<close>

lemmas op_defs = apply_op_def cas_put_op_def cas_delete_op_def purge_op_def migrate_op_def

declare tombstoneExpiry_def [simp]

lemma not_vm0I:
  "Version v \<noteq> 0 \<Longrightarrow> v \<noteq> vm0" "ValueTypeF v \<noteq> INLINE \<Longrightarrow> v \<noteq> vm0" "Expiry v \<noteq> 0 \<Longrightarrow> v \<noteq> vm0"
  by auto

lemma tombstone_vm_simps [simp]:
  "Expiry (tombstone_vm f) = 1" "Version (tombstone_vm f) = f" "RawFilePath (tombstone_vm f) = []"
  "SegmentPath (tombstone_vm f) = []" "ValueTypeF (tombstone_vm f) = INLINE"
  "SegmentOffset (tombstone_vm f) = 0" "ValueLength (tombstone_vm f) = 0"
  "OpType (tombstone_vm f) = META_OP_NONE" "Data (tombstone_vm f) = []"
  "vm_wf (tombstone_vm f)" "tombstone_vm f \<noteq> vm0"
  by (simp_all add: tombstone_vm_def vm_wf_def tombstoneExpiry_def in_int64_def not_vm0I(3))

lemma sentinel_nonempty: "expiredSentinel \<noteq> []"
  by (simp add: expiredSentinel_def)

lemma tombstone_0: "vm0\<lparr>Expiry := 1\<rparr> = tombstone_vm 0"
  by (simp add: tombstone_vm_def vm0_def)

lemma apply_op_wf:
  "vm_wf (fst st) \<Longrightarrow> vm_wf op \<Longrightarrow> vm_wf (fst (apply_op st op))"
  by (cases st; cases "OpType op") (simp_all add: op_defs vm_wf_def Let_def)

lemma apply_op_hadBase: "snd st \<Longrightarrow> snd (apply_op st op)"
  by (cases st; cases "OpType op") (simp_all add: op_defs Let_def)

lemma apply_cas_hadBase: "OpType op \<noteq> META_OP_NONE \<Longrightarrow> snd (apply_op st op)"
  by (cases st; cases "OpType op") (simp_all add: op_defs Let_def)

lemma apply_op_version:
  "Version (fst (apply_op st op)) \<in> {Version (fst st), Version op, 0}"
  by (cases st; cases "OpType op") (simp_all add: op_defs Let_def)

lemma apply_op_not_vm0:
  assumes "fst st \<noteq> vm0" "OpType op \<noteq> META_OP_NONE \<Longrightarrow> Version op \<noteq> 0"
  shows "fst (apply_op st op) \<noteq> vm0"
proof (cases st)
  case (Pair base hadBase)
  show ?thesis
  proof (cases "OpType op = META_OP_NONE")
    case True
    then show ?thesis
      using assms(1) Pair by (simp add: op_defs Let_def not_vm0I(2))
  next
    case False
    then have "op\<lparr>OpType := META_OP_NONE, CasExpectedVersion := 0\<rparr> \<noteq> vm0"
      using assms(2) by (intro not_vm0I(1)) simp
    then show ?thesis
      using False assms(1) Pair by (cases "OpType op") (simp_all add: op_defs Let_def)
  qed
qed

text \<open>The decoded operands of a merge, malformed ones skipped.\<close>

definition decode_ops :: "'a proto_api_scheme \<Rightarrow> bytes list \<Rightarrow> ValueMessage list" where
  "decode_ops P bs = List.map_filter (unmarshal P) bs"

lemma decode_ops_append [simp]: "decode_ops P (xs @ ys) = decode_ops P xs @ decode_ops P ys"
  by (simp add: decode_ops_def map_filter_def)

lemma foldl_merge_operand: "foldl (merge_operand P) st bs = foldl apply_op st (decode_ops P bs)"
  by (induction bs arbitrary: st)
    (auto simp: decode_ops_def merge_operand_def map_filter_simps split: option.splits)

lemma foldl_ops_wf:
  "vm_wf (fst st) \<Longrightarrow> \<forall>op \<in> set ops. vm_wf op \<Longrightarrow> vm_wf (fst (foldl apply_op st ops))"
  by (rule foldl_invariant [where I = "\<lambda>st. vm_wf (fst st)"]) (simp_all add: apply_op_wf)

lemma foldl_ops_hadBase: "snd st \<Longrightarrow> snd (foldl apply_op st ops)"
  by (rule foldl_invariant [where I = snd]) (simp_all add: apply_op_hadBase)

lemma foldl_cas_hadBase:
  assumes "op \<in> set ops" "OpType op \<noteq> META_OP_NONE"
  shows "snd (foldl apply_op st ops)"
proof -
  obtain xs ys where "ops = xs @ op # ys" using assms(1) by (meson split_list)
  then show ?thesis using assms(2) by (simp add: apply_cas_hadBase foldl_ops_hadBase)
qed

lemma apply_op_base_not_vm0:
  assumes "snd st \<longrightarrow> fst st \<noteq> vm0" "OpType op \<noteq> META_OP_NONE \<Longrightarrow> Version op \<noteq> 0"
  shows "snd (apply_op st op) \<longrightarrow> fst (apply_op st op) \<noteq> vm0"
proof (cases "snd st")
  case True
  then show ?thesis using assms apply_op_not_vm0 by blast
next
  case False
  have "OpType op \<noteq> META_OP_NONE \<Longrightarrow> op\<lparr>OpType := META_OP_NONE, CasExpectedVersion := 0\<rparr> \<noteq> vm0"
    using assms(2) by (intro not_vm0I(1)) simp
  then show ?thesis
    using False by (cases st; cases "OpType op") (simp_all add: op_defs Let_def)
qed

lemma foldl_ops_not_vm0:
  assumes "snd st \<longrightarrow> fst st \<noteq> vm0" "\<forall>op \<in> set ops. OpType op \<noteq> META_OP_NONE \<longrightarrow> Version op \<noteq> 0"
  shows "snd (foldl apply_op st ops) \<longrightarrow> fst (foldl apply_op st ops) \<noteq> vm0"
  by (rule foldl_invariant [where I = "\<lambda>st. snd st \<longrightarrow> fst st \<noteq> vm0"])
    (use assms apply_op_base_not_vm0 in \<open>blast+\<close>)

lemma metadata_not_delete_index: "IsMetadataKey k \<Longrightarrow> \<not> IsDeleteIndexKey k"
  unfolding IsMetadataKey_def IsDeleteIndexKey_def
  using prefix_unequal_disjoint [of MetadataPrefix k DeleteIndexPrefix]
  by (auto simp: MetadataPrefix_def DeleteIndexPrefix_def)

lemma FullMerge_metadata: "IsMetadataKey k \<Longrightarrow> FullMerge P k = mergeMetadataCAS P"
  by (auto simp: FullMerge_def fun_eq_iff metadata_not_delete_index)

lemma add_increment_wf: "di_wf e \<Longrightarrow> di_wf (add_increment e b)"
  by (simp add: add_increment_def di_wf_def Let_def)

lemma foldl_increment_wf: "di_wf e \<Longrightarrow> di_wf (foldl add_increment e bs)"
  by (induction bs arbitrary: e) (auto intro: add_increment_wf)

section \<open>The row a merge leaves\<close>

definition load_row :: "'a proto_api_scheme \<Rightarrow> bytes \<Rightarrow> ValueMessage \<times> bool" where
  "load_row P ex = (if ex = [] then (vm0, False) else (the (unmarshal P ex), True))"

context protobuf
begin

lemma decode_ops_wf: "op \<in> set (decode_ops P bs) \<Longrightarrow> vm_wf op"
  using unmarshal_wf by (auto simp: decode_ops_def map_filter_def)

lemma load_row_wf: "unmarshal P ex \<noteq> None \<Longrightarrow> vm_wf (fst (load_row P ex))"
  by (auto simp: load_row_def dest: unmarshal_wf)

lemma finish_merge_ok:
  assumes "vm_wf (fst st)"
  shows "snd (finish_merge P st)"
    and "unmarshal P (fst (finish_merge P st)) = Some (if snd st then fst st else tombstone_vm 0)"
proof -
  obtain b where b: "marshal P (fst st) = Some b" "unmarshal P b = Some (fst st)"
    using assms by (rule marshal_unmarshal_ex)
  then show "snd (finish_merge P st)"
    and "unmarshal P (fst (finish_merge P st)) = Some (if snd st then fst st else tombstone_vm 0)"
    by (cases st; simp add: finish_merge_def unmarshal_sentinel tombstone_vm_def tombstoneExpiry_def
        vm0_def)+
qed

lemma mergeMetadataCAS_eq:
  assumes "unmarshal P ex \<noteq> None"
  shows "mergeMetadataCAS P ex ops = finish_merge P (foldl apply_op (load_row P ex) (decode_ops P ops))"
  using assms by (auto simp: mergeMetadataCAS_def load_row_def foldl_merge_operand)

lemma merge_result:
  fixes ex :: bytes and ops :: "bytes list"
  assumes "unmarshal P ex \<noteq> None"
  defines "st \<equiv> foldl apply_op (load_row P ex) (decode_ops P ops)"
  shows "snd (mergeMetadataCAS P ex ops)"
    and "unmarshal P (fst (mergeMetadataCAS P ex ops)) = Some (if snd st then fst st else tombstone_vm 0)"
proof -
  have "vm_wf (fst st)"
    unfolding st_def by (rule foldl_ops_wf) (simp_all add: load_row_wf assms(1) decode_ops_wf)
  then show "snd (mergeMetadataCAS P ex ops)"
    and "unmarshal P (fst (mergeMetadataCAS P ex ops)) = Some (if snd st then fst st else tombstone_vm 0)"
    unfolding mergeMetadataCAS_eq [OF assms(1)] st_def [symmetric]
    by (simp_all only: finish_merge_ok)
qed

text \<open>A row that merge wrote is read back as the state it was computed from.\<close>

lemma load_merged:
  assumes "vm_wf (fst st)" "snd st" "fst st \<noteq> vm0"
  shows "load_row P (fst (finish_merge P st)) = st"
proof -
  obtain b where b: "marshal P (fst st) = Some b" "unmarshal P b = Some (fst st)"
    using assms(1) by (rule marshal_unmarshal_ex)
  moreover have "b \<noteq> []" using b assms(3) marshal_empty_iff by metis
  ultimately show ?thesis
    using assms(2) by (cases st) (simp add: finish_merge_def load_row_def)
qed

end

section \<open>Fences, versions and winners\<close>

text \<open>A request of the read path to tombstone a dangling raw file.\<close>

definition is_purge :: "ValueMessage \<Rightarrow> bool" where
  "is_purge op \<longleftrightarrow> OpType op = META_OP_NONE \<and> ValueTypeF op = RAW_FILE \<and> RawFilePath op \<noteq> []"

text \<open>The precondition of a CAS operand on the row it meets.\<close>

definition cas_holds :: "ValueMessage \<times> bool \<Rightarrow> ValueMessage \<Rightarrow> bool" where
  "cas_holds st op = (case st of (base, hadBase) \<Rightarrow>
     if \<not> hadBase then OpType op = META_OP_CAS_PUT \<or> CasExpectedVersion op = 0
     else if Expiry base = tombstoneExpiry then fenceAdmits base (CasExpectedVersion op)
     else EffectiveRowVersion (Some base) = CasExpectedVersion op)"

definition is_cas :: "ValueMessage \<Rightarrow> bool" where
  "is_cas op \<longleftrightarrow> OpType op \<noteq> META_OP_NONE"

lemma cas_applied:
  "is_cas op \<Longrightarrow> cas_holds st op \<Longrightarrow> Version (fst (apply_op st op)) = Version op \<and> snd (apply_op st op)"
  by (cases st; cases "OpType op") (auto simp: is_cas_def cas_holds_def op_defs Let_def split: if_splits)

lemma cas_dropped:
  "is_cas op \<Longrightarrow> snd st \<Longrightarrow> \<not> cas_holds st op \<Longrightarrow> apply_op st op = st"
  by (cases st; cases "OpType op") (auto simp: is_cas_def cas_holds_def op_defs Let_def split: if_splits)

lemma cas_refused_version:
  "is_cas op \<Longrightarrow> \<not> cas_holds st op \<Longrightarrow> Version (fst (apply_op st op)) \<in> {Version (fst st), 0}"
  by (cases st; cases "OpType op") (auto simp: is_cas_def cas_holds_def op_defs Let_def split: if_splits)

lemma path_op_version:
  "\<not> is_cas op \<Longrightarrow> Version (fst (apply_op st op)) \<in> {Version (fst st), 0}"
  by (cases st) (auto simp: is_cas_def op_defs Let_def)

lemma migrate_version:
  "\<not> is_cas op \<Longrightarrow> \<not> is_purge op \<Longrightarrow> Version (fst (apply_op st op)) = Version (fst st)"
  by (cases st) (auto simp: is_cas_def is_purge_def op_defs Let_def)

lemma effective_live: "Expiry b \<noteq> 1 \<Longrightarrow> EffectiveRowVersion (Some b) \<noteq> 0"
  by (simp add: EffectiveRowVersion_def VersionLegacy_def)

lemma stale_refused:
  assumes "f \<le> Version (fst st)" "snd st" "0 < CasExpectedVersion op" "CasExpectedVersion op < f"
  shows "\<not> cas_holds st op"
proof -
  have "CasExpectedVersion op < Version (fst st)" using assms(1,4) by (rule less_le_trans [rotated])
  then show ?thesis
    using assms(2,3) by (cases st) (auto simp: cas_holds_def fenceAdmits_def EffectiveRowVersion_def)
qed

lemma fence_kept:
  assumes "f \<le> Version (fst st)" "snd st" "\<not> is_purge op" "is_cas op \<Longrightarrow> f < Version op"
  shows "f \<le> Version (fst (apply_op st op)) \<and> snd (apply_op st op)"
proof (cases "is_cas op \<and> cas_holds st op")
  case True
  then show ?thesis using cas_applied [of op st] assms(4) by (simp add: less_imp_le)
next
  case False
  then consider "is_cas op" "\<not> cas_holds st op" | "\<not> is_cas op" by blast
  then show ?thesis
  proof cases
    case 1
    then show ?thesis using cas_dropped [of op st] assms(1,2) by simp
  next
    case 2
    then show ?thesis using migrate_version [of op st] assms(1-3) apply_op_hadBase [of st op] by simp
  qed
qed



text \<open>C18: of several writers that all read the same live version, exactly the first
  to reach the row wins.  Every operand expects the version the row has and carries
  a later stamp; the row after all of them is the row after the first.\<close>

theorem one_winner:
  assumes "Expiry b \<noteq> tombstoneExpiry" "v = EffectiveRowVersion (Some b)"
    and "\<forall>op \<in> set (op1 # ops). is_cas op \<and> CasExpectedVersion op = v \<and> v < Version op"
  shows "foldl apply_op (b, True) (op1 # ops) = apply_op (b, True) op1
       \<and> Version (fst (apply_op (b, True) op1)) = Version op1"
proof -
  let ?st = "apply_op (b, True) op1"
  have v: "0 < v" using assms(1,2) effective_live by (simp add: word_neq_0_conv)
  have holds: "cas_holds (b, True) op1" using assms by (simp add: cas_holds_def)
  then have st: "Version (fst ?st) = Version op1" "snd ?st"
    using cas_applied assms(3) by auto
  have refused: "apply_op ?st op = ?st" if "op \<in> set ops" for op
    using that assms(3) st v by (intro cas_dropped stale_refused [where f = "Version op1"]) auto
  then have "foldl apply_op ?st ops = ?st"
    by (induction ops) auto
  with st show ?thesis by simp
qed

theorem one_winner_witness:
  "let b = vm0\<lparr>Data := ''x'', Version := 7\<rparr>;
       p = vm0\<lparr>OpType := META_OP_CAS_PUT, CasExpectedVersion := 7, Version := 8, Data := ''p''\<rparr>;
       d = vm0\<lparr>OpType := META_OP_CAS_DELETE, CasExpectedVersion := 7, Version := 9\<rparr>
   in apply_op (apply_op (b, True) p) d = apply_op (b, True) p"
  using one_winner [where b = "vm0\<lparr>Data := ''x'', Version := 7\<rparr>" and v = 7
      and ?op1.0 = "vm0\<lparr>OpType := META_OP_CAS_PUT, CasExpectedVersion := 7, Version := 8, Data := ''p''\<rparr>"
      and ops = "[vm0\<lparr>OpType := META_OP_CAS_DELETE, CasExpectedVersion := 7, Version := 9\<rparr>]"]
  by (simp add: is_cas_def EffectiveRowVersion_def)

lemma foldl_version_other:
  assumes "Version (fst st) \<noteq> s" "s \<noteq> 0" "\<forall>op \<in> set ops. is_cas op \<longrightarrow> Version op \<noteq> s"
  shows "Version (fst (foldl apply_op st ops)) \<noteq> s"
proof (rule foldl_invariant [where I = "\<lambda>st. Version (fst st) \<noteq> s"])
  fix st :: "ValueMessage \<times> bool" and op
  assume "op \<in> set ops" "Version (fst st) \<noteq> s"
  then show "Version (fst (apply_op st op)) \<noteq> s"
    using assms(2,3) apply_op_version [of st op] path_op_version [of op st] by auto
qed (rule assms(1))

text \<open>C19: a writer that reads its own stamp back did win.  Whatever the row was and
  whichever operands ran before and after, if the row carries the writer's unique
  stamp then the writer's precondition held on the row its operand met.\<close>

theorem read_back_proves_win:
  assumes "is_cas mine" "Version mine \<noteq> 0" "Version (fst st) \<noteq> Version mine"
    and "\<forall>op \<in> set (pre @ post). is_cas op \<longrightarrow> Version op \<noteq> Version mine"
    and "Version (fst (foldl apply_op st (pre @ mine # post))) = Version mine"
  shows "cas_holds (foldl apply_op st pre) mine"
proof (rule ccontr)
  let ?st = "foldl apply_op st pre"
  assume "\<not> cas_holds ?st mine"
  moreover have "Version (fst ?st) \<noteq> Version mine"
    using assms(2-4) by (intro foldl_version_other) auto
  ultimately have "Version (fst (apply_op ?st mine)) \<noteq> Version mine"
    using cas_refused_version [OF assms(1)] assms(2) by fastforce
  then have "Version (fst (foldl apply_op (apply_op ?st mine) post)) \<noteq> Version mine"
    using assms(2,4) by (intro foldl_version_other) auto
  with assms(5) show False by simp
qed

theorem read_back_proves_win_witness:
  "let other = vm0\<lparr>OpType := META_OP_CAS_PUT, CasExpectedVersion := 9, Version := 20\<rparr>;
       mine = vm0\<lparr>OpType := META_OP_CAS_PUT, CasExpectedVersion := 5, Version := 30, Data := ''m''\<rparr>
   in cas_holds (foldl apply_op (vm0\<lparr>Version := 5\<rparr>, True) [other]) mine"
  using read_back_proves_win [where st = "(vm0\<lparr>Version := 5\<rparr>, True)" and post = "[]"
      and pre = "[vm0\<lparr>OpType := META_OP_CAS_PUT, CasExpectedVersion := 9, Version := 20\<rparr>]"
      and mine = "vm0\<lparr>OpType := META_OP_CAS_PUT, CasExpectedVersion := 5, Version := 30, Data := ''m''\<rparr>"]
  by (simp add: is_cas_def op_defs EffectiveRowVersion_def)

section \<open>Resolving the operands in one call or in several\<close>

context protobuf
begin

lemma grouping:
  assumes "unmarshal P ex \<noteq> None" "ex \<noteq> [] \<Longrightarrow> unmarshal P ex \<noteq> Some vm0"
    and "\<forall>op \<in> set (decode_ops P (xs @ ys)). is_cas op \<longrightarrow> Version op \<noteq> 0"
    and "ex \<noteq> [] \<or> (\<exists>op \<in> set (decode_ops P xs). is_cas op)"
  shows "mergeMetadataCAS P (fst (mergeMetadataCAS P ex xs)) ys = mergeMetadataCAS P ex (xs @ ys)"
proof -
  define st where "st = foldl apply_op (load_row P ex) (decode_ops P xs)"
  have wf: "vm_wf (fst st)"
    unfolding st_def by (rule foldl_ops_wf) (simp_all add: load_row_wf assms(1) decode_ops_wf)
  have "snd st"
    unfolding st_def using assms(4) foldl_cas_hadBase
    by (auto simp: load_row_def is_cas_def intro: foldl_ops_hadBase)
  moreover have "snd st \<longrightarrow> fst st \<noteq> vm0"
    unfolding st_def using assms(1-3)
    by (intro foldl_ops_not_vm0) (auto simp: load_row_def is_cas_def)
  ultimately have base: "snd st \<and> fst st \<noteq> vm0" by blast
  have "unmarshal P (fst (mergeMetadataCAS P ex xs)) \<noteq> None"
    using merge_result(2) [OF assms(1)] by simp
  moreover have "load_row P (fst (mergeMetadataCAS P ex xs)) = st"
    using load_merged [OF wf] base by (simp add: mergeMetadataCAS_eq [OF assms(1)] st_def)
  ultimately show ?thesis
    by (simp add: mergeMetadataCAS_eq assms(1) st_def)
qed

end

text \<open>C15: it does not matter whether RocksDB resolves the operands of a key in one
  call, when the key is read, or in several, as compactions fold older operands
  into the row: for a row that exists, or a group whose first part holds a
  compare-and-swap, both ways give the same bytes.\<close>

theorem FullMerge_grouping:
  assumes "protobuf P" "IsMetadataKey k"
    and "unmarshal P ex \<noteq> None" "ex \<noteq> [] \<longrightarrow> unmarshal P ex \<noteq> Some vm0"
    and "\<forall>op \<in> set (decode_ops P (xs @ ys)). is_cas op \<longrightarrow> Version op \<noteq> 0"
    and "ex \<noteq> [] \<or> (\<exists>op \<in> set (decode_ops P xs). is_cas op)"
  shows "FullMerge P k (fst (FullMerge P k ex xs)) ys = FullMerge P k ex (xs @ ys)"
  using protobuf.grouping [OF assms(1) assms(3) _ assms(5,6)] assms(4)
  by (simp add: FullMerge_metadata [OF assms(2)])

definition wire_row :: "ValueMessage \<Rightarrow> bytes" where
  "wire_row v = concat (map enc_field (vm_fields v))"

lemma wire_row: "vm_wf v \<Longrightarrow> marshal wire_proto v = Some (wire_row v)"
  by (simp add: wire_proto_def wire_row_def)

lemma unmarshal_wire_row: "vm_wf v \<Longrightarrow> unmarshal wire_proto (wire_row v) = Some v"
  using wire.unmarshal_marshal wire_row by blast

lemma wire_row_nonempty: "vm_wf v \<Longrightarrow> v \<noteq> vm0 \<Longrightarrow> wire_row v \<noteq> []"
  using wire.marshal_empty_iff wire_row by metis

lemma decode_wire_rows: "\<forall>v \<in> set vs. vm_wf v \<Longrightarrow> decode_ops wire_proto (map wire_row vs) = vs"
  by (induction vs) (simp_all add: decode_ops_def map_filter_simps unmarshal_wire_row)

abbreviation cas_put :: "version \<Rightarrow> version \<Rightarrow> bytes \<Rightarrow> ValueMessage" where
  "cas_put expected stamp body \<equiv> vm0\<lparr>OpType := META_OP_CAS_PUT, CasExpectedVersion := expected,
     Version := stamp, Data := body, ValueLength := int (length body)\<rparr>"

abbreviation cas_del :: "version \<Rightarrow> version \<Rightarrow> ValueMessage" where
  "cas_del expected stamp \<equiv> vm0\<lparr>OpType := META_OP_CAS_DELETE, CasExpectedVersion := expected,
     Version := stamp\<rparr>"

lemma cas_ops_wf [simp]: "vm_wf (cas_put e s b) \<longleftrightarrow> in_int64 (int (length b))" "vm_wf (cas_del e s)"
  by (simp_all add: vm_wf_def)

theorem FullMerge_grouping_witness:
  "let row = wire_row (vm0\<lparr>Data := ''v'', Version := 3\<rparr>); k = ''!meta/a'';
       a = wire_row (cas_put 3 4 ''w''); b = wire_row (cas_del 4 5)
   in FullMerge wire_proto k (fst (FullMerge wire_proto k row [a])) [b]
      = FullMerge wire_proto k row ([a] @ [b])"
proof -
  have wf: "vm_wf (vm0\<lparr>Data := ''v'', Version := 3\<rparr>)" "vm_wf (cas_put 3 4 ''w'')"
    by (simp_all add: vm_wf_def in_int64_def)
  have ne: "wire_row (vm0\<lparr>Data := ''v'', Version := 3\<rparr>) \<noteq> []"
    by (rule wire_row_nonempty [OF wf(1)]) (rule not_vm0I(1), simp)
  have "decode_ops wire_proto (map wire_row [cas_put 3 4 ''w'', cas_del 4 5])
      = [cas_put 3 4 ''w'', cas_del 4 5]"
    by (rule decode_wire_rows) (simp add: vm_wf_def in_int64_def)
  then show ?thesis
    using FullMerge_grouping [OF wire.protobuf_axioms, of "''!meta/a''"
        "wire_row (vm0\<lparr>Data := ''v'', Version := 3\<rparr>)"
        "[wire_row (cas_put 3 4 ''w'')]" "[wire_row (cas_del 4 5)]"] wf ne
    by (simp add: IsMetadataKey_def MetadataPrefix_def unmarshal_wire_row not_vm0I(1))
qed


abbreviation migration :: "string \<Rightarrow> string \<Rightarrow> ValueMessage" where
  "migration raw seg \<equiv> vm0\<lparr>ValueTypeF := SEGMENT, RawFilePath := raw, SegmentPath := seg\<rparr>"

lemma unmarshal_migration:
  assumes "\<forall>c \<in> set (raw @ seg). (of_char c :: nat) < 128"
  shows "unmarshal wire_proto (wire_row (migration raw seg)) = Some (migration raw seg)"
  using assms by (intro unmarshal_wire_row) (simp add: vm_wf_def utf8_ascii)

lemma unmarshal_cas_del: "unmarshal wire_proto (wire_row (cas_del e s)) = Some (cas_del e s)"
  by (rule unmarshal_wire_row) simp

lemma meta_key_a: "IsMetadataKey ''!meta/a''"
  by (simp add: IsMetadataKey_def MetadataPrefix_def)


text \<open>the operator never reports failure, which RocksDB would treat as corruption
  of the key, and on a metadata key the bytes it returns always decode.\<close>

theorem FullMerge_total:
  assumes "protobuf P"
  shows "snd (FullMerge P k ex ops)
    \<and> (IsMetadataKey k \<and> unmarshal P ex \<noteq> None \<longrightarrow> unmarshal P (fst (FullMerge P k ex ops)) \<noteq> None)"
proof -
  have "snd (mergeMetadataCAS P ex ops)"
  proof (cases "unmarshal P ex")
    case None
    then have "ex \<noteq> []" using protobuf.unmarshal_empty [OF assms] by auto
    with None show ?thesis by (simp add: mergeMetadataCAS_def)
  qed (use protobuf.merge_result(1) [OF assms] in simp)
  moreover have "snd (mergeDeleteIndex P ex ops)"
  proof -
    let ?e = "if ex \<noteq> [] then (case unmarshal_di P ex of None \<Rightarrow> di0 | Some e \<Rightarrow> e) else di0"
    have "di_wf ?e"
      using protobuf.unmarshal_di_wf [OF assms] by (auto simp: di_wf_def di0_def split: option.split)
    then obtain b where "marshal_di P (foldl add_increment ?e ops) = Some b"
      using protobuf.marshal_di_total [OF assms] foldl_increment_wf by blast
    then show ?thesis by (simp add: mergeDeleteIndex_def)
  qed
  ultimately have "snd (FullMerge P k ex ops)" by (simp add: FullMerge_def)
  moreover have "unmarshal P (fst (FullMerge P k ex ops)) \<noteq> None" if "IsMetadataKey k" "unmarshal P ex \<noteq> None"
    using protobuf.merge_result(2) [OF assms that(2)] by (simp add: FullMerge_metadata that(1))
  ultimately show ?thesis by blast
qed

theorem FullMerge_total_witness:
  "snd (FullMerge wire_proto ''!meta/a'' [] [''junk''])
   \<and> unmarshal wire_proto (fst (FullMerge wire_proto ''!meta/a'' [] [''junk''])) \<noteq> None"
  using FullMerge_total [OF wire.protobuf_axioms, of "''!meta/a''" "[]" "[''junk'']"]
  by (simp add: meta_key_a wire.unmarshal_empty)

text \<open>migrating a value between a raw file and segments never changes the version
  a client sees, and no compactor operand brings a deleted key back: after any path
  operands other than purges the row keeps its version, and a tombstone stays as
  it is.\<close>

theorem migration_keeps_version:
  assumes "\<forall>op \<in> set ops. \<not> is_cas op \<and> \<not> is_purge op"
  shows "Version (fst (foldl apply_op (b, True) ops)) = Version b
    \<and> foldl apply_op (tombstone_vm f, True) ops = (tombstone_vm f, True)"
proof
  show "Version (fst (foldl apply_op (b, True) ops)) = Version b"
    by (rule foldl_invariant [where I = "\<lambda>st. Version (fst st) = Version b"])
      (use assms migrate_version in auto)
  show "foldl apply_op (tombstone_vm f, True) ops = (tombstone_vm f, True)"
  proof (rule foldl_invariant [where I = "\<lambda>st. st = (tombstone_vm f, True)"])
    fix st op assume "op \<in> set ops" "st = (tombstone_vm f, True)"
    then show "apply_op st op = (tombstone_vm f, True)"
      using assms by (auto simp: is_cas_def op_defs)
  qed simp
qed

theorem migration_keeps_version_witness:
  "foldl apply_op (tombstone_vm 9, True) [migration ''r'' ''s''] = (tombstone_vm 9, True)"
  using migration_keeps_version [of "[migration ''r'' ''s'']" vm0 9] by (simp add: is_cas_def is_purge_def)



section \<open>Delete-index counters\<close>

lemma add_operand:
  "add_increment e (MakeDeleteIndexOperand n m)
     = \<lparr>DeletedEntries = wrap_int64 (DeletedEntries e + n), DeletedBytes = wrap_int64 (DeletedBytes e + m)\<rparr>"
proof -
  have "wrap_int64 (a + wrap_int64 b) = wrap_int64 (a + b)" for a b
    using wrap_int64_add_left [of b a] by (simp add: add.commute)
  then show ?thesis by (simp add: add_increment_def MakeDeleteIndexOperand_def)
qed

lemma foldl_operands:
  assumes "di_wf e"
  shows "foldl add_increment e (map (\<lambda>(n, m). MakeDeleteIndexOperand n m) ps)
     = \<lparr>DeletedEntries = wrap_int64 (DeletedEntries e + sum_list (map fst ps)),
        DeletedBytes = wrap_int64 (DeletedBytes e + sum_list (map snd ps))\<rparr>"
  using assms
proof (induction ps arbitrary: e)
  case (Cons p ps)
  then show ?case by (cases p) (simp add: add_operand di_wf_def add.assoc)
qed (cases e, simp add: di_wf_def)

text \<open>C34: the delete index counts.  Merging the increments of any deletions into a
  segment's entry adds their numbers and bytes, with the wrap-around of \<^verbatim>\<open>int64\<close>.\<close>

theorem delete_index_counts:
  assumes "protobuf P" "marshal_di P e = Some ex"
  shows "unmarshal_di P (fst (FullMerge P (MakeDeleteIndexKey seg) ex
            (map (\<lambda>(n, m). MakeDeleteIndexOperand n m) ps)))
       = Some \<lparr>DeletedEntries = wrap_int64 (DeletedEntries e + sum_list (map fst ps)),
               DeletedBytes = wrap_int64 (DeletedBytes e + sum_list (map snd ps))\<rparr>"
    (is "_ = Some ?r")
proof -
  have un: "unmarshal_di P ex = Some e" using protobuf.unmarshal_marshal_di [OF assms(1,2)] .
  then have wf: "di_wf e" using protobuf.unmarshal_di_wf [OF assms(1)] by blast
  have load: "(if ex \<noteq> [] then case unmarshal_di P ex of None \<Rightarrow> di0 | Some e \<Rightarrow> e else di0) = e"
    using un protobuf.unmarshal_di_empty [OF assms(1)] by auto
  obtain b where "marshal_di P ?r = Some b" "unmarshal_di P b = Some ?r"
    using protobuf.marshal_di_total [OF assms(1), of ?r] protobuf.unmarshal_marshal_di [OF assms(1)]
    by (auto simp: di_wf_def)
  then show ?thesis
    using foldl_operands [OF wf, of ps] load
    by (simp add: FullMerge_def IsDeleteIndexKey_def MakeDeleteIndexKey_def mergeDeleteIndex_def)
qed

theorem delete_index_counts_witness:
  "unmarshal_di wire_proto (fst (FullMerge wire_proto (MakeDeleteIndexKey ''s1'') []
      [MakeDeleteIndexOperand 1 100, MakeDeleteIndexOperand 1 50]))
   = Some \<lparr>DeletedEntries = 2, DeletedBytes = 150\<rparr>"
  using delete_index_counts [OF wire.protobuf_axioms wire.marshal_di_default, of "''s1''" "[(1, 100), (1, 50)]"]
  by (simp add: di0_def in_int64_def)

end
