(* ===== verification/ValueWire.thy ===== *)
theory ValueWire
  imports Merge
begin

text \<open>
  The field scanners of \<^verbatim>\<open>src/storage/value_wire.go\<close>, which read single fields of an
  encoded row without decoding the payload.  The \<^verbatim>\<open>protowire\<close> functions they call are
  parameters; the locale \<open>protowire\<close> states that they consume what the library's
  encoder appends.  The lemmas show that each scanner agrees with a full decode.
\<close>

section \<open>The scanning loop\<close>

text \<open>The loop runs while bytes remain; every iteration consumes at least one, so the
  length of the buffer is enough fuel.\<close>

fun scan_loop :: "nat \<Rightarrow> ('s \<Rightarrow> bytes \<Rightarrow> ('s \<times> bytes) option) \<Rightarrow> 's \<Rightarrow> bytes \<Rightarrow> 's option" where
  "scan_loop fuel step s buf =
    (if buf = [] then Some s
     else (case fuel of 0 \<Rightarrow> None
           | Suc fuel' \<Rightarrow> (case step s buf of None \<Rightarrow> None
               | Some (s', buf') \<Rightarrow> scan_loop fuel' step s' buf')))"

declare scan_loop.simps [simp del]

abbreviation (input) "valueTypeField \<equiv> 1 :: nat"
abbreviation (input) "valueDataField \<equiv> 2 :: nat"
abbreviation (input) "valueExpiryField \<equiv> 3 :: nat"
abbreviation (input) "valueRawPathField \<equiv> 4 :: nat"
abbreviation (input) "valueSegPathField \<equiv> 5 :: nat"
abbreviation (input) "valueLengthField \<equiv> 7 :: nat"
abbreviation (input) "valueVersionField \<equiv> 9 :: nat"
abbreviation (input) "VarintType \<equiv> 0 :: nat"
abbreviation (input) "BytesType \<equiv> 2 :: nat"

section \<open>Single fields\<close>

definition varintField_step :: "'a proto_api_scheme \<Rightarrow> nat \<Rightarrow> int \<Rightarrow> bytes \<Rightarrow> (int \<times> bytes) option" where
  "varintField_step P want val buf =
    (case ConsumeTag P buf of (num, typ, n) \<Rightarrow>
     if n < 0 \<or> \<not> IsValidNumber P num then None
     else (let buf = drop (nat n) buf in
       if num = want \<and> typ = VarintType then
         (case ConsumeVarint P buf of (v, vn) \<Rightarrow>
            if vn < 0 then None else Some (int64_of_uint64 v, drop (nat vn) buf))
       else if (num = valueRawPathField \<or> num = valueSegPathField) \<and> typ = BytesType then
         (case ConsumeBytes P buf of (v, vn) \<Rightarrow>
            if vn < 0 \<or> \<not> utf8_valid v then None else Some (val, drop (nat vn) buf))
       else (let n = ConsumeFieldValue P num typ buf in
            if n < 0 then None else Some (val, drop (nat n) buf))))"

definition valueMessageVarintField :: "'a proto_api_scheme \<Rightarrow> bytes \<Rightarrow> nat \<Rightarrow> int option" where
  "valueMessageVarintField P buf want = scan_loop (length buf) (varintField_step P want) 0 buf"

definition valueMessageValueLength :: "'a proto_api_scheme \<Rightarrow> bytes \<Rightarrow> int option" where
  "valueMessageValueLength P buf = valueMessageVarintField P buf valueLengthField"

definition valueMessageVersion :: "'a proto_api_scheme \<Rightarrow> bytes \<Rightarrow> version option" where
  "valueMessageVersion P buf = map_option uint64_of_int64 (valueMessageVarintField P buf valueVersionField)"

definition valueMessageExpiry :: "'a proto_api_scheme \<Rightarrow> bytes \<Rightarrow> int option" where
  "valueMessageExpiry P buf = valueMessageVarintField P buf valueExpiryField"

section \<open>Pairs of fields\<close>

definition lengthPath_step :: "'a proto_api_scheme \<Rightarrow> nat \<Rightarrow> string \<times> int \<Rightarrow> bytes \<Rightarrow> ((string \<times> int) \<times> bytes) option" where
  "lengthPath_step P wantPath s buf =
    (case s of (path, len) \<Rightarrow> case ConsumeTag P buf of (num, typ, n) \<Rightarrow>
     if n < 0 \<or> \<not> IsValidNumber P num then None
     else (let buf = drop (nat n) buf in
       if num = valueLengthField \<and> typ = VarintType then
         (case ConsumeVarint P buf of (v, vn) \<Rightarrow>
            if vn < 0 then None else Some ((path, int64_of_uint64 v), drop (nat vn) buf))
       else if (num = valueRawPathField \<or> num = valueSegPathField) \<and> typ = BytesType then
         (case ConsumeBytes P buf of (v, vn) \<Rightarrow>
            if vn < 0 \<or> \<not> utf8_valid v then None
            else Some ((if num = wantPath then v else path, len), drop (nat vn) buf))
       else (let n = ConsumeFieldValue P num typ buf in
            if n < 0 then None else Some (s, drop (nat n) buf))))"

definition valueMessageSegmentRef :: "'a proto_api_scheme \<Rightarrow> bytes \<Rightarrow> (string \<times> int) option" where
  "valueMessageSegmentRef P buf = scan_loop (length buf) (lengthPath_step P valueSegPathField) ([], 0) buf"

definition valueMessageSizeAndRawPath :: "'a proto_api_scheme \<Rightarrow> bytes \<Rightarrow> (int \<times> string) option" where
  "valueMessageSizeAndRawPath P buf =
     map_option prod.swap (scan_loop (length buf) (lengthPath_step P valueRawPathField) ([], 0) buf)"

section \<open>The fields reclamation needs\<close>

record cleanupFields =
  cf_valueType :: ValueType
  cf_valueLength :: int
  cf_rawFilePath :: string
  cf_segmentPath :: string

definition cf0 :: cleanupFields where
  "cf0 = \<lparr>cf_valueType = INLINE, cf_valueLength = 0, cf_rawFilePath = [], cf_segmentPath = []\<rparr>"

definition cleanup_step :: "'a proto_api_scheme \<Rightarrow> cleanupFields \<Rightarrow> bytes \<Rightarrow> (cleanupFields \<times> bytes) option" where
  "cleanup_step P cf buf =
    (case ConsumeTag P buf of (num, typ, n) \<Rightarrow>
     if n < 0 \<or> \<not> IsValidNumber P num then None
     else (let buf = drop (nat n) buf in
       if num = valueTypeField \<and> typ = VarintType then
         (case ConsumeVarint P buf of (v, vn) \<Rightarrow>
            if vn < 0 then None else Some (cf\<lparr>cf_valueType := num_type (unat v)\<rparr>, drop (nat vn) buf))
       else if num = valueLengthField \<and> typ = VarintType then
         (case ConsumeVarint P buf of (v, vn) \<Rightarrow>
            if vn < 0 then None else Some (cf\<lparr>cf_valueLength := int64_of_uint64 v\<rparr>, drop (nat vn) buf))
       else if num = valueRawPathField \<and> typ = BytesType then
         (case ConsumeBytes P buf of (v, vn) \<Rightarrow>
            if vn < 0 \<or> \<not> utf8_valid v then None else Some (cf\<lparr>cf_rawFilePath := v\<rparr>, drop (nat vn) buf))
       else if num = valueSegPathField \<and> typ = BytesType then
         (case ConsumeBytes P buf of (v, vn) \<Rightarrow>
            if vn < 0 \<or> \<not> utf8_valid v then None else Some (cf\<lparr>cf_segmentPath := v\<rparr>, drop (nat vn) buf))
       else (let n = ConsumeFieldValue P num typ buf in
            if n < 0 then None else Some (cf, drop (nat n) buf))))"

definition decodeValueMessageCleanupFields :: "'a proto_api_scheme \<Rightarrow> bytes \<Rightarrow> cleanupFields option" where
  "decodeValueMessageCleanupFields P buf = scan_loop (length buf) (cleanup_step P) cf0 buf"

definition skipData_step :: "'a proto_api_scheme \<Rightarrow> bytes \<Rightarrow> bytes \<Rightarrow> (bytes \<times> bytes) option" where
  "skipData_step P stripped buf =
    (case ConsumeTag P buf of (num, typ, tn) \<Rightarrow>
     if tn < 0 \<or> \<not> IsValidNumber P num then None
     else (let vn = ConsumeFieldValue P num typ (drop (nat tn) buf) in
       if vn < 0 then None
       else Some (if num \<noteq> valueDataField then stripped @ take (nat (tn + vn)) buf else stripped,
                  drop (nat (tn + vn)) buf)))"

definition unmarshalValueMessageSkippingData :: "'a proto_api_scheme \<Rightarrow> bytes \<Rightarrow> ValueMessage option" where
  "unmarshalValueMessageSkippingData P buf =
    (case scan_loop (length buf) (skipData_step P) [] buf of
       None \<Rightarrow> None | Some stripped \<Rightarrow> unmarshal P stripped)"

section \<open>What the scanner promises\<close>

definition append_field :: "(nat \<Rightarrow> nat \<Rightarrow> bytes) \<Rightarrow> (nat \<Rightarrow> bytes) \<Rightarrow> (bytes \<Rightarrow> bytes) \<Rightarrow> field \<Rightarrow> bytes" where
  "append_field tag var byt f = (case f of
     FVarint num v \<Rightarrow> tag num VarintType @ var v | FBytes num s \<Rightarrow> tag num BytesType @ byt s)"

primrec field_num :: "field \<Rightarrow> nat" where
  "field_num (FVarint num v) = num" | "field_num (FBytes num s) = num"

text \<open>The parameters \<open>tag\<close>, \<open>var\<close> and \<open>byt\<close> are the library's \<^verbatim>\<open>AppendTag\<close>, \<^verbatim>\<open>AppendVarint\<close>
  and \<^verbatim>\<open>AppendBytes\<close>.  A message is encoded as its set fields in some order, and a
  decode folds the fields it meets into a message.\<close>

locale protowire = protobuf +
  fixes tag :: "nat \<Rightarrow> nat \<Rightarrow> bytes" and var :: "nat \<Rightarrow> bytes" and byt :: "bytes \<Rightarrow> bytes"
  assumes tag_nonempty: "tag num typ \<noteq> []"
    and consume_tag: "1 \<le> num \<Longrightarrow> num < 16 \<Longrightarrow> typ < 8 \<Longrightarrow>
      ConsumeTag P (tag num typ @ r) = (num, typ, int (length (tag num typ)))"
    and valid_number: "1 \<le> num \<Longrightarrow> num < 16 \<Longrightarrow> IsValidNumber P num"
    and consume_varint: "v < 2 ^ 64 \<Longrightarrow> ConsumeVarint P (var v @ r) = (of_nat v, int (length (var v)))"
    and consume_bytes: "ConsumeBytes P (byt s @ r) = (s, int (length (byt s)))"
    and skip_varint: "v < 2 ^ 64 \<Longrightarrow> ConsumeFieldValue P num VarintType (var v @ r) = int (length (var v))"
    and skip_bytes: "ConsumeFieldValue P num BytesType (byt s @ r) = int (length (byt s))"
    and marshal_fields: "marshal P vm = Some b \<Longrightarrow>
      \<exists>fs. mset fs = mset (vm_fields vm) \<and> b = concat (map (append_field tag var byt) fs)"
    and unmarshal_fields: "\<forall>f \<in> set fs. field_ok f \<Longrightarrow> vm_wf (foldl set_field vm0 fs) \<Longrightarrow>
      unmarshal P (concat (map (append_field tag var byt) fs)) = Some (foldl set_field vm0 fs)"

section \<open>Agreement with a full decode\<close>

lemma scan_loop_fields:
  assumes "\<And>f r s. f \<in> set fs \<Longrightarrow> step s (enc f @ r) = Some (upd s f, r)"
    and "\<And>f. enc f \<noteq> []" "length (concat (map enc fs)) \<le> fuel"
  shows "scan_loop fuel step s (concat (map enc fs)) = Some (foldl upd s fs)"
  using assms(1,3)
proof (induction fs arbitrary: s fuel)
  case Nil
  then show ?case by (simp add: scan_loop.simps)
next
  case (Cons f fs)
  obtain c cs where cs: "enc f = c # cs" using assms(2) [of f] by (cases "enc f") auto
  then obtain fuel' where fuel': "fuel = Suc fuel'" using Cons.prems(2) by (cases fuel) auto
  have "step s (enc f @ concat (map enc fs)) = Some (upd s f, concat (map enc fs))"
    using Cons.prems(1) by simp
  moreover have "length (concat (map enc fs)) \<le> fuel'" using Cons.prems(2) cs fuel' by simp
  ultimately show ?case
    using Cons.IH [of fuel' "upd s f"] Cons.prems(1) cs fuel'
    by (simp add: scan_loop.simps [of "Suc fuel'"])
qed

definition pick_num :: "nat \<Rightarrow> field list \<Rightarrow> field list" where
  "pick_num num fs = filter (\<lambda>f. field_num f = num) fs"

lemma foldl_pick:
  assumes "\<And>s f. field_num f \<noteq> num \<Longrightarrow> upd s f = s"
  shows "foldl upd s fs = foldl upd s (pick_num num fs)"
  using assms by (induction fs arbitrary: s) (auto simp: pick_num_def)

lemma pick_num_append [simp]: "pick_num num (xs @ ys) = pick_num num xs @ pick_num num ys"
  by (simp add: pick_num_def)

lemma pick_opt [simp]:
  "pick_num n (opt_varint m v) = (if n = m then opt_varint m v else [])"
  "pick_num n (opt_bytes m s) = (if n = m then opt_bytes m s else [])"
  by (simp_all add: pick_num_def opt_varint_def opt_bytes_def)

lemma pick_mset:
  assumes "mset fs = mset gs" "length (pick_num num gs) \<le> 1"
  shows "pick_num num fs = pick_num num gs"
proof -
  have "mset (pick_num num fs) = mset (pick_num num gs)"
    using assms(1) by (simp add: pick_num_def)
  moreover have "pick_num num gs = [] \<or> (\<exists>f. pick_num num gs = [f])"
    using assms(2) by (cases "pick_num num gs") auto
  ultimately show ?thesis by (auto simp: mset_single_iff)
qed

lemma length_opt [simp]: "length (opt_varint m v) \<le> Suc 0" "length (opt_bytes m s) \<le> Suc 0"
  by (simp_all add: opt_varint_def opt_bytes_def)

lemma pick_vm_fields:
  assumes "mset fs = mset (vm_fields v)"
  shows "pick_num 1 fs = opt_varint 1 (type_num (ValueTypeF v))" "pick_num 3 fs = opt_varint 3 (u64 (Expiry v))"
    "pick_num 4 fs = opt_bytes 4 (RawFilePath v)" "pick_num 5 fs = opt_bytes 5 (SegmentPath v)"
    "pick_num 7 fs = opt_varint 7 (u64 (ValueLength v))" "pick_num 9 fs = opt_varint 9 (unat (Version v))"
  by (subst pick_mset [OF assms]; simp add: vm_fields_def)+

text \<open>What an encoded message holds: valid numbers, values that fit, valid paths.\<close>

definition scan_ok :: "field \<Rightarrow> bool" where
  "scan_ok f \<longleftrightarrow> field_ok f \<and> 1 \<le> field_num f \<and> field_num f < 16
     \<and> (\<forall>num s. f = FBytes num s \<longrightarrow> num \<in> {4, 5} \<longrightarrow> utf8_valid s)
     \<and> (\<forall>num s. f = FBytes num s \<longrightarrow> num \<in> {2, 4, 5}) \<and> (\<forall>num n. f = FVarint num n \<longrightarrow> num \<notin> {2, 4, 5})"

lemma opt_members:
  "f \<in> set (opt_varint m v) \<longleftrightarrow> v \<noteq> 0 \<and> f = FVarint m v" "f \<in> set (opt_bytes m s) \<longleftrightarrow> s \<noteq> [] \<and> f = FBytes m s"
  by (auto simp: opt_varint_def opt_bytes_def)

lemma vm_fields_scan_ok: "vm_wf v \<Longrightarrow> f \<in> set (vm_fields v) \<Longrightarrow> scan_ok f"
  using vm_fields_ok [of v]
  by (auto simp: scan_ok_def vm_fields_def opt_members vm_wf_def del: One_nat_def)

definition upd_varint :: "nat \<Rightarrow> int \<Rightarrow> field \<Rightarrow> int" where
  "upd_varint want s f = (case f of FVarint num n \<Rightarrow> if num = want then i64 n else s | FBytes _ _ \<Rightarrow> s)"

definition upd_bytes :: "string \<Rightarrow> field \<Rightarrow> string" where
  "upd_bytes s f = (case f of FVarint _ _ \<Rightarrow> s | FBytes _ x \<Rightarrow> x)"

definition upd_type :: "ValueType \<Rightarrow> field \<Rightarrow> ValueType" where
  "upd_type t f = (case f of FVarint _ n \<Rightarrow> num_type n | FBytes _ _ \<Rightarrow> t)"

definition upd_path :: "nat \<Rightarrow> string \<times> int \<Rightarrow> field \<Rightarrow> string \<times> int" where
  "upd_path want s f = (if field_num f = want then upd_bytes (fst s) f else fst s, upd_varint 7 (snd s) f)"

definition upd_cleanup :: "cleanupFields \<Rightarrow> field \<Rightarrow> cleanupFields" where
  "upd_cleanup s f = \<lparr>cf_valueType = (if field_num f = 1 then upd_type (cf_valueType s) f else cf_valueType s),
     cf_valueLength = upd_varint 7 (cf_valueLength s) f,
     cf_rawFilePath = (if field_num f = 4 then upd_bytes (cf_rawFilePath s) f else cf_rawFilePath s),
     cf_segmentPath = (if field_num f = 5 then upd_bytes (cf_segmentPath s) f else cf_segmentPath s)\<rparr>"

definition cleanup_of :: "ValueMessage \<Rightarrow> cleanupFields" where
  "cleanup_of v = \<lparr>cf_valueType = ValueTypeF v, cf_valueLength = ValueLength v,
     cf_rawFilePath = RawFilePath v, cf_segmentPath = SegmentPath v\<rparr>"

lemma int64_of_nat: "n < 2 ^ 64 \<Longrightarrow> int64_of_uint64 (of_nat n) = i64 n"
  by (simp add: int64_of_uint64_def i64_def unsigned_of_nat uint_nat take_bit_nat_eq_self)

lemma unat_of_nat_less: "n < 2 ^ 64 \<Longrightarrow> unat (of_nat n :: 64 word) = n"
  by (simp add: unsigned_of_nat take_bit_nat_eq_self)

lemma uint64_of_0: "uint64_of_int64 0 = 0"
  by (simp add: uint64_of_int64_def)

lemma uint64_of_i64: "uint64_of_int64 (i64 (unat w)) = w"
proof -
  have "(wrap_int64 n) mod 2 ^ 64 = n mod 2 ^ 64" for n
    unfolding wrap_int64_def mod_diff_left_eq by simp
  then have "(word_of_int (wrap_int64 n) :: 64 word) = word_of_int n" for n
    by (simp add: word_of_int_eq_iff take_bit_eq_mod)
  then show ?thesis by (simp add: uint64_of_int64_def i64_def)
qed

lemma upd_varint_opt: "in_int64 n \<Longrightarrow> foldl (upd_varint want) 0 (opt_varint want (u64 n)) = n"
  by (simp add: upd_varint_def opt_varint_def u64_eq_0)

lemma upd_bytes_opt: "foldl upd_bytes [] (opt_bytes m s) = s"
  by (simp add: upd_bytes_def opt_bytes_def)

lemma upd_type_opt: "type_wf t \<Longrightarrow> foldl upd_type INLINE (opt_varint m (type_num t)) = t"
  by (simp add: upd_type_def opt_varint_def type_num_0)

lemma foldl_upd_path:
  "foldl (upd_path want) s fs = (foldl upd_bytes (fst s) (pick_num want fs), foldl (upd_varint 7) (snd s) (pick_num 7 fs))"
  by (induction fs arbitrary: s) (auto simp: upd_path_def pick_num_def upd_varint_def split: field.splits)

lemma foldl_upd_cleanup:
  "cf_valueType (foldl upd_cleanup s fs) = foldl upd_type (cf_valueType s) (pick_num 1 fs)"
  "cf_valueLength (foldl upd_cleanup s fs) = foldl (upd_varint 7) (cf_valueLength s) (pick_num 7 fs)"
  "cf_rawFilePath (foldl upd_cleanup s fs) = foldl upd_bytes (cf_rawFilePath s) (pick_num 4 fs)"
  "cf_segmentPath (foldl upd_cleanup s fs) = foldl upd_bytes (cf_segmentPath s) (pick_num 5 fs)"
  by (induction fs arbitrary: s; auto simp: upd_cleanup_def pick_num_def upd_varint_def split: field.splits)+

text \<open>Each component of a message is decided by the fields with one number.\<close>

definition local_to :: "nat \<Rightarrow> (ValueMessage \<Rightarrow> 'b) \<Rightarrow> bool" where
  "local_to n sel \<longleftrightarrow> (\<forall>s f. field_num f \<noteq> n \<longrightarrow> sel (set_field s f) = sel s)
     \<and> (\<forall>s t f. sel s = sel t \<longrightarrow> sel (set_field s f) = sel (set_field t f))"

lemma selectors_local:
  "local_to 1 ValueTypeF" "local_to 2 Data" "local_to 3 Expiry" "local_to 4 RawFilePath"
  "local_to 5 SegmentPath" "local_to 6 SegmentOffset" "local_to 7 ValueLength" "local_to 8 Checksum"
  "local_to 9 Version" "local_to 10 OpType" "local_to 11 CasExpectedVersion"
  by (simp add: local_to_def set_field_def split: field.splits)+

lemma foldl_local_cong:
  assumes "local_to n sel" "sel s = sel t"
  shows "sel (foldl set_field s fs) = sel (foldl set_field t fs)"
  using assms(2)
proof (induction fs arbitrary: s t)
  case (Cons f fs)
  have "sel (set_field s f) = sel (set_field t f)"
    using assms(1) Cons.prems unfolding local_to_def by blast
  then show ?case unfolding foldl.simps by (rule Cons.IH)
qed simp

lemma foldl_local:
  assumes "local_to n sel"
  shows "sel (foldl set_field s fs) = sel (foldl set_field s (pick_num n fs))"
proof (induction fs arbitrary: s)
  case (Cons f fs)
  show ?case
  proof (cases "field_num f = n")
    case False
    then have "sel (set_field s f) = sel s" using assms unfolding local_to_def by blast
    then have "sel (foldl set_field (set_field s f) fs) = sel (foldl set_field s fs)"
      by (rule foldl_local_cong [OF assms])
    with False Cons.IH [of s] show ?thesis by (simp add: pick_num_def)
  qed (use Cons.IH [of "set_field s f"] in \<open>simp add: pick_num_def\<close>)
qed (simp add: pick_num_def)

lemma foldl_local_eq:
  "local_to n sel \<Longrightarrow> pick_num n fs = pick_num n gs \<Longrightarrow> sel (foldl set_field s fs) = sel (foldl set_field s gs)"
  by (metis foldl_local)

lemma foldl_set_field_perm:
  assumes "mset fs = mset (vm_fields v)"
  shows "foldl set_field s fs = foldl set_field s (vm_fields v)"
proof -
  have pick: "pick_num n fs = pick_num n (vm_fields v)" for n
    by (rule pick_mset [OF assms]) (simp add: vm_fields_def)
  show ?thesis
    by (rule ValueMessage.equality; (rule selectors_local [THEN foldl_local_eq, OF pick] | simp))
qed

lemma keep_opt:
  "filter (\<lambda>f. field_num f \<noteq> 2) (opt_varint m v) = (if m = 2 then [] else opt_varint m v)"
  "filter (\<lambda>f. field_num f \<noteq> 2) (opt_bytes m s) = (if m = 2 then [] else opt_bytes m s)"
  "opt_bytes m [] = []"
  by (simp_all add: opt_varint_def opt_bytes_def)

lemma foldl_keep:
  "foldl (\<lambda>s f. if field_num f \<noteq> 2 then s @ e f else s) s fs
     = s @ concat (map e (filter (\<lambda>f. field_num f \<noteq> 2) fs))"
  by (induction fs arbitrary: s) auto

lemma div_tag: "typ < 8 \<Longrightarrow> (8 * num + typ) div 8 = num" "typ < 8 \<Longrightarrow> (8 * num + typ) mod 8 = (typ :: nat)"
  by presburger+

context protowire
begin

abbreviation (input) "enc \<equiv> append_field tag var byt"

lemma enc_nonempty: "enc f \<noteq> []"
  by (cases f) (simp_all add: append_field_def tag_nonempty)

lemma marshal_wf: "marshal P v = Some b \<Longrightarrow> vm_wf v"
  using unmarshal_marshal unmarshal_wf by blast

lemma scan_message:
  assumes "marshal P v = Some b"
    and "\<And>f r s. scan_ok f \<Longrightarrow> step s (enc f @ r) = Some (upd s f, r)"
  shows "\<exists>fs. mset fs = mset (vm_fields v) \<and> scan_loop (length b) step s b = Some (foldl upd s fs)"
proof -
  obtain fs where fs: "mset fs = mset (vm_fields v)" "b = concat (map enc fs)"
    using marshal_fields [OF assms(1)] by blast
  have "vm_wf v" using assms(1) unmarshal_marshal unmarshal_wf by blast
  then have "\<forall>f \<in> set fs. scan_ok f"
    using vm_fields_scan_ok mset_eq_setD [OF fs(1)] by blast
  then have "scan_loop (length b) step s b = Some (foldl upd s fs)"
    unfolding fs(2) by (intro scan_loop_fields) (simp_all add: assms(2) enc_nonempty)
  with fs(1) show ?thesis by blast
qed

lemma varint_step:
  assumes "scan_ok f" "want \<notin> {2, 4, 5}"
  shows "varintField_step P want s (enc f @ r) = Some (upd_varint want s f, r)"
  using assms
  by (cases f) (auto simp: varintField_step_def append_field_def scan_ok_def consume_tag valid_number consume_varint
      consume_bytes skip_varint skip_bytes upd_varint_def int64_of_nat)

lemma varint_field:
  assumes "marshal P v = Some b" "want \<notin> {2, 4, 5}"
  shows "\<exists>fs. mset fs = mset (vm_fields v)
    \<and> valueMessageVarintField P b want = Some (foldl (upd_varint want) 0 (pick_num want fs))"
proof -
  have "\<exists>fs. mset fs = mset (vm_fields v)
      \<and> scan_loop (length b) (varintField_step P want) 0 b = Some (foldl (upd_varint want) 0 fs)"
    by (rule scan_message [OF assms(1)]) (rule varint_step [OF _ assms(2)])
  then obtain fs where "mset fs = mset (vm_fields v)"
    "scan_loop (length b) (varintField_step P want) 0 b = Some (foldl (upd_varint want) 0 fs)"
    by blast
  moreover have "foldl (upd_varint want) 0 fs = foldl (upd_varint want) 0 (pick_num want fs)"
    by (rule foldl_pick) (auto simp: upd_varint_def split: field.splits)
  ultimately show ?thesis by (auto simp: valueMessageVarintField_def)
qed

lemma scanned_expiry: "marshal P v = Some b \<Longrightarrow> valueMessageExpiry P b = Some (Expiry v)"
  using varint_field [of v b 3] marshal_wf [of v b]
  by (auto simp: valueMessageExpiry_def pick_vm_fields upd_varint_opt vm_wf_def)

lemma scanned_length: "marshal P v = Some b \<Longrightarrow> valueMessageValueLength P b = Some (ValueLength v)"
  using varint_field [of v b 7] marshal_wf [of v b]
  by (auto simp: valueMessageValueLength_def pick_vm_fields upd_varint_opt vm_wf_def)

lemma scanned_version: "marshal P v = Some b \<Longrightarrow> valueMessageVersion P b = Some (Version v)"
  using varint_field [of v b 9]
  by (auto simp: valueMessageVersion_def pick_vm_fields upd_varint_def opt_varint_def uint64_of_i64 unat_eq_zero
      uint64_of_0)

lemma path_step:
  assumes "scan_ok f" "want \<in> {4, 5}"
  shows "lengthPath_step P want s (enc f @ r) = Some (upd_path want s f, r)"
  using assms
  by (cases f; cases s) (auto simp: lengthPath_step_def append_field_def scan_ok_def consume_tag valid_number consume_varint
      consume_bytes skip_varint skip_bytes upd_path_def upd_bytes_def upd_varint_def int64_of_nat)

lemma path_field:
  assumes "marshal P v = Some b" "want \<in> {4, 5}"
  shows "scan_loop (length b) (lengthPath_step P want) ([], 0) b
      = Some (if want = 4 then RawFilePath v else SegmentPath v, ValueLength v)"
proof -
  have "\<exists>fs. mset fs = mset (vm_fields v)
      \<and> scan_loop (length b) (lengthPath_step P want) ([], 0) b = Some (foldl (upd_path want) ([], 0) fs)"
    by (rule scan_message [OF assms(1)]) (rule path_step [OF _ assms(2)])
  then obtain fs where fs: "mset fs = mset (vm_fields v)"
    "scan_loop (length b) (lengthPath_step P want) ([], 0) b = Some (foldl (upd_path want) ([], 0) fs)"
    by blast
  have "foldl upd_bytes [] (pick_num want fs) = (if want = 4 then RawFilePath v else SegmentPath v)"
    using assms(2) by (auto simp: pick_vm_fields [OF fs(1)] upd_bytes_opt)
  moreover have "foldl (upd_varint 7) 0 (pick_num 7 fs) = ValueLength v"
    using marshal_wf [OF assms(1)] by (simp add: pick_vm_fields [OF fs(1)] upd_varint_opt vm_wf_def)
  ultimately show ?thesis using fs(2) by (simp add: foldl_upd_path)
qed

lemma scanned_segment_ref:
  "marshal P v = Some b \<Longrightarrow> valueMessageSegmentRef P b = Some (SegmentPath v, ValueLength v)"
  by (simp add: valueMessageSegmentRef_def path_field)

lemma scanned_size_path:
  "marshal P v = Some b \<Longrightarrow> valueMessageSizeAndRawPath P b = Some (ValueLength v, RawFilePath v)"
  by (simp add: valueMessageSizeAndRawPath_def path_field)

lemma cleanup_step_ok:
  assumes "scan_ok f"
  shows "cleanup_step P s (enc f @ r) = Some (upd_cleanup s f, r)"
  using assms
  by (cases f) (auto simp: cleanup_step_def append_field_def scan_ok_def consume_tag valid_number consume_varint
      consume_bytes skip_varint skip_bytes upd_cleanup_def upd_bytes_def upd_varint_def upd_type_def int64_of_nat unat_of_nat_less)

lemma scanned_cleanup:
  assumes "marshal P v = Some b"
  shows "decodeValueMessageCleanupFields P b = Some (cleanup_of v)"
proof -
  have "\<exists>fs. mset fs = mset (vm_fields v)
      \<and> scan_loop (length b) (cleanup_step P) cf0 b = Some (foldl upd_cleanup cf0 fs)"
    by (rule scan_message [OF assms]) (rule cleanup_step_ok)
  then obtain fs where fs: "mset fs = mset (vm_fields v)"
    "scan_loop (length b) (cleanup_step P) cf0 b = Some (foldl upd_cleanup cf0 fs)"
    by blast
  have "vm_wf v" by (rule marshal_wf [OF assms])
  then have "foldl upd_cleanup cf0 fs = cleanup_of v"
    by (intro cleanupFields.equality)
      (simp_all add: foldl_upd_cleanup pick_vm_fields [OF fs(1)] cleanup_of_def cf0_def upd_varint_opt
        upd_bytes_opt upd_type_opt vm_wf_def del: One_nat_def)
  with fs(2) show ?thesis by (simp add: decodeValueMessageCleanupFields_def)
qed

lemma skip_step:
  assumes "scan_ok f"
  shows "skipData_step P s (enc f @ r) = Some (if field_num f \<noteq> 2 then s @ enc f else s, r)"
proof (cases f)
  case (FVarint num v)
  then have "v < 2 ^ 64" "1 \<le> num" "num < 16" using assms by (simp_all add: scan_ok_def)
  then show ?thesis
    using FVarint by (simp add: skipData_step_def append_field_def consume_tag valid_number skip_varint nat_add_distrib)
next
  case (FBytes num v)
  then have "1 \<le> num" "num < 16" using assms by (simp_all add: scan_ok_def)
  then show ?thesis
    using FBytes by (simp add: skipData_step_def append_field_def consume_tag valid_number skip_bytes nat_add_distrib)
qed

lemma scanned_skip_data:
  assumes "marshal P v = Some b"
  shows "unmarshalValueMessageSkippingData P b = Some (v\<lparr>Data := []\<rparr>)"
proof -
  let ?keep = "filter (\<lambda>f. field_num f \<noteq> 2)" and ?v = "v\<lparr>Data := []\<rparr>"
  have wf: "vm_wf v" "vm_wf ?v" using marshal_wf [OF assms] by (simp_all add: vm_wf_def)
  have "\<exists>fs. mset fs = mset (vm_fields v) \<and> scan_loop (length b) (skipData_step P) [] b
      = Some (foldl (\<lambda>s f. if field_num f \<noteq> 2 then s @ enc f else s) [] fs)"
    by (rule scan_message [OF assms]) (rule skip_step)
  then obtain fs where fs: "mset fs = mset (vm_fields v)" "scan_loop (length b) (skipData_step P) [] b
      = Some (foldl (\<lambda>s f. if field_num f \<noteq> 2 then s @ enc f else s) [] fs)" by blast
  have "mset (?keep fs) = mset (?keep (vm_fields v))" using fs(1) by simp
  also have "?keep (vm_fields v) = vm_fields ?v" by (simp add: vm_fields_def keep_opt)
  finally have keep: "mset (?keep fs) = mset (vm_fields ?v)" .
  then have "foldl set_field vm0 (?keep fs) = ?v"
    using foldl_set_field_perm foldl_vm_fields [OF wf(2)] by metis
  moreover have "\<forall>f \<in> set (?keep fs). field_ok f"
    using vm_fields_ok mset_eq_setD [OF keep] by blast
  ultimately show ?thesis
    using fs(2) unmarshal_fields [of "?keep fs"] wf(2)
    by (simp add: unmarshalValueMessageSkippingData_def foldl_keep)
qed

end

lemma append_enc_field:
  "append_field (\<lambda>num typ. varint (8 * num + typ)) varint (\<lambda>s. varint (length s) @ s) = enc_field"
proof
  show "append_field (\<lambda>num typ. varint (8 * num + typ)) varint (\<lambda>s. varint (length s) @ s) f = enc_field f" for f
    by (cases f) (simp_all add: append_field_def)
qed

interpretation wire: protowire wire_proto "\<lambda>num typ. varint (8 * num + typ)" varint "\<lambda>s. varint (length s) @ s"
proof (unfold_locales, unfold append_enc_field)
  fix vm b assume "marshal wire_proto vm = Some b"
  then show "\<exists>fs. mset fs = mset (vm_fields vm) \<and> b = concat (map enc_field fs)"
    by (intro exI [of _ "vm_fields vm"]) (auto simp: wire_proto_def split: if_splits)
next
  fix fs assume "\<forall>f \<in> set fs. field_ok f" "vm_wf (foldl set_field vm0 fs)"
  then show "unmarshal wire_proto (concat (map enc_field fs)) = Some (foldl set_field vm0 fs)"
    using parse_fields_concat by (simp add: wire_proto_def)
qed (simp_all add: wire_proto_def wire_ConsumeTag_def wire_ConsumeVarint_def wire_ConsumeBytes_def
    wire_ConsumeFieldValue_def div_tag)

text \<open>C35: the scanners agree with a full decode.  On every row the program encodes, the
  expiry, length, version, path and reclamation fields read off the wire are those
  of the message, and the decode that skips the payload differs from it only there.\<close>

theorem scanners_agree:
  assumes "protowire P tag var byt" "marshal P v = Some b"
  shows "valueMessageExpiry P b = Some (Expiry v) \<and> valueMessageValueLength P b = Some (ValueLength v)
    \<and> valueMessageVersion P b = Some (Version v)
    \<and> valueMessageSegmentRef P b = Some (SegmentPath v, ValueLength v)
    \<and> valueMessageSizeAndRawPath P b = Some (ValueLength v, RawFilePath v)
    \<and> decodeValueMessageCleanupFields P b = Some (cleanup_of v)
    \<and> unmarshalValueMessageSkippingData P b = Some (v\<lparr>Data := []\<rparr>)"
  using protowire.scanned_expiry [OF assms] protowire.scanned_length [OF assms]
    protowire.scanned_version [OF assms] protowire.scanned_segment_ref [OF assms]
    protowire.scanned_size_path [OF assms] protowire.scanned_cleanup [OF assms]
    protowire.scanned_skip_data [OF assms] by blast

theorem scanners_agree_witness:
  "valueMessageExpiry wire_proto (wire_row (vm0\<lparr>Data := ''abc'', Expiry := 77, ValueLength := 3\<rparr>)) = Some 77"
  using scanners_agree [OF wire.protowire_axioms wire_row, of "vm0\<lparr>Data := ''abc'', Expiry := 77, ValueLength := 3\<rparr>"]
  by (simp add: vm_wf_def in_int64_def)

end
