(* ===== verification/MetaDB.thy ===== *)
theory MetaDB
  imports ValueWire
begin

text \<open>
  The metadata database.  RocksDB and its Go binding are not part of the sources: the
  calls the program makes (\<^verbatim>\<open>Get\<close>, \<^verbatim>\<open>Put\<close>, \<^verbatim>\<open>Delete\<close>, \<^verbatim>\<open>Merge\<close>, \<^verbatim>\<open>Write\<close> of a batch and an
  iterator) are fields of a record, over a state type of its own, so that a read may
  fail once and succeed when it is repeated.  The locale \<open>rocksdb\<close> states what they
  promise in terms of the map a reader sees; the merge operator given to RocksDB is
  the program's \<open>FullMerge\<close>.  A store over sorted association lists with a script
  of injected failures is an instance of the interface.
\<close>

section \<open>The interface\<close>

datatype wop = WPut bytes bytes | WDelete bytes | WMerge bytes bytes

type_synonym batch = "wop list"

record 'db ext_api = proto_api +
  db_get :: "'db \<Rightarrow> bytes \<Rightarrow> bytes option result \<times> 'db"
  db_write :: "'db \<Rightarrow> batch \<Rightarrow> string option \<times> 'db"
  db_seek :: "'db \<Rightarrow> bytes \<Rightarrow> ((bytes \<times> bytes) list \<times> string option) \<times> 'db"

text \<open>\<open>db_seek d k\<close> is an iterator positioned with \<^verbatim>\<open>Seek(k)\<close>: the rows it yields in order
  and the error it ends with.  \<open>Put\<close>, \<open>Delete\<close> and \<open>Merge\<close> on the handle are batches of
  one operation.\<close>

definition db_put :: "'db ext_api \<Rightarrow> 'db \<Rightarrow> bytes \<Rightarrow> bytes \<Rightarrow> string option \<times> 'db" where
  "db_put E d k v = db_write E d [WPut k v]"

definition db_delete :: "'db ext_api \<Rightarrow> 'db \<Rightarrow> bytes \<Rightarrow> string option \<times> 'db" where
  "db_delete E d k = db_write E d [WDelete k]"

definition db_merge :: "'db ext_api \<Rightarrow> 'db \<Rightarrow> bytes \<Rightarrow> bytes \<Rightarrow> string option \<times> 'db" where
  "db_merge E d k operand = db_write E d [WMerge k operand]"

section \<open>What a batch does to the map a reader sees\<close>

type_synonym view = "bytes \<rightharpoonup> bytes"

definition bytes_or_nil :: "bytes option \<Rightarrow> bytes" where
  "bytes_or_nil v = (case v of None \<Rightarrow> [] | Some b \<Rightarrow> b)"

primrec apply_wop :: "'a proto_api_scheme \<Rightarrow> view \<Rightarrow> wop \<Rightarrow> view" where
  "apply_wop P m (WPut k v) = m(k \<mapsto> v)"
| "apply_wop P m (WDelete k) = m(k := None)"
| "apply_wop P m (WMerge k operand) = m(k \<mapsto> fst (FullMerge P k (bytes_or_nil (m k)) [operand]))"

definition apply_batch :: "'a proto_api_scheme \<Rightarrow> view \<Rightarrow> batch \<Rightarrow> view" where
  "apply_batch P m b = foldl (apply_wop P) m b"

primrec wop_key :: "wop \<Rightarrow> bytes" where
  "wop_key (WPut k v) = k" | "wop_key (WDelete k) = k" | "wop_key (WMerge k v) = k"

text \<open>The rows of a map from a key on, in key order: what an iterator shows.\<close>

definition rows_from :: "view \<Rightarrow> bytes \<Rightarrow> (bytes \<times> bytes) list \<Rightarrow> bool" where
  "rows_from m k rows \<longleftrightarrow> sorted_wrt (<) (map fst rows)
     \<and> set rows = {(k', v). k \<le> k' \<and> m k' = Some v}"

locale rocksdb = protowire E tag var byt
  for E :: "'db ext_api" and tag :: "nat \<Rightarrow> nat \<Rightarrow> bytes" and var :: "nat \<Rightarrow> bytes" and byt :: "bytes \<Rightarrow> bytes" +
  fixes view :: "'db \<Rightarrow> view"
  assumes get_view: "view (snd (db_get E d k)) = view d"
    and get_ok: "fst (db_get E d k) = Inr r \<Longrightarrow> r = view d k"
    and write_ok: "fst (db_write E d b) = None \<Longrightarrow> view (snd (db_write E d b)) = apply_batch E (view d) b"
    and write_err: "fst (db_write E d b) = Some e \<Longrightarrow> view (snd (db_write E d b)) = view d"
    and seek_view: "view (snd (db_seek E d k)) = view d"
    and seek_ok: "fst (db_seek E d k) = (rows, None) \<Longrightarrow> rows_from (view d) k rows"
    and seek_rows: "(k', v) \<in> set (fst (fst (db_seek E d k))) \<Longrightarrow> view d k' = Some v"
    and seek_sorted: "sorted_wrt (<) (map fst (fst (fst (db_seek E d k))))"

section \<open>Lemmas on batches\<close>

lemma apply_batch_simps [simp]:
  "apply_batch P m [] = m" "apply_batch P m (w # b) = apply_batch P (apply_wop P m w) b"
  "apply_batch P m (b @ c) = apply_batch P (apply_batch P m b) c"
  by (simp_all add: apply_batch_def)

lemma apply_wop_other [simp]: "k \<noteq> wop_key w \<Longrightarrow> apply_wop P m w k = m k"
  by (cases w) auto

lemma apply_batch_other: "k \<notin> wop_key ` set b \<Longrightarrow> apply_batch P m b k = m k"
  by (induction b arbitrary: m) auto

lemma rows_from_keys:
  assumes "rows_from m k xs"
  shows "xs = map (\<lambda>k. (k, the (m k))) (map fst xs)"
proof -
  have "(\<lambda>k. (k, the (m k))) (fst x) = x" if "x \<in> set xs" for x
    using assms that by (cases x) (simp add: rows_from_def)
  then show ?thesis by (simp add: map_idI)
qed

lemma rows_from_unique:
  assumes "rows_from m k xs" "rows_from m k ys"
  shows "xs = ys"
proof -
  have "map fst xs = map fst ys"
    using assms by (intro sorted_distinct_set_unique) (auto simp: rows_from_def strict_sorted_iff)
  then show ?thesis
    using rows_from_keys [OF assms(1)] rows_from_keys [OF assms(2)] by metis
qed

section \<open>A reference store\<close>

text \<open>The state is the list of rows in key order and a script: each call consumes one
  entry, and an entry that holds an error makes the call fail with it.\<close>

type_synonym memdb = "(bytes \<times> bytes) list \<times> string option list"

fun upd_row :: "bytes \<Rightarrow> bytes \<Rightarrow> (bytes \<times> bytes) list \<Rightarrow> (bytes \<times> bytes) list" where
  "upd_row k v [] = [(k, v)]"
| "upd_row k v ((k', v') # rs) =
    (if k < k' then (k, v) # (k', v') # rs else if k = k' then (k, v) # rs else (k', v') # upd_row k v rs)"

definition del_row :: "bytes \<Rightarrow> (bytes \<times> bytes) list \<Rightarrow> (bytes \<times> bytes) list" where
  "del_row k rs = filter (\<lambda>r. fst r \<noteq> k) rs"

primrec mem_wop :: "'a proto_api_scheme \<Rightarrow> (bytes \<times> bytes) list \<Rightarrow> wop \<Rightarrow> (bytes \<times> bytes) list" where
  "mem_wop P rs (WPut k v) = upd_row k v rs"
| "mem_wop P rs (WDelete k) = del_row k rs"
| "mem_wop P rs (WMerge k operand) = upd_row k (fst (FullMerge P k (bytes_or_nil (map_of rs k)) [operand])) rs"

definition pop_error :: "string option list \<Rightarrow> string option \<times> string option list" where
  "pop_error es = (case es of [] \<Rightarrow> (None, []) | e # es' \<Rightarrow> (e, es'))"

definition mem_get :: "memdb \<Rightarrow> bytes \<Rightarrow> bytes option result \<times> memdb" where
  "mem_get d k = (case d of (rs, es) \<Rightarrow> case pop_error es of
     (None, es') \<Rightarrow> (Inr (map_of rs k), (rs, es')) | (Some e, es') \<Rightarrow> (Inl e, (rs, es')))"

definition mem_write :: "'a proto_api_scheme \<Rightarrow> memdb \<Rightarrow> batch \<Rightarrow> string option \<times> memdb" where
  "mem_write P d b = (case d of (rs, es) \<Rightarrow> case pop_error es of
     (None, es') \<Rightarrow> (None, (foldl (mem_wop P) rs b, es')) | (Some e, es') \<Rightarrow> (Some e, (rs, es')))"

text \<open>A row list in use is sorted by key; any other list stands for its sorted form.\<close>

fun norm_rows :: "(bytes \<times> bytes) list \<Rightarrow> (bytes \<times> bytes) list" where
  "norm_rows [] = []"
| "norm_rows ((k, v) # rs) = upd_row k v (norm_rows rs)"

definition mem_seek :: "memdb \<Rightarrow> bytes \<Rightarrow> ((bytes \<times> bytes) list \<times> string option) \<times> memdb" where
  "mem_seek d k = (case d of (rs, es) \<Rightarrow> case pop_error es of
     (None, es') \<Rightarrow> ((filter (\<lambda>r. k \<le> fst r) (norm_rows rs), None), (rs, es'))
   | (Some e, es') \<Rightarrow> (([], Some e), (rs, es')))"

definition mem_ext :: "memdb ext_api" where
  "mem_ext = proto_api.extend wire_proto
     (ext_api.fields mem_get (mem_write wire_proto) mem_seek)"

lemma map_of_upd_row [simp]: "map_of (upd_row k v rs) = (map_of rs)(k \<mapsto> v)"
  by (induction k v rs rule: upd_row.induct) (auto simp: fun_eq_iff)

lemma map_of_del_row [simp]: "map_of (del_row k rs) = (map_of rs)(k := None)"
  unfolding del_row_def by (induction rs) (auto simp: fun_eq_iff)

lemma map_of_norm_rows [simp]: "map_of (norm_rows rs) = map_of rs"
  by (induction rs rule: norm_rows.induct) auto

lemma keys_upd_row: "fst ` set (upd_row k v rs) = insert k (fst ` set rs)"
  by (induction k v rs rule: upd_row.induct) auto

lemma sorted_upd_row: "sorted_wrt (<) (map fst rs) \<Longrightarrow> sorted_wrt (<) (map fst (upd_row k v rs))"
proof (induction k v rs rule: upd_row.induct)
  case (2 k v k' v' rs)
  then show ?case
    using keys_upd_row [of k v rs] by (auto simp: image_iff)
qed simp

lemma sorted_norm_rows: "sorted_wrt (<) (map fst (norm_rows rs))"
  by (induction rs rule: norm_rows.induct) (auto intro: sorted_upd_row)

lemma map_of_mem_wop: "map_of (mem_wop P rs w) = apply_wop P (map_of rs) w"
  by (cases w) simp_all

lemma map_of_mem_batch: "map_of (foldl (mem_wop P) rs b) = apply_batch P (map_of rs) b"
  by (induction b arbitrary: rs) (simp_all add: map_of_mem_wop)

lemma mem_ext_simps [simp]:
  "db_get mem_ext = mem_get" "db_write mem_ext = mem_write wire_proto" "db_seek mem_ext = mem_seek"
  "marshal mem_ext = marshal wire_proto" "unmarshal mem_ext = unmarshal wire_proto"
  "marshal_di mem_ext = marshal_di wire_proto" "unmarshal_di mem_ext = unmarshal_di wire_proto"
  "ConsumeTag mem_ext = ConsumeTag wire_proto" "IsValidNumber mem_ext = IsValidNumber wire_proto"
  "ConsumeVarint mem_ext = ConsumeVarint wire_proto" "ConsumeBytes mem_ext = ConsumeBytes wire_proto"
  "ConsumeFieldValue mem_ext = ConsumeFieldValue wire_proto"
  by (simp_all add: mem_ext_def wire_proto_def proto_api.defs ext_api.defs)

lemma FullMerge_mem_ext: "FullMerge mem_ext = FullMerge wire_proto"
proof -
  have "merge_operand mem_ext = merge_operand wire_proto" "finish_merge mem_ext = finish_merge wire_proto"
    by (simp_all add: merge_operand_def finish_merge_def fun_eq_iff)
  then have "FullMerge mem_ext k ex ops = FullMerge wire_proto k ex ops" for k ex ops
    by (simp add: FullMerge_def mergeMetadataCAS_def mergeDeleteIndex_def split: option.split)
  then show ?thesis by blast
qed

lemma apply_batch_mem_ext: "apply_batch mem_ext = apply_batch wire_proto"
proof -
  have "apply_wop mem_ext m w = apply_wop wire_proto m w" for m w
    by (cases w) (simp_all add: FullMerge_mem_ext)
  then have "apply_wop mem_ext = apply_wop wire_proto" by blast
  then have "apply_batch mem_ext m b = apply_batch wire_proto m b" for m b by (simp add: apply_batch_def)
  then show ?thesis by blast
qed

lemma rows_from_mem_seek: "rows_from (map_of rs) k (filter (\<lambda>r. k \<le> fst r) (norm_rows rs))"
proof -
  have d: "distinct (map fst (norm_rows rs))"
    using sorted_norm_rows strict_sorted_iff by blast
  have "set (filter (\<lambda>r. k \<le> fst r) (norm_rows rs)) = {(k', v). k \<le> k' \<and> map_of rs k' = Some v}"
    using map_of_eq_Some_iff [OF d] by auto
  moreover have "sorted_wrt (<) (map fst (filter (\<lambda>r. k \<le> fst r) (norm_rows rs)))"
    using sorted_norm_rows [of rs] by (simp add: sorted_wrt_map sorted_wrt_filter)
  ultimately show ?thesis by (simp add: rows_from_def)
qed

abbreviation mem_view :: "memdb \<Rightarrow> view" where
  "mem_view d \<equiv> map_of (fst d)"

interpretation mem: rocksdb mem_ext "\<lambda>num typ. varint (8 * num + typ)" varint "\<lambda>s. varint (length s) @ s"
  "\<lambda>d. map_of (fst d)"
proof unfold_locales
  fix vm b assume "marshal mem_ext vm = Some b"
  then show "\<exists>fs. mset fs = mset (vm_fields vm) \<and> b = concat (map (append_field
      (\<lambda>num typ. varint (8 * num + typ)) varint (\<lambda>s. varint (length s) @ s)) fs)"
    using wire.marshal_fields by simp
next
  fix fs assume "\<forall>f \<in> set fs. field_ok f" "vm_wf (foldl set_field vm0 fs)"
  then show "unmarshal mem_ext (concat (map (append_field (\<lambda>num typ. varint (8 * num + typ)) varint
      (\<lambda>s. varint (length s) @ s)) fs)) = Some (foldl set_field vm0 fs)"
    using wire.unmarshal_fields by simp
next
  fix d :: memdb and b
  assume "fst (db_write mem_ext d b) = None"
  then show "map_of (fst (snd (db_write mem_ext d b))) = apply_batch mem_ext (map_of (fst d)) b"
    by (cases d) (auto simp: mem_write_def map_of_mem_batch apply_batch_mem_ext split: prod.splits option.splits)
next
  fix d :: memdb and k rows assume "fst (db_seek mem_ext d k) = (rows, None)"
  then show "rows_from (map_of (fst d)) k rows"
    using rows_from_mem_seek by (cases d) (auto simp: mem_seek_def split: prod.splits option.splits)
next
  fix d :: memdb and k k' v assume "(k', v) \<in> set (fst (fst (db_seek mem_ext d k)))"
  then show "map_of (fst d) k' = Some v"
    using rows_from_mem_seek [of "fst d" k] by (cases d) (auto simp: mem_seek_def rows_from_def split: prod.splits option.splits)
next
  fix d :: memdb and k show "sorted_wrt (<) (map fst (fst (fst (db_seek mem_ext d k))))"
    using rows_from_mem_seek [of "fst d" k] by (cases d) (auto simp: mem_seek_def rows_from_def split: prod.splits option.splits)
qed (auto simp: mem_get_def mem_write_def mem_seek_def wire.unmarshal_marshal wire.marshal_total
    wire.marshal_default wire.marshal_sentinel wire.unmarshal_marshal_di wire.marshal_di_total
    wire.marshal_di_default wire.consume_tag wire.consume_varint wire.consume_bytes [simplified] wire.skip_varint
    wire.skip_bytes [simplified] wire.valid_number
    dest: wire.unmarshal_wf wire.unmarshal_di_wf split: prod.splits option.splits)

end
