(* ===== verification/Errors.thy ===== *)
theory Errors
  imports Prelude
begin

text \<open>
  Errors: Go error values with their wrapping chain, the storage errors of
  \<^verbatim>\<open>src/storage/errors\<close> and the classification of file-system and RocksDB errors at
  the end of \<^verbatim>\<open>src/storage/storage.go\<close>.
\<close>

section \<open>Error values\<close>

datatype ErrorType = TypeNotFound | TypeInvalidRequest | TypeStorageFull | TypeCorruption
  | TypeTemporary | TypeIO | TypeLock | TypeTimeout | TypeInternal

datatype errno = ENOSPC | ENOENT | EACCES | EIO

text \<open>\<open>ErrText\<close> is a leaf made by \<^verbatim>\<open>errors.New\<close> or by the RocksDB binding, \<open>PathError\<close> the
  \<^verbatim>\<open>*os.PathError\<close> that the \<^verbatim>\<open>os\<close> package returns around a \<^verbatim>\<open>syscall.Errno\<close>, \<open>Wrapped\<close> an
  error made by \<^verbatim>\<open>fmt.Errorf\<close> with \<^verbatim>\<open>%w\<close>.\<close>

datatype goerr =
    ErrText string
  | PathError errno
  | Wrapped string goerr
  | StorageError ErrorType string string string bool "goerr option"
  | VersionMismatchError string string version

fun Unwrap :: "goerr \<Rightarrow> goerr option" where
  "Unwrap (Wrapped m e) = Some e"
| "Unwrap (StorageError t op key m r u) = u"
| "Unwrap e = None"

text \<open>\<^verbatim>\<open>errors.Is\<close> and \<^verbatim>\<open>errors.As\<close> follow the chain; \<^verbatim>\<open>os.IsNotExist\<close>, \<^verbatim>\<open>os.IsPermission\<close> and a
  type assertion look at the outermost error only.\<close>

fun errors_Is :: "goerr \<Rightarrow> goerr \<Rightarrow> bool" where
  "errors_Is (Wrapped m e) target = (Wrapped m e = target \<or> errors_Is e target)"
| "errors_Is (StorageError t op key m r (Some u)) target =
     (StorageError t op key m r (Some u) = target \<or> errors_Is u target)"
| "errors_Is e target = (e = target)"

fun errors_Is_ErrNotExist :: "goerr \<Rightarrow> bool" where
  "errors_Is_ErrNotExist (PathError n) = (n = ENOENT)"
| "errors_Is_ErrNotExist (Wrapped m e) = errors_Is_ErrNotExist e"
| "errors_Is_ErrNotExist (StorageError t op key m r (Some u)) = errors_Is_ErrNotExist u"
| "errors_Is_ErrNotExist e = False"

definition os_IsNotExist :: "goerr \<Rightarrow> bool" where
  "os_IsNotExist e = (e = PathError ENOENT)"

definition os_IsPermission :: "goerr \<Rightarrow> bool" where
  "os_IsPermission e = (e = PathError EACCES)"

fun errors_As_StorageError :: "goerr \<Rightarrow> goerr option" where
  "errors_As_StorageError (StorageError t op key m r u) = Some (StorageError t op key m r u)"
| "errors_As_StorageError (Wrapped m e) = errors_As_StorageError e"
| "errors_As_StorageError e = None"

definition WrapError :: "string \<Rightarrow> string \<Rightarrow> goerr option \<Rightarrow> goerr option" where
  "WrapError op path err = (case err of None \<Rightarrow> None | Some e \<Rightarrow> Some (Wrapped (op @ '' '' @ path) e))"

section \<open>Constructors\<close>

definition NewNotFoundError :: "string \<Rightarrow> string \<Rightarrow> goerr" where
  "NewNotFoundError op key = StorageError TypeNotFound op key ''key not found'' False None"

definition NewInvalidRequestError :: "string \<Rightarrow> string \<Rightarrow> goerr" where
  "NewInvalidRequestError op message = StorageError TypeInvalidRequest op [] message False None"

definition NewStorageFullError :: "string \<Rightarrow> goerr \<Rightarrow> goerr" where
  "NewStorageFullError op u = StorageError TypeStorageFull op [] ''storage capacity exceeded'' False (Some u)"

definition ErrOverBudget :: goerr where
  "ErrOverBudget = ErrText ''store over disk shed ratio''"

definition NewOverBudgetError :: "string \<Rightarrow> goerr" where
  "NewOverBudgetError op = NewStorageFullError op ErrOverBudget"

definition IsOverBudget :: "goerr \<Rightarrow> bool" where
  "IsOverBudget err = errors_Is err ErrOverBudget"

definition NewCorruptionError :: "string \<Rightarrow> string \<Rightarrow> goerr \<Rightarrow> goerr" where
  "NewCorruptionError op key u = StorageError TypeCorruption op key ''data corruption detected'' False (Some u)"

definition NewTemporaryError :: "string \<Rightarrow> string \<Rightarrow> goerr \<Rightarrow> goerr" where
  "NewTemporaryError op key u = StorageError TypeTemporary op key ''temporary storage error'' True (Some u)"

definition NewIOError :: "string \<Rightarrow> string \<Rightarrow> goerr \<Rightarrow> goerr" where
  "NewIOError op key u = StorageError TypeIO op key ''storage I/O error'' False (Some u)"

definition NewIORetryableError :: "string \<Rightarrow> string \<Rightarrow> goerr \<Rightarrow> goerr" where
  "NewIORetryableError op key u = StorageError TypeIO op key ''storage I/O error'' True (Some u)"

definition NewLockError :: "string \<Rightarrow> string \<Rightarrow> goerr \<Rightarrow> goerr" where
  "NewLockError op key u = StorageError TypeLock op key ''resource is temporarily locked'' True (Some u)"

definition NewTimeoutError :: "string \<Rightarrow> string \<Rightarrow> goerr" where
  "NewTimeoutError op key = StorageError TypeTimeout op key ''operation timed out'' True None"

definition NewInternalError :: "string \<Rightarrow> goerr \<Rightarrow> goerr" where
  "NewInternalError op u = StorageError TypeInternal op [] ''internal storage error'' False (Some u)"

definition NewVersionMismatchError :: "string \<Rightarrow> string \<Rightarrow> version \<Rightarrow> goerr" where
  "NewVersionMismatchError op key current = VersionMismatchError op key current"

section \<open>Predicates\<close>

fun se_type :: "goerr \<Rightarrow> ErrorType option" where
  "se_type (StorageError t op key m r u) = Some t" | "se_type e = None"

fun se_retryable :: "goerr \<Rightarrow> bool" where
  "se_retryable (StorageError t op key m r u) = r" | "se_retryable e = False"

definition has_type :: "ErrorType \<Rightarrow> goerr \<Rightarrow> bool" where
  "has_type t err = (case errors_As_StorageError err of None \<Rightarrow> False | Some se \<Rightarrow> se_type se = Some t)"

definition IsNotFound :: "goerr \<Rightarrow> bool" where "IsNotFound err = has_type TypeNotFound err"
definition IsStorageFull :: "goerr \<Rightarrow> bool" where "IsStorageFull err = has_type TypeStorageFull err"
definition IsCorruption :: "goerr \<Rightarrow> bool" where "IsCorruption err = has_type TypeCorruption err"
definition IsTimeout :: "goerr \<Rightarrow> bool" where "IsTimeout err = has_type TypeTimeout err"

definition IsRetryable :: "goerr \<Rightarrow> bool" where
  "IsRetryable err = (case errors_As_StorageError err of None \<Rightarrow> False | Some se \<Rightarrow> se_retryable se)"

definition GetType :: "goerr \<Rightarrow> ErrorType \<times> bool" where
  "GetType err = (case errors_As_StorageError err of
     Some (StorageError t op key m r u) \<Rightarrow> (t, True) | _ \<Rightarrow> (TypeInternal, False))"

fun IsVersionMismatch :: "goerr \<Rightarrow> goerr option" where
  "IsVersionMismatch (VersionMismatchError op key v) = Some (VersionMismatchError op key v)"
| "IsVersionMismatch (Wrapped m e) = IsVersionMismatch e"
| "IsVersionMismatch (StorageError t op key m r (Some u)) = IsVersionMismatch u"
| "IsVersionMismatch e = None"

section \<open>Classification\<close>

fun isNoSpaceError :: "goerr option \<Rightarrow> bool" where
  "isNoSpaceError None = False"
| "isNoSpaceError (Some (PathError n)) = (n = ENOSPC)"
| "isNoSpaceError (Some e) = False"

definition mapRocksDBError :: "string \<Rightarrow> string \<Rightarrow> string \<Rightarrow> goerr" where
  "mapRocksDBError op key errStr =
    (if errStr = ''rocksdb: not found'' then NewNotFoundError op key
     else if errStr = ''rocksdb: corruption'' then NewCorruptionError op key (ErrText errStr)
     else if errStr = ''rocksdb: io error'' then NewIOError op key (ErrText errStr)
     else NewTemporaryError op key (ErrText errStr))"

lemmas error_defs = NewNotFoundError_def NewInvalidRequestError_def NewStorageFullError_def
  NewCorruptionError_def NewTemporaryError_def NewIOError_def NewIORetryableError_def
  NewLockError_def NewTimeoutError_def NewInternalError_def NewVersionMismatchError_def

section \<open>Lemmas\<close>

text \<open>Wrapping hides an error from every test that looks at the outermost error only.\<close>

lemma wrapped_not_classified [simp]:
  "\<not> isNoSpaceError (Some (Wrapped m e))" "\<not> os_IsNotExist (Wrapped m e)" "\<not> os_IsPermission (Wrapped m e)"
  by (simp_all add: os_IsNotExist_def os_IsPermission_def)

lemma mapRocksDBError_storage:
  "\<exists>t m r u. mapRocksDBError op key e = StorageError t op key m r u"
  by (auto simp: mapRocksDBError_def error_defs)

lemma mapRocksDBError_not_mismatch [simp]: "IsVersionMismatch (mapRocksDBError op key e) = None"
  by (auto simp: mapRocksDBError_def error_defs)

end
