(* ===== verification/SegmentFormat.thy ===== *)
theory SegmentFormat
  imports Errors
begin

text \<open>
  The on-disk segment format (\<^verbatim>\<open>src/storage/segment/builder.go\<close>): the header written before
  every value, the footer of a finalized segment, the CRC-32 of \<^verbatim>\<open>hash/crc32\<close>, and the
  iterator of \<^verbatim>\<open>segment.go\<close> that walks the entries of a file.
\<close>

unbundle bit_operations_syntax

section \<open>Checksums\<close>

text \<open>The reflected CRC-32 with the IEEE polynomial.\<close>

definition crc_bit :: "32 word \<Rightarrow> 32 word" where
  "crc_bit c = (if bit c 0 then drop_bit 1 c XOR 0xEDB88320 else drop_bit 1 c)"

definition crc_byte :: "32 word \<Rightarrow> char \<Rightarrow> 32 word" where
  "crc_byte c b = (crc_bit ^^ 8) (c XOR word_of_nat (of_char b))"

definition crc32 :: "bytes \<Rightarrow> 32 word" where
  "crc32 bs = NOT (foldl crc_byte (NOT 0) bs)"

section \<open>Headers\<close>

definition put_be16 :: "16 word \<Rightarrow> bytes" where
  "put_be16 w = rev (nat_to_le 2 (unat w))"

definition get_be16 :: "bytes \<Rightarrow> 16 word" where
  "get_be16 b = word_of_nat (le_to_nat (rev b))"

definition ValueHeaderSize :: nat where "ValueHeaderSize = 18"
definition SegmentFooterSize :: nat where "SegmentFooterSize = 20"
definition CurrentSegmentVersion :: int where "CurrentSegmentVersion = 1"
definition CurrentValueHeaderVersion :: "16 word" where "CurrentValueHeaderVersion = 1"
definition SegmentFooterMagicPrefix :: string where "SegmentFooterMagicPrefix = ''SEGEOF''"

lemmas segment_consts [simp] = ValueHeaderSize_def SegmentFooterSize_def CurrentSegmentVersion_def
  CurrentValueHeaderVersion_def

definition BuildValueHeader :: "string \<Rightarrow> int \<Rightarrow> 32 word \<Rightarrow> 16 word \<Rightarrow> bytes" where
  "BuildValueHeader key valueLen checksum version =
     put_be64 (uint64_of_int64 valueLen) @ put_be32 (word_of_nat (length key)) @ put_be32 checksum
     @ put_be16 version @ key"

record value_header =
  vh_valueLen :: int
  vh_headerSize :: int
  vh_keyLen :: int
  vh_version :: "16 word"
  vh_checksum :: "32 word"

definition io_EOF :: goerr where "io_EOF = ErrText ''EOF''"

text \<open>\<^verbatim>\<open>unix.Pread\<close>: at most \<open>n\<close> bytes at an offset, fewer at the end of the file.\<close>

definition Pread :: "bytes \<Rightarrow> nat \<Rightarrow> int \<Rightarrow> goerr + bytes" where
  "Pread f n off = (if off < 0 then Inl (ErrText ''invalid argument'') else Inr (take n (drop (nat off) f)))"

definition ReadValueHeaderAt :: "bytes \<Rightarrow> int \<Rightarrow> goerr + value_header" where
  "ReadValueHeaderAt f off = (case Pread f ValueHeaderSize off of
     Inl e \<Rightarrow> Inl e
   | Inr fixed \<Rightarrow>
       if length fixed < ValueHeaderSize then Inl io_EOF
       else if \<forall>b \<in> set fixed. b = char_of (0 :: nat) then Inl io_EOF
       else (let valueLen = int64_of_uint64 (get_be64 (take 8 fixed));
                 keyLen = uint (get_be32 (take 4 (drop 8 fixed)));
                 checksum = get_be32 (take 4 (drop 12 fixed));
                 version = get_be16 (take 2 (drop 16 fixed))
             in if keyLen \<le> 0 then Inl (ErrText ''invalid key length in header'')
                else if valueLen \<le> 0 then Inl (ErrText ''invalid value length in header'')
                else if version \<le> 0 \<or> version > CurrentValueHeaderVersion
                  then Inl (ErrText ''invalid header version'')
                else Inr \<lparr>vh_valueLen = valueLen, vh_headerSize = int ValueHeaderSize + keyLen,
                          vh_keyLen = keyLen, vh_version = version, vh_checksum = checksum\<rparr>))"

definition ReadValueHeader :: "bytes \<Rightarrow> goerr + value_header" where
  "ReadValueHeader f = ReadValueHeaderAt f 0"

definition CalculateValueHeaderSize :: "string \<Rightarrow> int" where
  "CalculateValueHeaderSize key = int (ValueHeaderSize + length key)"

definition UpdateValueHeader :: "bytes \<Rightarrow> int \<Rightarrow> 32 word \<Rightarrow> bytes" where
  "UpdateValueHeader header valueLen checksum =
     put_be64 (uint64_of_int64 valueLen) @ take 4 (drop 8 header) @ put_be32 checksum @ drop 16 header"

section \<open>Footers\<close>

definition BuildSegmentFooterWithVersion :: "int \<Rightarrow> 32 word \<Rightarrow> int \<Rightarrow> bytes" where
  "BuildSegmentFooterWithVersion version entries dataBytes =
     SegmentFooterMagicPrefix
     @ (if version < 0 \<or> version > 99 then ''00''
        else [digit (nat ((version div 10) mod 10)), digit (nat (version mod 10))])
     @ put_be32 entries @ put_be64 (uint64_of_int64 dataBytes)"

definition ParseSegmentFooter :: "bytes \<Rightarrow> (int \<times> 32 word \<times> int) option" where
  "ParseSegmentFooter footer =
    (if length footer < SegmentFooterSize then None
     else if take 6 footer \<noteq> SegmentFooterMagicPrefix then None
     else (let v1 = footer ! 6; v2 = footer ! 7
           in if \<not> is_digit v1 \<or> \<not> is_digit v2 then None
              else Some (int (digit_val v1) * 10 + int (digit_val v2),
                         get_be32 (take 4 (drop 8 footer)),
                         int64_of_uint64 (get_be64 (take 8 (drop 12 footer))))))"

section \<open>The iterator\<close>

record EntryInfo =
  ei_Key :: string
  ei_Offset :: int
  ei_HeaderSize :: int
  ei_ValueLength :: int
  ei_Checksum :: "32 word"
  ei_Version :: "16 word"

record Iterator =
  it_file :: bytes
  currentPos :: int
  fileSize :: int
  lastError :: "goerr option"

definition NewIterator :: "bytes \<Rightarrow> Iterator" where
  "NewIterator file = \<lparr>it_file = file, currentPos = 0, fileSize = int (length file), lastError = None\<rparr>"

text \<open>\<^verbatim>\<open>ReadAt\<close> fills its buffer or fails.\<close>

definition ReadAt :: "bytes \<Rightarrow> nat \<Rightarrow> int \<Rightarrow> goerr + bytes" where
  "ReadAt f n off = (if off < 0 then Inl (ErrText ''negative offset'')
     else let b = take n (drop (nat off) f) in if length b < n then Inl io_EOF else Inr b)"

definition Iterator_Next :: "Iterator \<Rightarrow> (goerr + EntryInfo) \<times> Iterator" where
  "Iterator_Next it =
    (if currentPos it \<ge> fileSize it - int SegmentFooterSize then (Inl io_EOF, it)
     else case ReadValueHeaderAt (it_file it) (currentPos it) of
       Inl e \<Rightarrow> (Inl e, it\<lparr>lastError := Some e\<rparr>)
     | Inr h \<Rightarrow>
        (case ReadAt (it_file it) (nat (vh_keyLen h)) (wrap_int64 (currentPos it + int ValueHeaderSize)) of
           Inl e \<Rightarrow> (Inl e, it\<lparr>lastError := Some e\<rparr>)
         | Inr keyBuf \<Rightarrow>
            (Inr \<lparr>ei_Key = keyBuf, ei_Offset = currentPos it, ei_HeaderSize = vh_headerSize h,
                  ei_ValueLength = vh_valueLen h, ei_Checksum = vh_checksum h, ei_Version = vh_version h\<rparr>,
             it\<lparr>currentPos := wrap_int64 (currentPos it + wrap_int64 (vh_headerSize h + vh_valueLen h))\<rparr>)))"

definition Iterator_Reset :: "Iterator \<Rightarrow> Iterator" where
  "Iterator_Reset it = it\<lparr>currentPos := 0, lastError := None\<rparr>"

section \<open>Round trips\<close>

lemma unat16_bound: "unat (w :: 16 word) < 256 ^ 2"
  using unsigned_less [of w, where 'a = nat] by simp

lemma get_put_be16 [simp]: "get_be16 (put_be16 w) = w"
  by (simp add: get_be16_def put_be16_def le_to_nat_to_le [OF unat16_bound])

lemma length_put_be16 [simp]: "length (put_be16 w) = 2"
  by (simp add: put_be16_def)

lemma length_BuildValueHeader [simp]: "length (BuildValueHeader key n c v) = ValueHeaderSize + length key"
  by (simp add: BuildValueHeader_def)

lemma length_footer [simp]: "length (BuildSegmentFooterWithVersion v n d) = SegmentFooterSize"
  by (simp add: BuildSegmentFooterWithVersion_def SegmentFooterMagicPrefix_def)

text \<open>The slices of a header and of a footer.\<close>

lemma header_slices:
  "take 8 (BuildValueHeader key n c v @ r) = put_be64 (uint64_of_int64 n)"
  "take 4 (drop 8 (BuildValueHeader key n c v @ r)) = put_be32 (word_of_nat (length key))"
  "take 4 (drop 12 (BuildValueHeader key n c v @ r)) = put_be32 c"
  "take 2 (drop 16 (BuildValueHeader key n c v @ r)) = put_be16 v"
  "drop 18 (BuildValueHeader key n c v @ r) = key @ r"
  by (simp_all add: BuildValueHeader_def)

lemma take_take_drop: "j + k \<le> m \<Longrightarrow> take k (drop j (take m xs)) = take k (drop j xs)"
  by (simp add: drop_take min_def)

lemma put_be16_1: "char_of (1 :: nat) \<in> set (put_be16 1)"
  by (simp add: put_be16_def numeral_2_eq_2)

text \<open>Reading back a header that was written for a value: the caller learns the lengths and
  the checksum, wherever in the file it lies.\<close>

lemma ReadValueHeaderAt_Build:
  assumes "key \<noteq> []" "length key < 2 ^ 32" "0 < n" "in_int64 n"
  shows "ReadValueHeaderAt (pre @ BuildValueHeader key n c CurrentValueHeaderVersion @ r) (int (length pre))
    = Inr \<lparr>vh_valueLen = n, vh_headerSize = CalculateValueHeaderSize key, vh_keyLen = int (length key),
          vh_version = CurrentValueHeaderVersion, vh_checksum = c\<rparr>"
proof -
  let ?h = "BuildValueHeader key n c 1"
  have fixed: "Pread (pre @ ?h @ r) 18 (int (length pre)) = Inr (take 18 (?h @ r))"
    by (simp add: Pread_def)
  have len: "length (take 18 (?h @ r)) = 18" by simp
  have "char_of (1 :: nat) \<in> set (take 18 (?h @ r))"
    using put_be16_1 by (simp add: BuildValueHeader_def)
  then have nz: "\<not> (\<forall>b \<in> set (take 18 (?h @ r)). b = char_of (0 :: nat))"
    by (auto intro!: bexI [of _ "char_of (1 :: nat)"])
  have klen: "uint (word_of_nat (length key) :: 32 word) = int (length key)"
    using assms(2) by (simp add: unsigned_of_nat take_bit_eq_mod)
  have take8: "take 8 (take 18 (?h @ r)) = take 8 (?h @ r)" by simp
  show ?thesis
    unfolding ReadValueHeaderAt_def segment_consts fixed sum.case if_not_P [OF nz] len take8
      take_take_drop [of 8 4 18, simplified] take_take_drop [of 12 4 18, simplified]
      take_take_drop [of 16 2 18, simplified] header_slices
    using assms klen by (simp add: CalculateValueHeaderSize_def Let_def)
qed

lemma ParseSegmentFooter_Build:
  assumes "0 \<le> v" "v \<le> 99" "in_int64 d"
  shows "ParseSegmentFooter (BuildSegmentFooterWithVersion v n d) = Some (v, n, d)"
proof -
  have dig: "nat (v div 10 mod 10) < 10" "nat (v mod 10) < 10" by (auto simp: nat_less_iff)
  have nn: "0 \<le> v div 10" using assms by (simp add: pos_imp_zdiv_nonneg_iff)
  have "v div 10 mod 10 = v div 10" using assms by simp
  then have "int (nat (v div 10 mod 10)) * 10 + int (nat (v mod 10)) = v"
    using assms nn by simp
  then show ?thesis
    using assms dig unfolding ParseSegmentFooter_def
    by (simp add: BuildSegmentFooterWithVersion_def SegmentFooterMagicPrefix_def Let_def)
qed

end
