(* ===== verification/Segments.thy ===== *)
theory Segments
  imports SegmentFormat Rows
begin

text \<open>
  Segments and the segment manager (\<^verbatim>\<open>src/storage/segment/segment.go\<close>, \<^verbatim>\<open>manager.go\<close>):
  appending an entry with rollback, reading it back, finalizing, reservations, and the
  scan that repairs an open segment after a restart.  Files are a map from paths to
  their bytes; a \<^verbatim>\<open>*Segment\<close> is named by its path.  The errors the operating system may
  return are arguments.
\<close>

section \<open>Files\<close>

type_synonym disk = "string \<rightharpoonup> bytes"

abbreviation NUL :: char where "NUL \<equiv> char_of (0 :: nat)"

definition fbytes :: "disk \<Rightarrow> string \<Rightarrow> bytes" where
  "fbytes d p = (case d p of None \<Rightarrow> [] | Some b \<Rightarrow> b)"

text \<open>Writing at a position overwrites or extends; truncating cuts or extends with zeros.\<close>

definition write_at :: "int \<Rightarrow> bytes \<Rightarrow> bytes \<Rightarrow> bytes" where
  "write_at pos data f = take (nat pos) f @ replicate (nat pos - length f) NUL @ data
     @ drop (nat pos + length data) f"

definition ftruncate :: "int \<Rightarrow> bytes \<Rightarrow> bytes" where
  "ftruncate n f = take (nat n) f @ replicate (nat n - length f) NUL"

text \<open>The error of \<^verbatim>\<open>fdCache.Acquire\<close> for a path that does not exist.\<close>

definition fd_not_found :: "string \<Rightarrow> goerr" where
  "fd_not_found path = Wrapped (''raw file not found '' @ path) (PathError ENOENT)"

section \<open>A segment\<close>

text \<open>The file field is the write position of the open descriptor, \<open>None\<close> when closed.\<close>

record Segment =
  seg_path :: string
  seg_size :: int
  seg_file :: "int option"
  numEntries :: "32 word"
  dataBytes :: int
  seg_version :: int
  maxSupportedSize :: int
  reservedBy :: string

definition NewSegment :: "string \<Rightarrow> 32 word \<Rightarrow> int \<Rightarrow> int \<Rightarrow> int \<Rightarrow> Segment" where
  "NewSegment path entries bytes sz maxSize =
     \<lparr>seg_path = path, seg_size = sz, seg_file = None, numEntries = entries, dataBytes = bytes,
      seg_version = CurrentSegmentVersion, maxSupportedSize = maxSize, reservedBy = []\<rparr>"

definition NewSegmentWithReservation ::
  "string \<Rightarrow> 32 word \<Rightarrow> int \<Rightarrow> int \<Rightarrow> int \<Rightarrow> string \<Rightarrow> Segment" where
  "NewSegmentWithReservation path entries bytes sz maxSize callerID =
     (NewSegment path entries bytes sz maxSize)\<lparr>reservedBy := callerID\<rparr>"

definition Remaining :: "Segment \<Rightarrow> int" where
  "Remaining s = wrap_int64 (maxSupportedSize s - seg_size s)"

definition IsReservedBy :: "Segment \<Rightarrow> string \<Rightarrow> bool" where
  "IsReservedBy s callerID = (reservedBy s = callerID)"

definition IsReserved :: "Segment \<Rightarrow> bool" where
  "IsReserved s = (reservedBy s \<noteq> [])"

definition Segment_Reserve :: "Segment \<Rightarrow> string \<Rightarrow> bool \<times> Segment" where
  "Segment_Reserve s callerID =
    (if callerID = [] then (False, s)
     else if seg_file s = None then (False, s)
     else if reservedBy s \<noteq> [] \<and> reservedBy s \<noteq> callerID then (False, s)
     else (True, s\<lparr>reservedBy := callerID\<rparr>))"

definition Segment_Release :: "Segment \<Rightarrow> string \<Rightarrow> goerr option \<times> Segment" where
  "Segment_Release s callerID =
    (if callerID = [] then (Some (ErrText ''callerID cannot be empty''), s)
     else (None, if reservedBy s = callerID then s\<lparr>reservedBy := []\<rparr> else s))"

text \<open>The errors of the system calls of a write: of the header, of the payload copy (with the
  number of bytes that still reached the file), and of the rollback.\<close>

record write_env =
  we_header :: "goerr option"
  we_copy :: "goerr option"
  we_partial :: nat
  we_truncate :: "goerr option"
  we_seek :: "goerr option"

definition write_ok :: write_env where
  "write_ok = \<lparr>we_header = None, we_copy = None, we_partial = 0, we_truncate = None, we_seek = None\<rparr>"

definition rollback :: "write_env \<Rightarrow> goerr \<Rightarrow> int \<Rightarrow> bytes \<Rightarrow> Segment \<Rightarrow> disk \<Rightarrow> (goerr + int) \<times> Segment \<times> disk" where
  "rollback w writeErr cur f s d = (case we_truncate w of
       Some e \<Rightarrow> (Inl (Wrapped (''rollback failed after value write '' @ seg_path s) e),
                  s\<lparr>seg_file := Some cur\<rparr>, d(seg_path s \<mapsto> f))
     | None \<Rightarrow> (let d' = d(seg_path s \<mapsto> ftruncate (seg_size s) f) in
         case we_seek w of
           Some e \<Rightarrow> (Inl (Wrapped (''seek after value write rollback '' @ seg_path s) e),
                      s\<lparr>seg_file := Some cur\<rparr>, d')
         | None \<Rightarrow> (Inl writeErr, s\<lparr>seg_file := Some (seg_size s)\<rparr>, d')))"

text \<open>A reader is the bytes it yields and the error it ends with, \<open>None\<close> for a clean end.\<close>

type_synonym reader = "bytes \<times> goerr option"

definition Segment_WriteEntry ::
  "write_env \<Rightarrow> string \<Rightarrow> reader \<Rightarrow> ValueMessage \<Rightarrow> Segment \<Rightarrow> disk \<Rightarrow> (goerr + int) \<times> Segment \<times> disk" where
  "Segment_WriteEntry w key r vm s d =
    (if ValueTypeF vm \<noteq> RAW_FILE \<and> ValueTypeF vm \<noteq> SEGMENT
     then (Inl (ErrText (''invalid value type for '' @ key)), s, d)
     else let header = BuildValueHeader key (ValueLength vm) (Checksum vm) CurrentValueHeaderVersion;
              needed = wrap_int64 (CalculateValueHeaderSize key + ValueLength vm);
              f = fbytes d (seg_path s)
     in case seg_file s of
       None \<Rightarrow> (Inl (ErrText (''segment file is closed: '' @ seg_path s)), s, d)
     | Some cur \<Rightarrow>
        (case we_header w of
           Some e \<Rightarrow>
             (let part = take (we_partial w) header in
              rollback w (Wrapped (''failed to write value header '' @ seg_path s) e)
                (cur + int (length part)) (write_at cur part f) s d)
         | None \<Rightarrow>
            let f1 = write_at cur header f; cur1 = cur + int (length header); (payload, rerr) = r
            in case (case we_copy w of Some e \<Rightarrow> Some e | None \<Rightarrow> rerr) of
                 Some e \<Rightarrow>
                   (let part = take (we_partial w) payload in
                    rollback w (Wrapped (''copy value to segment '' @ key) e)
                      (cur1 + int (length part)) (write_at cur1 part f1) s d)
               | None \<Rightarrow>
                   (let f2 = write_at cur1 payload f1; cur2 = cur1 + int (length payload) in
                    if int (length payload) \<noteq> ValueLength vm
                    then rollback w (Wrapped (''copy value to segment '' @ key) (ErrText ''unexpected EOF''))
                           cur2 f2 s d
                    else (Inr (seg_size s),
                          s\<lparr>seg_size := wrap_int64 (seg_size s + needed), seg_file := Some cur2,
                            numEntries := numEntries s + 1,
                            dataBytes := wrap_int64 (dataBytes s + ValueLength vm)\<rparr>,
                          d(seg_path s \<mapsto> f2)))))"

definition Segment_ReadEntry :: "Segment \<Rightarrow> disk \<Rightarrow> string \<Rightarrow> int \<Rightarrow> int \<Rightarrow> goerr + bytes" where
  "Segment_ReadEntry s d key off len =
    (if key = [] \<or> off < 0 \<or> len \<le> 0 then Inl (ErrText ''invalid key, offset or length'')
     else case d (seg_path s) of
       None \<Rightarrow> Inl (Wrapped ''failed to acquire segment fd'' (fd_not_found (seg_path s)))
     | Some f \<Rightarrow> Inr (take (nat len) (drop (nat (off + CalculateValueHeaderSize key)) f)))"

record finalize_env =
  fe_write :: "goerr option"
  fe_truncate :: "goerr option"
  fe_sync :: "goerr option"
  fe_close :: "goerr option"

definition finalize_ok :: finalize_env where
  "finalize_ok = \<lparr>fe_write = None, fe_truncate = None, fe_sync = None, fe_close = None\<rparr>"

definition Segment_Finalize :: "finalize_env \<Rightarrow> Segment \<Rightarrow> disk \<Rightarrow> goerr option \<times> Segment \<times> disk" where
  "Segment_Finalize w s d = (case seg_file s of
     None \<Rightarrow> (None, s, d)
   | Some cur \<Rightarrow>
      (let footer = BuildSegmentFooterWithVersion (seg_version s) (numEntries s) (dataBytes s)
       in case fe_write w of
         Some e \<Rightarrow> (Some (Wrapped (''failed to write segment footer '' @ seg_path s) e), s, d)
       | None \<Rightarrow>
          (let f1 = write_at cur footer (fbytes d (seg_path s));
               s1 = s\<lparr>seg_size := wrap_int64 (seg_size s + int (length footer)),
                      seg_file := Some (cur + int (length footer))\<rparr>
           in case fe_truncate w of
             Some e \<Rightarrow> (Some (Wrapped (''truncate segment '' @ seg_path s) e), s1, d(seg_path s \<mapsto> f1))
           | None \<Rightarrow>
              (let d2 = d(seg_path s \<mapsto> ftruncate (seg_size s1) f1)
               in case fe_sync w of
                 Some e \<Rightarrow> (Some (Wrapped (''failed to sync segment '' @ seg_path s) e), s1, d2)
               | None \<Rightarrow> (case fe_close w of
                   Some e \<Rightarrow> (Some (Wrapped (''failed to close segment '' @ seg_path s) e), s1, d2)
                 | None \<Rightarrow> (None, s1\<lparr>seg_file := None, reservedBy := []\<rparr>, d2))))))"

section \<open>Repairing an open segment\<close>

text \<open>The scan of \<^verbatim>\<open>validateOpenSegment\<close>: every exit truncates the file at the position of the
  entry it stopped at.  \<open>None\<close> means that the fuel ran out.\<close>

fun validate_loop :: "nat \<Rightarrow> Iterator \<Rightarrow> 32 word \<Rightarrow> int \<Rightarrow> (int \<times> 32 word \<times> int) option" where
  "validate_loop 0 it entries bytes = None"
| "validate_loop (Suc n) it entries bytes =
    (let pos = currentPos it in case Iterator_Next it of
       (Inl e, it') \<Rightarrow> Some (pos, entries, bytes)
     | (Inr e, it') \<Rightarrow>
         if ei_ValueLength e \<le> 0 \<or> length (ei_Key e) \<le> 0 then Some (pos, entries, bytes)
         else let nextPos = wrap_int64 (pos + wrap_int64 (ei_HeaderSize e + ei_ValueLength e)) in
           if nextPos > fileSize it then Some (pos, entries, bytes)
           else if ei_Checksum e \<noteq> 0
             \<and> crc32 (take (nat (ei_ValueLength e)) (drop (nat (pos + ei_HeaderSize e)) (it_file it))) \<noteq> ei_Checksum e
           then Some (pos, entries, bytes)
           else validate_loop n it' (entries + 1) (wrap_int64 (bytes + ei_ValueLength e)))"

definition validateOpenSegment :: "Segment \<Rightarrow> disk \<Rightarrow> (goerr + Segment \<times> disk) option" where
  "validateOpenSegment s d = (let f = fbytes d (seg_path s) in
     case validate_loop (length f + 2) (NewIterator f) 0 0 of
       None \<Rightarrow> None
     | Some (lastValidPos, entries, bytes) \<Rightarrow>
        Some (if lastValidPos < 0
              then Inl (Wrapped (''truncate at read error '' @ seg_path s) (ErrText ''invalid argument''))
              else Inr (s\<lparr>numEntries := entries, dataBytes := bytes, seg_size := lastValidPos,
                          seg_file := Some lastValidPos\<rparr>,
                        d(seg_path s \<mapsto> ftruncate lastValidPos f))))"

section \<open>The contents of a segment\<close>

text \<open>The abstract view: the list of entries appended so far.\<close>

type_synonym entry = "string \<times> bytes \<times> 32 word"

definition entry_bytes :: "entry \<Rightarrow> bytes" where
  "entry_bytes e = (case e of (key, val, c) \<Rightarrow>
     BuildValueHeader key (int (length val)) c CurrentValueHeaderVersion @ val)"

definition seg_bytes :: "entry list \<Rightarrow> bytes" where
  "seg_bytes es = concat (map entry_bytes es)"

definition payload_bytes :: "entry list \<Rightarrow> int" where
  "payload_bytes es = int (\<Sum>(key, val, c) \<leftarrow> es. length val)"

definition entry_ok :: "entry \<Rightarrow> bool" where
  "entry_ok e = (case e of (key, val, c) \<Rightarrow> key \<noteq> [] \<and> length key < 2 ^ 32 \<and> val \<noteq> [])"

definition file_ok :: "bytes \<Rightarrow> bool" where
  "file_ok f \<longleftrightarrow> int (length f) < 2 ^ 62"

definition seg_rep :: "Segment \<Rightarrow> disk \<Rightarrow> entry list \<Rightarrow> bool" where
  "seg_rep s d es \<longleftrightarrow> (\<exists>k. d (seg_path s) = Some (seg_bytes es @ replicate k NUL))
     \<and> seg_size s = int (length (seg_bytes es)) \<and> seg_file s = Some (seg_size s)
     \<and> numEntries s = word_of_nat (length es) \<and> dataBytes s = payload_bytes es
     \<and> list_all entry_ok es"

lemma seg_bytes_simps [simp]:
  "seg_bytes [] = []" "seg_bytes (e # es) = entry_bytes e @ seg_bytes es"
  "seg_bytes (es @ fs) = seg_bytes es @ seg_bytes fs"
  by (simp_all add: seg_bytes_def)

lemma payload_bytes_simps [simp]:
  "payload_bytes [] = 0" "payload_bytes ((k, v, c) # es) = int (length v) + payload_bytes es"
  "payload_bytes (es @ fs) = payload_bytes es + payload_bytes fs"
  by (simp_all add: payload_bytes_def)

lemma length_entry_bytes [simp]: "length (entry_bytes (k, v, c)) = 18 + length k + length v"
  by (simp add: entry_bytes_def)

lemma payload_bytes_bound: "0 \<le> payload_bytes es" "payload_bytes es \<le> int (length (seg_bytes es))"
  by (induction es) auto

lemma in_int64I: "\<bar>n\<bar> < 2 ^ 63 \<Longrightarrow> in_int64 n"
  by (auto simp: in_int64_def)

lemma write_at_end:
  assumes "pos = int (length a)"
  shows "write_at pos b (a @ replicate k c) = a @ b @ replicate (k - length b) c"
  by (simp add: assms write_at_def drop_replicate)

lemma ftruncate_append: "n = int (length a) \<Longrightarrow> ftruncate n (a @ b) = a"
  by (simp add: ftruncate_def)

section \<open>Appending and reading\<close>

text \<open>What a rollback that succeeds leaves: the entries as they were.\<close>

lemma rollback_rep:
  assumes "seg_rep s d es" "we_truncate w = None" "we_seek w = None" "f = seg_bytes es @ junk"
  shows "\<exists>s' d'. rollback w e cur f s d = (Inl e, s', d') \<and> seg_rep s' d' es \<and> s' = s"
  using assms by (simp add: rollback_def seg_rep_def Let_def ftruncate_append)

lemma WriteEntry_result:
  assumes "seg_rep s d es" "file_ok (seg_bytes es @ entry_bytes (key, val, Checksum vm))"
    and "key \<noteq> []" "length key < 2 ^ 32" "val \<noteq> []"
    and "ValueTypeF vm = RAW_FILE \<or> ValueTypeF vm = SEGMENT" "ValueLength vm = int (length val)"
    and "we_header w = None" "we_copy w = None"
  shows "\<exists>s' d'. Segment_WriteEntry w key (val, None) vm s d = (Inr (int (length (seg_bytes es))), s', d')
    \<and> seg_rep s' d' (es @ [(key, val, Checksum vm)]) \<and> seg_path s' = seg_path s
    \<and> (\<forall>p. p \<noteq> seg_path s \<longrightarrow> d' p = d p)"
proof -
  obtain k where f: "d (seg_path s) = Some (seg_bytes es @ replicate k NUL)"
    using assms(1) by (auto simp: seg_rep_def)
  let ?h = "BuildValueHeader key (int (length val)) (Checksum vm) CurrentValueHeaderVersion"
  let ?n = "int (length (seg_bytes es))"
  have h: "entry_bytes (key, val, Checksum vm) = ?h @ val" by (simp add: entry_bytes_def)
  have w1: "write_at ?n ?h (seg_bytes es @ replicate k NUL)
      = (seg_bytes es @ ?h) @ replicate (k - length ?h) NUL"
    by (simp add: write_at_end)
  have w2: "write_at (?n + int (length ?h)) val ((seg_bytes es @ ?h) @ replicate (k - length ?h) NUL)
      = seg_bytes es @ entry_bytes (key, val, Checksum vm) @ replicate (k - length ?h - length val) NUL"
    by (subst write_at_end) (simp_all add: h)
  have w: "\<exists>j. write_at (?n + (18 + int (length key))) val (write_at ?n
      (BuildValueHeader key (int (length val)) (Checksum vm) 1) (seg_bytes es @ replicate k NUL))
      = (seg_bytes es @ entry_bytes (key, val, Checksum vm)) @ replicate j NUL"
    using w1 w2 by (auto simp: add.assoc)
  have range: "in_int64 (?n + (18 + int (length key) + int (length val)))"
    "in_int64 (18 + int (length key) + int (length val))" "in_int64 (payload_bytes es + int (length val))"
    using assms(2) payload_bytes_bound [of es] by (auto intro!: in_int64I simp: file_ok_def)
  have st: "seg_size s = ?n" "seg_file s = Some ?n" "numEntries s = word_of_nat (length es)"
    "dataBytes s = payload_bytes es" "list_all entry_ok es"
    using assms(1) by (auto simp: seg_rep_def)
  show ?thesis
    using assms(3-9) st range w
    unfolding Segment_WriteEntry_def
    by (auto simp: fbytes_def f seg_rep_def Let_def CalculateValueHeaderSize_def entry_ok_def
        simp del: append_assoc)
qed

lemma WriteEntry_failure:
  assumes "seg_rep s d es" "we_truncate w = None" "we_seek w = None"
    and "Segment_WriteEntry w key r vm s d = (Inl e, s', d')"
  shows "s' = s \<and> seg_rep s' d' es"
proof -
  obtain k where f: "d (seg_path s) = Some (seg_bytes es @ replicate k NUL)"
    using assms(1) by (auto simp: seg_rep_def)
  have cur: "seg_file s = Some (int (length (seg_bytes es)))"
    using assms(1) by (simp add: seg_rep_def)
  let ?n = "int (length (seg_bytes es))"
  have junk: "\<exists>j. write_at pos data (seg_bytes es @ t) = seg_bytes es @ j" if "?n \<le> pos" for pos data t
    using that by (simp add: write_at_def le_nat_iff)
  have twice: "\<exists>j. write_at pos data (write_at ?n h (seg_bytes es @ t)) = seg_bytes es @ j"
    if "?n \<le> pos" for pos data h t
  proof -
    obtain j where "write_at ?n h (seg_bytes es @ t) = seg_bytes es @ j" using junk by blast
    then show ?thesis using junk [OF that] by simp
  qed
  have rb: "rollback w e' cur' f' s d = (Inl e, s', d') \<Longrightarrow> \<exists>j. f' = seg_bytes es @ j \<Longrightarrow> s' = s \<and> seg_rep s' d' es"
    for e' cur' f'
  proof -
    assume res: "rollback w e' cur' f' s d = (Inl e, s', d')" and "\<exists>j. f' = seg_bytes es @ j"
    then obtain j where "f' = seg_bytes es @ j" by blast
    from rollback_rep [OF assms(1-3) this, of e' cur'] show ?thesis using res by auto
  qed
  obtain payload rerr where r: "r = (payload, rerr)" by (cases r)
  let ?err = "case we_copy w of None \<Rightarrow> rerr | Some e \<Rightarrow> Some e"
  note simps = Segment_WriteEntry_def cur fbytes_def f r Let_def
  show ?thesis
  proof (cases "ValueTypeF vm \<noteq> RAW_FILE \<and> ValueTypeF vm \<noteq> SEGMENT")
    case True
    then show ?thesis using assms(1,4) by (simp add: simps)
  next
    case False
    consider (header) e' where "we_header w = Some e'" | (copy) e' where "we_header w = None" "?err = Some e'"
      | (full) "we_header w = None" "?err = None" by (meson option.exhaust)
    then show ?thesis
    proof cases
      case header
      then show ?thesis using assms(4) False by (intro rb, simp add: simps) (rule junk, simp)
    next
      case copy
      then show ?thesis using assms(4) False by (intro rb, simp add: simps) (rule twice, simp)
    next
      case full
      then show ?thesis using assms(4) False by (intro rb, simp add: simps split: if_splits) (rule twice, simp)
    qed
  qed
qed

lemma seg_rep_read:
  assumes "seg_rep s d (es @ (key, val, c) # fs)"
  shows "Segment_ReadEntry s d key (int (length (seg_bytes es))) (int (length val)) = Inr val"
proof -
  have ok: "key \<noteq> []" "val \<noteq> []" using assms by (auto simp: seg_rep_def entry_ok_def)
  have "nat (int (length (seg_bytes es)) + CalculateValueHeaderSize key) = length (seg_bytes es) + (18 + length key)"
    by (simp add: CalculateValueHeaderSize_def nat_add_distrib)
  then show ?thesis
    using assms ok by (auto simp: Segment_ReadEntry_def seg_rep_def entry_bytes_def)
qed

section \<open>Walking a file\<close>

definition entry_info :: "nat \<Rightarrow> entry \<Rightarrow> EntryInfo" where
  "entry_info off e = (case e of (key, val, c) \<Rightarrow>
     \<lparr>ei_Key = key, ei_Offset = int off, ei_HeaderSize = CalculateValueHeaderSize key,
      ei_ValueLength = int (length val), ei_Checksum = c, ei_Version = CurrentValueHeaderVersion\<rparr>)"

abbreviation at_pos :: "bytes \<Rightarrow> nat \<Rightarrow> Iterator" where
  "at_pos f n \<equiv> (NewIterator f)\<lparr>currentPos := int n\<rparr>"

lemma NewIterator_simps [simp]:
  "it_file (NewIterator f) = f" "currentPos (NewIterator f) = 0" "fileSize (NewIterator f) = int (length f)"
  "(NewIterator f)\<lparr>currentPos := 0\<rparr> = NewIterator f"
  by (simp_all add: NewIterator_def)

lemma Next_entry:
  assumes "file_ok (pre @ entry_bytes e @ r)" "entry_ok e" "length pre + 20 < length (pre @ entry_bytes e @ r)"
  shows "Iterator_Next (at_pos (pre @ entry_bytes e @ r) (length pre))
    = (Inr (entry_info (length pre) e), at_pos (pre @ entry_bytes e @ r) (length (pre @ entry_bytes e)))"
proof -
  obtain key val c where e: "e = (key, val, c)" by (cases e)
  let ?f = "pre @ BuildValueHeader key (int (length val)) c CurrentValueHeaderVersion @ val @ r"
  have f: "pre @ entry_bytes e @ r = ?f" by (simp add: e entry_bytes_def)
  have range: "in_int64 (int (length pre) + 18)" "in_int64 (18 + int (length key) + int (length val))"
    "in_int64 (int (length pre) + (18 + int (length key) + int (length val)))" "in_int64 (int (length val))"
    using assms(1) by (auto intro!: in_int64I simp: file_ok_def e)
  have hdr: "ReadValueHeaderAt ?f (int (length pre))
    = Inr \<lparr>vh_valueLen = int (length val), vh_headerSize = CalculateValueHeaderSize key,
          vh_keyLen = int (length key), vh_version = CurrentValueHeaderVersion, vh_checksum = c\<rparr>"
    using assms(2) range by (intro ReadValueHeaderAt_Build) (auto simp: e entry_ok_def)
  have "nat (int (length pre) + 18) = length pre + 18" by simp
  then have key: "ReadAt ?f (length key) (int (length pre) + 18) = Inr key"
    by (simp add: ReadAt_def header_slices [of key _ c 1 "[]", simplified])
  show ?thesis
    unfolding f using assms(3) range
    by (simp add: Iterator_Next_def NewIterator_def hdr [unfolded segment_consts] key [unfolded segment_consts] e entry_info_def
        CalculateValueHeaderSize_def)
qed

text \<open>All entries an iterator yields, with the error that ends the walk.\<close>

fun walk :: "nat \<Rightarrow> Iterator \<Rightarrow> (EntryInfo list \<times> goerr) option" where
  "walk 0 it = None"
| "walk (Suc n) it = (case Iterator_Next it of
     (Inl e, it') \<Rightarrow> Some ([], e)
   | (Inr x, it') \<Rightarrow> (case walk n it' of None \<Rightarrow> None | Some (xs, e) \<Rightarrow> Some (x # xs, e)))"

fun entry_infos :: "nat \<Rightarrow> entry list \<Rightarrow> EntryInfo list" where
  "entry_infos off [] = []"
| "entry_infos off (e # es) = entry_info off e # entry_infos (off + length (entry_bytes e)) es"

lemma entry_min: "entry_ok e \<Longrightarrow> 20 \<le> length (entry_bytes e)"
  by (cases e) (auto simp: entry_ok_def Suc_le_eq neq_Nil_conv)

lemma Next_end: "length f \<le> pos + 20 \<Longrightarrow> Iterator_Next (at_pos f pos) = (Inl io_EOF, at_pos f pos)"
  by (simp add: Iterator_Next_def NewIterator_def)

lemma walk_entries:
  assumes "list_all entry_ok es" "file_ok (pre @ seg_bytes es @ footer)" "length footer = 20"
  shows "walk (Suc (length es)) (at_pos (pre @ seg_bytes es @ footer) (length pre))
    = Some (entry_infos (length pre) es, io_EOF)"
  using assms
proof (induction es arbitrary: pre)
  case Nil
  then show ?case using Next_end by simp
next
  case (Cons e es)
  have "20 \<le> length (entry_bytes e)" using Cons.prems entry_min by simp
  then have "Iterator_Next (at_pos (pre @ entry_bytes e @ seg_bytes es @ footer) (length pre))
    = (Inr (entry_info (length pre) e),
       at_pos (pre @ entry_bytes e @ seg_bytes es @ footer) (length (pre @ entry_bytes e)))"
    using Cons.prems by (intro Next_entry) auto
  then show ?case
    using Cons.IH [of "pre @ entry_bytes e"] Cons.prems by simp
qed

lemma Finalize_rep:
  assumes "seg_rep s d es" "file_ok (seg_bytes es)"
  shows "\<exists>s' d'. Segment_Finalize finalize_ok s d = (None, s', d') \<and> seg_file s' = None \<and> reservedBy s' = []
    \<and> d' (seg_path s) = Some (seg_bytes es
         @ BuildSegmentFooterWithVersion (seg_version s) (word_of_nat (length es)) (payload_bytes es))"
proof -
  obtain k where f: "d (seg_path s) = Some (seg_bytes es @ replicate k NUL)"
    using assms(1) by (auto simp: seg_rep_def)
  let ?ftr = "BuildSegmentFooterWithVersion (seg_version s) (word_of_nat (length es)) (payload_bytes es)"
  have w: "write_at (int (length (seg_bytes es))) ?ftr (seg_bytes es @ replicate k NUL)
      = (seg_bytes es @ ?ftr) @ replicate (k - 20) NUL"
    by (simp add: write_at_end)
  have "in_int64 (int (length (seg_bytes es)) + 20)"
    using assms(2) by (auto intro!: in_int64I simp: file_ok_def)
  moreover have "ftruncate (int (length (seg_bytes es)) + 20) ((seg_bytes es @ ?ftr) @ replicate (k - 20) NUL)
      = seg_bytes es @ ?ftr"
    by (rule ftruncate_append) simp
  ultimately show ?thesis
    using assms(1) unfolding Segment_Finalize_def
    by (simp add: seg_rep_def finalize_ok_def Let_def fbytes_def f w del: append_assoc)
qed

section \<open>The repair scan\<close>

definition checksum_ok :: "entry \<Rightarrow> bool" where
  "checksum_ok e = (case e of (key, val, c) \<Rightarrow> c = 0 \<or> crc32 val = c)"

lemma Next_zeros: "\<exists>e. fst (Iterator_Next (at_pos (pre @ replicate k NUL) (length pre))) = Inl e"
proof (cases "k \<le> 20")
  case False
  then have "ReadValueHeaderAt (pre @ replicate k NUL) (int (length pre)) = Inl io_EOF"
    by (simp add: ReadValueHeaderAt_def Pread_def)
  with False show ?thesis by (simp add: Iterator_Next_def NewIterator_def)
qed (simp add: Iterator_Next_def NewIterator_def)

lemma validate_entries:
  assumes "list_all entry_ok es" "list_all checksum_ok es" "file_ok (pre @ seg_bytes es @ replicate k NUL)"
    and "0 < k \<or> (\<forall>e \<in> set es. 20 < length (entry_bytes e))"
    and "length es < n" "0 \<le> b" "b \<le> int (length pre)"
  shows "validate_loop n (at_pos (pre @ seg_bytes es @ replicate k NUL) (length pre)) m b
    = Some (int (length (pre @ seg_bytes es)), m + word_of_nat (length es), b + payload_bytes es)"
  using assms
proof (induction es arbitrary: pre n m b)
  case Nil
  obtain n' where "n = Suc n'" using Nil.prems(5) by (cases n) auto
  moreover obtain e where "fst (Iterator_Next (at_pos (pre @ replicate k NUL) (length pre))) = Inl e"
    using Next_zeros by blast
  ultimately show ?case
    by (cases "Iterator_Next (at_pos (pre @ replicate k NUL) (length pre))") simp
next
  case (Cons e es)
  obtain key val c where e: "e = (key, val, c)" by (cases e)
  obtain n' where n: "n = Suc n'" "length es < n'" using Cons.prems(5) by (cases n) auto
  let ?f = "pre @ entry_bytes e @ seg_bytes es @ replicate k NUL"
  have ok: "entry_ok e" "checksum_ok e" using Cons.prems by simp_all
  have len: "20 < length (entry_bytes e) + k" using Cons.prems(4) entry_min [OF ok(1)] by auto
  have nxt: "Iterator_Next (at_pos ?f (length pre))
    = (Inr (entry_info (length pre) e), at_pos ?f (length (pre @ entry_bytes e)))"
    using Cons.prems len by (intro Next_entry) auto
  have range: "in_int64 (18 + int (length key) + int (length val))"
    "in_int64 (int (length pre) + (18 + int (length key) + int (length val)))" "in_int64 (b + int (length val))"
    using Cons.prems by (auto intro!: in_int64I simp: file_ok_def e)
  have val: "take (length val) (drop (length pre + (18 + length key)) ?f) = val"
    by (simp add: e entry_bytes_def)
  have pos: "nat (int (length pre) + (18 + int (length key))) = length pre + (18 + length key)" by simp
  have "validate_loop n' (at_pos ((pre @ entry_bytes e) @ seg_bytes es @ replicate k NUL) (length (pre @ entry_bytes e)))
      (m + 1) (b + int (length val))
    = Some (int (length ((pre @ entry_bytes e) @ seg_bytes es)), (m + 1) + word_of_nat (length es),
        (b + int (length val)) + payload_bytes es)"
    using Cons.prems n by (intro Cons.IH) (auto simp: e)
  then show ?case
    using ok range val pos
    by (simp add: n nxt [unfolded e] e entry_info_def CalculateValueHeaderSize_def Let_def entry_ok_def
        checksum_ok_def add.assoc)
qed

section \<open>The manager\<close>

record Manager =
  segmentsPath :: string
  segmentSize :: int
  segments :: "string list"
  segMap :: "string \<rightharpoonup> Segment"
  openSegments :: "string list"

definition RegisterSegment :: "Manager \<Rightarrow> string \<Rightarrow> 32 word \<Rightarrow> int \<Rightarrow> Manager" where
  "RegisterSegment sm path entries bytes =
     sm\<lparr>segments := segments sm @ [path],
        segMap := (segMap sm)(path \<mapsto> NewSegment path entries bytes bytes (segmentSize sm))\<rparr>"

definition Manager_ReadEntry :: "Manager \<Rightarrow> disk \<Rightarrow> string \<Rightarrow> string \<Rightarrow> int \<Rightarrow> int \<Rightarrow> goerr + bytes" where
  "Manager_ReadEntry sm d userKey segPath off len =
    (if segPath = [] \<or> off < 0 \<or> len \<le> 0 then Inl (ErrText ''invalid segment path, offset or length'')
     else case segMap sm segPath of
       None \<Rightarrow> Inl (ErrText (''segment not found: '' @ segPath))
     | Some seg \<Rightarrow> Segment_ReadEntry seg d userKey off len)"

definition new_path :: "Manager \<Rightarrow> nat \<Rightarrow> string" where
  "new_path sm now = segmentsPath sm @ ''/segment_'' @ dec now @ ''.seg''"

definition createNewSegmentWithReservationLocked ::
  "goerr option \<Rightarrow> goerr option \<Rightarrow> nat \<Rightarrow> string \<Rightarrow> Manager \<Rightarrow> disk \<Rightarrow> (goerr + string) \<times> Manager \<times> disk" where
  "createNewSegmentWithReservationLocked openErr truncErr now callerID sm d =
    (let path = new_path sm now in
     case openErr of
       Some e \<Rightarrow> (Inl (Wrapped (''failed to create segment file '' @ path) e), sm, d)
     | None \<Rightarrow> (case truncErr of
         Some e \<Rightarrow> (Inl (Wrapped (''truncate segment file '' @ path) e), sm, d(path \<mapsto> fbytes d path))
       | None \<Rightarrow>
          (let seg = (NewSegmentWithReservation path 0 0 0 (segmentSize sm) callerID)\<lparr>seg_file := Some 0\<rparr>
           in (Inr path,
               sm\<lparr>segments := segments sm @ [path], segMap := (segMap sm)(path \<mapsto> seg),
                  openSegments := openSegments sm @ [path]\<rparr>,
               d(path \<mapsto> ftruncate (segmentSize sm) (fbytes d path))))))"

text \<open>The loop over the open segments; \<open>busy\<close> are those whose lock a writer holds.\<close>

fun find_open :: "(string \<Rightarrow> bool) \<Rightarrow> string \<Rightarrow> int \<Rightarrow> (string \<rightharpoonup> Segment) \<Rightarrow> string list \<Rightarrow> (string \<times> Segment) option" where
  "find_open busy callerID needed segs [] = None"
| "find_open busy callerID needed segs (p # ps) = (case segs p of
     None \<Rightarrow> find_open busy callerID needed segs ps
   | Some seg \<Rightarrow>
       if busy p then find_open busy callerID needed segs ps
       else if seg_file seg \<noteq> None \<and> Remaining seg \<ge> needed
            \<and> (reservedBy seg = [] \<or> reservedBy seg = callerID)
       then (case Segment_Reserve seg callerID of
               (True, seg') \<Rightarrow> Some (p, seg')
             | (False, _) \<Rightarrow> find_open busy callerID needed segs ps)
       else find_open busy callerID needed segs ps)"

definition AcquireOpenSegmentWithReservation ::
  "goerr option \<Rightarrow> goerr option \<Rightarrow> nat \<Rightarrow> (string \<Rightarrow> bool) \<Rightarrow> string \<Rightarrow> int \<Rightarrow> Manager \<Rightarrow> disk
     \<Rightarrow> (goerr + string) \<times> Manager \<times> disk" where
  "AcquireOpenSegmentWithReservation openErr truncErr now busy callerID needed sm d =
    (if callerID = [] then (Inl (ErrText ''callerID cannot be empty''), sm, d)
     else case find_open busy callerID needed (segMap sm) (openSegments sm) of
       Some (p, seg) \<Rightarrow> (Inr p, sm\<lparr>segMap := (segMap sm)(p \<mapsto> seg)\<rparr>, d)
     | None \<Rightarrow> createNewSegmentWithReservationLocked openErr truncErr now callerID sm d)"

definition ReleaseAllSegments :: "string \<Rightarrow> Manager \<Rightarrow> goerr option \<times> Manager" where
  "ReleaseAllSegments callerID sm =
    (if callerID = [] then (Some (ErrText ''callerID cannot be empty''), sm)
     else (None, sm\<lparr>segMap := foldl (\<lambda>m p. case m p of None \<Rightarrow> m
                                       | Some seg \<Rightarrow> m(p \<mapsto> snd (Segment_Release seg callerID)))
                                    (segMap sm) (openSegments sm)\<rparr>))"

text \<open>Removal from a slice by moving the last element into the gap.\<close>

definition remove_swap :: "'a \<Rightarrow> 'a list \<Rightarrow> 'a list" where
  "remove_swap x xs = (if x \<notin> set xs then xs
     else let i = length (takeWhile (\<lambda>y. y \<noteq> x) xs) in butlast (xs[i := last xs]))"

definition FinalizeSegment :: "finalize_env \<Rightarrow> string \<Rightarrow> Manager \<Rightarrow> disk \<Rightarrow> goerr option \<times> Manager \<times> disk" where
  "FinalizeSegment w p sm d = (case segMap sm p of
     None \<Rightarrow> (None, sm, d)
   | Some seg \<Rightarrow> (case Segment_Finalize w seg d of
       (Some e, seg', d') \<Rightarrow> (Some e, sm\<lparr>segMap := (segMap sm)(p \<mapsto> seg')\<rparr>, d')
     | (None, seg', d') \<Rightarrow> (None, sm\<lparr>segMap := (segMap sm)(p \<mapsto> seg'),
                                     openSegments := remove_swap p (openSegments sm)\<rparr>, d')))"

definition RemoveSegment :: "string \<Rightarrow> Manager \<Rightarrow> Segment option \<times> Manager" where
  "RemoveSegment p sm = (segMap sm p,
     sm\<lparr>segMap := (segMap sm)(p := None), segments := remove_swap p (segments sm),
        openSegments := remove_swap p (openSegments sm)\<rparr>)"

definition GetSegmentByPath :: "Manager \<Rightarrow> string \<Rightarrow> Segment option" where
  "GetSegmentByPath sm path = segMap sm path"

section \<open>The manager's invariant\<close>

text \<open>The list, the map and the open list agree: the list and the map hold the same
  segments, and the open list holds exactly those with an open file.\<close>

definition mgr_inv :: "Manager \<Rightarrow> bool" where
  "mgr_inv sm \<longleftrightarrow> distinct (segments sm) \<and> set (segments sm) = dom (segMap sm) \<and> distinct (openSegments sm)
     \<and> (\<forall>p s. segMap sm p = Some s \<longrightarrow> seg_path s = p \<and> (seg_file s \<noteq> None \<longleftrightarrow> p \<in> set (openSegments sm)))
     \<and> set (openSegments sm) \<subseteq> dom (segMap sm)"

lemma mset_remove_swap: "mset (remove_swap x xs) = mset xs - {#x#}"
proof (cases "x \<in> set xs")
  case True
  then obtain as bs where xs: "xs = as @ x # bs" "x \<notin> set as" by (meson split_list_first)
  have "takeWhile (\<lambda>y. y \<noteq> x) (as @ x # bs) = as @ takeWhile (\<lambda>y. y \<noteq> x) (x # bs)"
    using xs(2) by (intro takeWhile_append2) auto
  then have i: "remove_swap x xs = butlast (xs[length as := last xs])"
    using True by (simp add: xs remove_swap_def)
  show ?thesis
  proof (cases bs rule: rev_cases)
    case Nil
    then show ?thesis using xs i by simp
  next
    case (snoc cs b)
    then have "remove_swap x xs = as @ b # cs"
      using xs i by (simp add: butlast_append)
    then show ?thesis using snoc xs by simp
  qed
qed (simp add: remove_swap_def)

lemma remove_swap_simps [simp]:
  "distinct xs \<Longrightarrow> distinct (remove_swap x xs)" "distinct xs \<Longrightarrow> set (remove_swap x xs) = set xs - {x}"
proof -
  assume d: "distinct xs"
  have "mset (remove_swap x xs) = mset (remove1 x xs)" by (simp add: mset_remove_swap)
  then show "distinct (remove_swap x xs)" "set (remove_swap x xs) = set xs - {x}"
    using d mset_eq_imp_distinct_iff mset_eq_setD by (metis distinct_remove1, metis set_remove1_eq)
qed

lemma find_open_props:
  assumes "find_open busy c needed segs ps = Some (p, seg')" "c \<noteq> []"
  shows "p \<in> set ps \<and> \<not> busy p \<and> (\<exists>seg. segs p = Some seg \<and> seg' = seg\<lparr>reservedBy := c\<rparr> \<and> seg_file seg \<noteq> None
    \<and> Remaining seg \<ge> needed \<and> (reservedBy seg = [] \<or> reservedBy seg = c))"
  using assms
  by (induction busy c needed segs ps rule: find_open.induct)
    (auto simp: Segment_Reserve_def split: option.splits if_splits prod.splits bool.splits)

lemma mgr_invI:
  assumes "distinct (segments sm)" "set (segments sm) = dom (segMap sm)" "distinct (openSegments sm)"
    and "\<And>p s. segMap sm p = Some s \<Longrightarrow> seg_path s = p \<and> (seg_file s \<noteq> None \<longleftrightarrow> p \<in> set (openSegments sm))"
    and "set (openSegments sm) \<subseteq> dom (segMap sm)"
  shows "mgr_inv sm"
  unfolding mgr_inv_def using assms by blast

lemma mgr_inv_lists:
  assumes "mgr_inv sm"
  shows "distinct (segments sm)" "set (segments sm) = dom (segMap sm)" "distinct (openSegments sm)"
    "set (openSegments sm) \<subseteq> dom (segMap sm)"
  using assms unfolding mgr_inv_def by blast+

lemma mgr_invD:
  "mgr_inv sm \<Longrightarrow> segMap sm p = Some s \<Longrightarrow> seg_path s = p \<and> (seg_file s \<noteq> None \<longleftrightarrow> p \<in> set (openSegments sm))"
  unfolding mgr_inv_def by blast

text \<open>An update of one segment object in place.\<close>

lemma mgr_inv_update:
  assumes "mgr_inv sm" "segMap sm p = Some seg" "seg_path seg' = p" "seg_file seg' \<noteq> None \<longleftrightarrow> seg_file seg \<noteq> None"
  shows "mgr_inv (sm\<lparr>segMap := (segMap sm)(p \<mapsto> seg')\<rparr>)"
proof (rule mgr_invI, goal_cases)
  case (4 q t)
  then show ?case
    using mgr_invD [OF assms(1,2)] mgr_invD [OF assms(1), of q t] assms(3,4) by (cases "q = p") auto
qed (use mgr_inv_lists [OF assms(1)] assms(2) in auto)

lemma mgr_inv_close:
  assumes "mgr_inv sm" "segMap sm p = Some seg" "seg_path seg' = p" "seg_file seg' = None"
  shows "mgr_inv (sm\<lparr>segMap := (segMap sm)(p \<mapsto> seg'), openSegments := remove_swap p (openSegments sm)\<rparr>)"
proof (rule mgr_invI, goal_cases)
  case (4 q t)
  then show ?case
    using mgr_inv_lists(3) [OF assms(1)] mgr_invD [OF assms(1), of q t] assms(3,4) by (cases "q = p") auto
qed (use mgr_inv_lists [OF assms(1)] assms(2) in auto)

lemma mgr_inv_add_closed:
  assumes "mgr_inv sm" "p \<notin> dom (segMap sm)" "seg_path seg = p" "seg_file seg = None"
  shows "mgr_inv (sm\<lparr>segments := segments sm @ [p], segMap := (segMap sm)(p \<mapsto> seg)\<rparr>)"
proof (rule mgr_invI, goal_cases)
  case (4 q t)
  then show ?case
    using mgr_inv_lists(4) [OF assms(1)] mgr_invD [OF assms(1), of q t] assms(2-) by (cases "q = p") auto
qed (use mgr_inv_lists [OF assms(1)] assms(2) in auto)

lemma mgr_inv_add_open:
  assumes "mgr_inv sm" "p \<notin> dom (segMap sm)" "seg_path seg = p" "seg_file seg \<noteq> None"
  shows "mgr_inv (sm\<lparr>segments := segments sm @ [p], segMap := (segMap sm)(p \<mapsto> seg),
       openSegments := openSegments sm @ [p]\<rparr>)"
proof (rule mgr_invI, goal_cases)
  case (4 q t)
  then show ?case
    using mgr_invD [OF assms(1), of q t] assms(2-) by (cases "q = p") auto
qed (use mgr_inv_lists [OF assms(1)] assms(2) in auto)

lemma mgr_inv_remove:
  assumes "mgr_inv sm"
  shows "mgr_inv (snd (RemoveSegment p sm))"
proof (rule mgr_invI, goal_cases)
  case (4 q t)
  then show ?case
    using mgr_inv_lists(3) [OF assms(1)] mgr_invD [OF assms(1), of q t]
    by (cases "q = p") (auto simp: RemoveSegment_def)
qed (use mgr_inv_lists [OF assms(1)] in \<open>auto simp: RemoveSegment_def\<close>)

lemma mgr_inv_release: "mgr_inv sm \<Longrightarrow> mgr_inv (snd (ReleaseAllSegments c sm))"
proof -
  assume inv: "mgr_inv sm"
  let ?f = "\<lambda>m p. case m p of None \<Rightarrow> m | Some seg \<Rightarrow> m(p \<mapsto> snd (Segment_Release seg c))"
  have "mgr_inv (sm\<lparr>segMap := foldl ?f (segMap sm) ps\<rparr>)" for ps
  proof (rule foldl_invariant [where I = "\<lambda>m. mgr_inv (sm\<lparr>segMap := m\<rparr>)"])
    fix m p assume m: "mgr_inv (sm\<lparr>segMap := m\<rparr>)"
    show "mgr_inv (sm\<lparr>segMap := ?f m p\<rparr>)"
    proof (cases "m p")
      case (Some seg)
      then have "seg_path seg = p" using mgr_invD [OF m] by simp
      then show ?thesis
        using mgr_inv_update [OF m, of p seg "snd (Segment_Release seg c)"] Some
        by (simp add: Segment_Release_def)
    qed (use m in simp)
  qed (use inv in simp)
  then show ?thesis using inv by (simp add: ReleaseAllSegments_def)
qed

lemma Finalize_shape:
  assumes "Segment_Finalize w s d = (r, s', d')"
  shows "seg_path s' = seg_path s \<and> (r = None \<longrightarrow> seg_file s' = None) \<and> (r \<noteq> None \<longrightarrow> seg_file s \<noteq> None \<and> seg_file s' \<noteq> None)"
  using assms by (auto simp: Segment_Finalize_def Let_def split: option.splits)

lemma WriteEntry_shape:
  assumes "Segment_WriteEntry w key r vm s d = (res, s', d')"
  shows "seg_path s' = seg_path s \<and> (seg_file s' \<noteq> None \<longleftrightarrow> seg_file s \<noteq> None) \<and> reservedBy s' = reservedBy s"
  using assms
  by (auto simp: Segment_WriteEntry_def rollback_def Let_def split: option.splits if_splits prod.splits)

text \<open>The steps of the manager's clients: the compactor and the recompactor.\<close>

inductive mgr_step :: "Manager \<times> disk \<Rightarrow> Manager \<times> disk \<Rightarrow> bool" where
  acquire: "\<lbrakk> new_path sm now \<notin> dom (segMap sm);
     AcquireOpenSegmentWithReservation oe te now busy c needed sm d = (r, sm', d') \<rbrakk> \<Longrightarrow> mgr_step (sm, d) (sm', d')"
| release: "ReleaseAllSegments c sm = (r, sm') \<Longrightarrow> mgr_step (sm, d) (sm', d)"
| finalize: "FinalizeSegment w p sm d = (r, sm', d') \<Longrightarrow> mgr_step (sm, d) (sm', d')"
| append: "\<lbrakk> segMap sm p = Some seg; Segment_WriteEntry w key rd vm seg d = (r, seg', d') \<rbrakk>
     \<Longrightarrow> mgr_step (sm, d) (sm\<lparr>segMap := (segMap sm)(p \<mapsto> seg')\<rparr>, d')"
| remove: "RemoveSegment p sm = (r, sm') \<Longrightarrow> mgr_step (sm, d) (sm', d)"
| register: "p \<notin> dom (segMap sm) \<Longrightarrow> mgr_step (sm, d) (RegisterSegment sm p n b, d)"

lemma mgr_inv_create:
  assumes inv: "mgr_inv sm" and fresh: "new_path sm now \<notin> dom (segMap sm)"
    and "createNewSegmentWithReservationLocked oe te now c sm d = (r, sm', d')"
  shows "mgr_inv sm'"
  using assms(3) inv
    mgr_inv_add_open [OF inv fresh, of "(NewSegmentWithReservation (new_path sm now) 0 0 0 (segmentSize sm) c)\<lparr>seg_file := Some 0\<rparr>"]
  by (auto simp: createNewSegmentWithReservationLocked_def Let_def NewSegmentWithReservation_def NewSegment_def
      split: option.splits)

lemma mgr_inv_acquire:
  assumes inv: "mgr_inv sm" and fresh: "new_path sm now \<notin> dom (segMap sm)"
    and acq: "AcquireOpenSegmentWithReservation oe te now busy c needed sm d = (r, sm', d')"
  shows "mgr_inv sm'"
proof (cases "c = [] \<or> find_open busy c needed (segMap sm) (openSegments sm) = None")
  case True
  then have "c = [] \<and> sm' = sm \<or> createNewSegmentWithReservationLocked oe te now c sm d = (r, sm', d')"
    using acq by (auto simp: AcquireOpenSegmentWithReservation_def split: if_splits)
  then show ?thesis using inv mgr_inv_create [OF inv fresh] by blast
next
  case False
  then obtain p seg' where f: "find_open busy c needed (segMap sm) (openSegments sm) = Some (p, seg')" by auto
  then obtain seg where seg: "segMap sm p = Some seg" "seg' = seg\<lparr>reservedBy := c\<rparr>"
    using find_open_props False by blast
  then have "sm' = sm\<lparr>segMap := (segMap sm)(p \<mapsto> seg')\<rparr>" "seg_path seg = p"
    using False acq f mgr_invD [OF inv seg(1)] by (auto simp: AcquireOpenSegmentWithReservation_def)
  then show ?thesis using mgr_inv_update [OF inv seg(1)] seg(2) by simp
qed

lemma acquire_result:
  assumes fresh: "new_path sm now \<notin> dom (segMap sm)"
    and acq: "AcquireOpenSegmentWithReservation oe te now busy c needed sm d = (Inr p, sm', d')"
  shows "(\<exists>seg. segMap sm' p = Some seg \<and> reservedBy seg = c \<and> p \<in> set (openSegments sm'))
    \<and> (\<forall>seg. segMap sm p = Some seg \<longrightarrow> reservedBy seg \<in> {[], c} \<and> needed \<le> Remaining seg)
    \<and> (\<forall>q. q \<noteq> p \<longrightarrow> segMap sm' q = segMap sm q)"
proof -
  have c: "c \<noteq> []" using acq by (auto simp: AcquireOpenSegmentWithReservation_def)
  show ?thesis
  proof (cases "find_open busy c needed (segMap sm) (openSegments sm)")
    case None
    then have "createNewSegmentWithReservationLocked oe te now c sm d = (Inr p, sm', d')"
      using acq c by (simp add: AcquireOpenSegmentWithReservation_def)
    then show ?thesis
      using fresh by (auto simp: createNewSegmentWithReservationLocked_def Let_def NewSegmentWithReservation_def
          split: option.splits)
  next
    case (Some x)
    then obtain q seg' where f: "find_open busy c needed (segMap sm) (openSegments sm) = Some (q, seg')"
      by (cases x) auto
    then have "p = q" "sm' = sm\<lparr>segMap := (segMap sm)(q \<mapsto> seg')\<rparr>"
      using acq c by (auto simp: AcquireOpenSegmentWithReservation_def)
    then show ?thesis using find_open_props [OF f c] by auto
  qed
qed

lemma mgr_inv_finalize:
  assumes "mgr_inv sm" "FinalizeSegment w p sm d = (r, sm', d')"
  shows "mgr_inv sm'"
proof (cases "segMap sm p")
  case (Some seg)
  obtain e seg' d2 where fin: "Segment_Finalize w seg d = (e, seg', d2)" by (metis prod_cases3)
  have path: "seg_path seg = p" using mgr_invD [OF assms(1) Some] by simp
  show ?thesis
    using assms(2) Some fin path Finalize_shape [OF fin] mgr_inv_update [OF assms(1) Some, of seg']
      mgr_inv_close [OF assms(1) Some, of seg']
    by (cases e) (auto simp: FinalizeSegment_def)
qed (use assms in \<open>simp add: FinalizeSegment_def\<close>)

lemma mgr_inv_step:
  assumes "mgr_step (sm, d) (sm', d')" "mgr_inv sm"
  shows "mgr_inv sm'"
  using assms
proof cases
  case (append p seg w key rd vm r seg')
  moreover have "seg_path seg = p" using append mgr_invD [OF assms(2)] by blast
  ultimately show ?thesis
    using mgr_inv_update [OF assms(2)] WriteEntry_shape by simp
next
  case (register p n b)
  then show ?thesis
    using mgr_inv_add_closed [OF assms(2)] by (simp add: RegisterSegment_def NewSegment_def)
qed (use assms(2) mgr_inv_acquire mgr_inv_finalize mgr_inv_release mgr_inv_remove in \<open>metis snd_conv\<close>)+

section \<open>Properties\<close>

text \<open>C14: a segment is an append-only log.  Appending an entry to a segment that holds the
  entries \<open>es\<close> returns the offset the entry starts at, leaves a segment that holds \<open>es\<close> and
  the new entry, and every entry, old or new, is read back from its offset.\<close>

theorem append_then_read:
  assumes "seg_rep s d es" "file_ok (seg_bytes es @ entry_bytes (key, val, Checksum vm))"
    and "key \<noteq> []" "length key < 2 ^ 32" "val \<noteq> []"
    and "ValueTypeF vm = RAW_FILE \<or> ValueTypeF vm = SEGMENT" "ValueLength vm = int (length val)"
    and "we_header w = None" "we_copy w = None"
    and "es @ [(key, val, Checksum vm)] = fs @ (k, v, c) # gs"
  shows "\<exists>s' d'. Segment_WriteEntry w key (val, None) vm s d = (Inr (int (length (seg_bytes es))), s', d')
    \<and> seg_rep s' d' (es @ [(key, val, Checksum vm)])
    \<and> Segment_ReadEntry s' d' k (int (length (seg_bytes fs))) (int (length v)) = Inr v"
proof -
  obtain s' d' where w: "Segment_WriteEntry w key (val, None) vm s d = (Inr (int (length (seg_bytes es))), s', d')"
    and rep: "seg_rep s' d' (es @ [(key, val, Checksum vm)])"
    using WriteEntry_result [OF assms(1-9)] by blast
  then show ?thesis using seg_rep_read [of s' d' fs k v c gs] assms(10) by auto
qed

definition demo_segment :: Segment where
  "demo_segment = (NewSegment ''s'' 0 0 0 100)\<lparr>seg_file := Some 0\<rparr>"

lemma demo_rep: "seg_rep demo_segment [''s'' \<mapsto> replicate 100 NUL] []"
  by (auto simp: seg_rep_def demo_segment_def NewSegment_def)

theorem append_then_read_witness:
  "\<exists>s' d'. Segment_WriteEntry write_ok ''k'' (''v'', None) (vm0\<lparr>ValueTypeF := RAW_FILE, ValueLength := 1\<rparr>)
      demo_segment [''s'' \<mapsto> replicate 100 NUL] = (Inr 0, s', d')
    \<and> Segment_ReadEntry s' d' ''k'' 0 1 = Inr ''v''"
  using append_then_read [OF demo_rep, of "''k''" "''v''" "vm0\<lparr>ValueTypeF := RAW_FILE, ValueLength := 1\<rparr>"
      write_ok "[]" "''k''" "''v''" 0 "[]"]
  by (auto simp: file_ok_def write_ok_def)

text \<open>C33: an append that fails leaves no trace.  Whatever part of the header or the payload
  reached the file, once the rollback succeeds the segment is unchanged, holds the same
  entries, and each of them is still read back.\<close>

theorem failed_append_keeps:
  assumes "seg_rep s d (fs @ (k, v, c) # gs)" "we_truncate w = None" "we_seek w = None"
    and "Segment_WriteEntry w key r vm s d = (Inl e, s', d')"
  shows "s' = s \<and> seg_rep s' d' (fs @ (k, v, c) # gs)
    \<and> Segment_ReadEntry s' d' k (int (length (seg_bytes fs))) (int (length v)) = Inr v"
  using WriteEntry_failure [OF assms] seg_rep_read by blast

definition demo_entry_file :: bytes where
  "demo_entry_file = seg_bytes [(''a'', ''xyz'', 0)] @ replicate 10 NUL"

definition demo_segment1 :: Segment where
  "demo_segment1 = (NewSegment ''s'' 1 3 22 100)\<lparr>seg_file := Some 22\<rparr>"

lemma demo_rep1: "seg_rep demo_segment1 [''s'' \<mapsto> demo_entry_file] ([] @ (''a'', ''xyz'', 0) # [])"
  by (auto simp: seg_rep_def demo_segment1_def NewSegment_def demo_entry_file_def entry_ok_def)

theorem failed_append_keeps_witness:
  "\<exists>e s' d'. Segment_WriteEntry (write_ok\<lparr>we_copy := Some (PathError ENOSPC), we_partial := 2\<rparr>) ''b''
      (''wwww'', None) (vm0\<lparr>ValueTypeF := RAW_FILE, ValueLength := 4\<rparr>)
      demo_segment1 [''s'' \<mapsto> demo_entry_file] = (Inl e, s', d')
    \<and> Segment_ReadEntry s' d' ''a'' 0 3 = Inr ''xyz''"
proof -
  let ?w = "write_ok\<lparr>we_copy := Some (PathError ENOSPC), we_partial := 2\<rparr>"
  let ?run = "Segment_WriteEntry ?w ''b'' (''wwww'', None) (vm0\<lparr>ValueTypeF := RAW_FILE, ValueLength := 4\<rparr>)
      demo_segment1 [''s'' \<mapsto> demo_entry_file]"
  obtain r s' d' where run: "?run = (r, s', d')" by (metis prod_cases3)
  then obtain e where "r = Inl e"
    by (auto simp: Segment_WriteEntry_def rollback_def demo_segment1_def write_ok_def Let_def)
  with run failed_append_keeps [OF demo_rep1, of ?w] show ?thesis by (auto simp: write_ok_def)
qed

text \<open>C30: a finalized segment describes itself.  After a successful finalization the file is
  closed, its footer parses to the format version and the totals of the entries, and an
  iterator over the file yields exactly the entries, in order, each with its key, offset,
  length and checksum, and then a clean end.\<close>

theorem finalized_walk:
  assumes "seg_rep s d es" "file_ok (seg_bytes es @ replicate 20 NUL)" "0 \<le> seg_version s" "seg_version s \<le> 99"
  shows "\<exists>s' d' f ftr. Segment_Finalize finalize_ok s d = (None, s', d') \<and> seg_file s' = None
    \<and> d' (seg_path s) = Some f \<and> f = seg_bytes es @ ftr
    \<and> ParseSegmentFooter ftr = Some (seg_version s, word_of_nat (length es), payload_bytes es)
    \<and> walk (Suc (length es)) (NewIterator f) = Some (entry_infos 0 es, io_EOF)"
proof -
  let ?ftr = "BuildSegmentFooterWithVersion (seg_version s) (word_of_nat (length es)) (payload_bytes es)"
  have fin: "\<exists>s' d'. Segment_Finalize finalize_ok s d = (None, s', d') \<and> seg_file s' = None
    \<and> d' (seg_path s) = Some (seg_bytes es @ ?ftr)"
    using Finalize_rep [OF assms(1)] assms(2) by (auto simp: file_ok_def)
  have "in_int64 (payload_bytes es)"
    using payload_bytes_bound [of es] assms(2) by (auto intro!: in_int64I simp: file_ok_def)
  then have "ParseSegmentFooter ?ftr = Some (seg_version s, word_of_nat (length es), payload_bytes es)"
    using assms(3,4) by (intro ParseSegmentFooter_Build)
  moreover have "walk (Suc (length es)) (NewIterator (seg_bytes es @ ?ftr)) = Some (entry_infos 0 es, io_EOF)"
    using walk_entries [of es "[]" ?ftr] assms(1,2) by (simp add: seg_rep_def file_ok_def del: walk.simps)
  ultimately show ?thesis using fin by blast
qed

theorem finalized_walk_witness:
  "\<exists>s' d' f. Segment_Finalize finalize_ok demo_segment1 [''s'' \<mapsto> demo_entry_file] = (None, s', d')
    \<and> d' ''s'' = Some f \<and> walk 2 (NewIterator f) = Some ([entry_info 0 (''a'', ''xyz'', 0)], io_EOF)"
  using finalized_walk [OF demo_rep1]
  by (auto simp: file_ok_def demo_segment1_def NewSegment_def numeral_2_eq_2 simp del: walk.simps)



text \<open>C21: the segment manager stays consistent and never shares a segment.  From an empty
  manager, any sequence of acquisitions, appends, finalizations, releases, registrations
  and removals keeps the list, the map and the open list in agreement, and an acquisition
  then hands out only an open segment that was free or the caller's own, had room, and is
  now reserved for the caller.\<close>

theorem manager_consistent:
  assumes "mgr_step\<^sup>*\<^sup>* (\<lparr>segmentsPath = dir, segmentSize = n, segments = [], segMap = Map.empty, openSegments = []\<rparr>, d0) (sm, d)"
  shows "mgr_inv sm \<and> (\<forall>oe te now busy c needed p sm' d'.
    new_path sm now \<notin> dom (segMap sm)
    \<longrightarrow> AcquireOpenSegmentWithReservation oe te now busy c needed sm d = (Inr p, sm', d')
    \<longrightarrow> (\<exists>seg. segMap sm' p = Some seg \<and> reservedBy seg = c \<and> p \<in> set (openSegments sm'))
      \<and> (\<forall>seg. segMap sm p = Some seg \<longrightarrow> reservedBy seg \<in> {[], c} \<and> needed \<le> Remaining seg)
      \<and> (\<forall>q. q \<noteq> p \<longrightarrow> segMap sm' q = segMap sm q))"
proof -
  have inv: "mgr_inv sm"
    using assms
  proof (induction "(sm, d)" arbitrary: sm d rule: rtranclp_induct)
    case base
    then show ?case by (simp add: mgr_inv_def)
  next
    case (step y)
    then show ?case using mgr_inv_step by (cases y) blast
  qed
  have "(\<exists>seg. segMap sm' p = Some seg \<and> reservedBy seg = c \<and> p \<in> set (openSegments sm'))
      \<and> (\<forall>seg. segMap sm p = Some seg \<longrightarrow> reservedBy seg \<in> {[], c} \<and> needed \<le> Remaining seg)
      \<and> (\<forall>q. q \<noteq> p \<longrightarrow> segMap sm' q = segMap sm q)"
    if "new_path sm now \<notin> dom (segMap sm)"
      "AcquireOpenSegmentWithReservation oe te now busy c needed sm d = (Inr p, sm', d')"
    for oe te now busy c needed p sm' d'
    using acquire_result [OF that] .
  then show ?thesis using inv by blast
qed

definition demo_manager :: Manager where
  "demo_manager = \<lparr>segmentsPath = ''d'', segmentSize = 9, segments = [], segMap = Map.empty, openSegments = []\<rparr>"

theorem manager_consistent_witness:
  "\<exists>p sm' d' seg. AcquireOpenSegmentWithReservation None None 7 (\<lambda>p. False) ''a'' 1 demo_manager Map.empty
      = (Inr p, sm', d') \<and> segMap sm' p = Some seg \<and> reservedBy seg = ''a''"
proof -
  obtain p sm' d' where acq: "AcquireOpenSegmentWithReservation None None 7 (\<lambda>p. False) ''a'' 1 demo_manager Map.empty
      = (Inr p, sm', d')"
    by (simp add: AcquireOpenSegmentWithReservation_def createNewSegmentWithReservationLocked_def demo_manager_def Let_def)
  have "mgr_step\<^sup>*\<^sup>* (demo_manager, Map.empty) (demo_manager, Map.empty)" by simp
  from manager_consistent [OF this [unfolded demo_manager_def]] acq show ?thesis
    unfolding demo_manager_def by fastforce
qed

end
