(* ===== verification/ByteRange.thy ===== *)
theory ByteRange
  imports SegmentFormat
begin

text \<open>
  Byte-range reads (\<^verbatim>\<open>applyByteRange\<close> and \<^verbatim>\<open>byteRangeReader\<close> in \<^verbatim>\<open>src/storage/storage.go\<close>) and
  the reader that joins the prefix a Put has already consumed with the rest of the body.
  A reader is its bytes and a position; the arithmetic is that of \<^verbatim>\<open>int64\<close>, and a slice out
  of bounds is the outcome \<open>Panic\<close>.
\<close>

section \<open>Readers\<close>

datatype 'a outcome = Panic | Done 'a

record src_reader =
  sr_data :: bytes
  sr_pos :: nat
  sr_seekable :: bool

definition reader_Read :: "src_reader \<Rightarrow> int \<Rightarrow> (bytes \<times> goerr option) \<times> src_reader" where
  "reader_Read r k =
    (if sr_pos r \<ge> length (sr_data r) then (([], Some io_EOF), r)
     else let b = take (nat k) (drop (sr_pos r) (sr_data r))
          in ((b, None), r\<lparr>sr_pos := sr_pos r + length b\<rparr>))"

definition reader_Seek :: "src_reader \<Rightarrow> int \<Rightarrow> src_reader" where
  "reader_Seek r off = r\<lparr>sr_pos := nat off\<rparr>"

record byteRangeReader =
  br_reader :: src_reader
  br_start :: int
  br_end :: int
  br_pos :: int
  br_seeked :: bool

definition applyByteRange :: "src_reader \<Rightarrow> int \<Rightarrow> int \<Rightarrow> byteRangeReader" where
  "applyByteRange r start end' =
     \<lparr>br_reader = r, br_start = start, br_end = end', br_pos = 0, br_seeked = False\<rparr>"

section \<open>Reading\<close>

definition skip_buf :: int where "skip_buf = 2 ^ 20"

text \<open>Reading and discarding up to the start of the range, when the reader cannot seek.\<close>

function skip_loop :: "src_reader \<Rightarrow> int \<Rightarrow> int \<Rightarrow> goerr option \<times> src_reader \<times> int" where
  "skip_loop r pos toSkip =
    (if toSkip > 0 then
       (case reader_Read r (min skip_buf toSkip) of
          ((b, Some e), r') \<Rightarrow> (Some e, r', pos + int (length b))
        | ((b, None), r') \<Rightarrow> skip_loop r' (pos + int (length b)) (toSkip - int (length b)))
     else (None, r, pos))"
  by pat_completeness auto

definition range_seek :: "byteRangeReader \<Rightarrow> goerr option \<times> byteRangeReader" where
  "range_seek br =
    (if \<not> br_seeked br \<and> br_start br > 0 then
       (if sr_seekable (br_reader br)
        then (None, br\<lparr>br_reader := reader_Seek (br_reader br) (br_start br), br_pos := br_start br,
                       br_seeked := True\<rparr>)
        else (case skip_loop (br_reader br) (br_pos br) (br_start br) of
                (Some e, r, pos) \<Rightarrow> (Some e, br\<lparr>br_reader := r, br_pos := pos\<rparr>)
              | (None, r, pos) \<Rightarrow> (None, br\<lparr>br_reader := r, br_pos := pos, br_seeked := True\<rparr>)))
     else (None, br))"

text \<open>\<^verbatim>\<open>Read(p)\<close> for a buffer of the given length and capacity.\<close>

definition range_Read :: "byteRangeReader \<Rightarrow> int \<Rightarrow> int \<Rightarrow> ((bytes \<times> goerr option) \<times> byteRangeReader) outcome" where
  "range_Read br0 len cap = (case range_seek br0 of
     (Some e, br) \<Rightarrow> Done (([], Some e), br)
   | (None, br) \<Rightarrow>
      if br_end br > 0 \<and> br_pos br > br_end br then Done (([], Some io_EOF), br)
      else let len' = (if br_end br > 0 \<and> wrap_int64 (br_pos br + len) > wrap_int64 (br_end br + 1)
                       then wrap_int64 (wrap_int64 (br_end br - br_pos br) + 1) else len)
           in if len' < 0 \<or> len' > cap then Panic
              else (case reader_Read (br_reader br) len' of
                      ((b, err), r) \<Rightarrow>
                        Done ((b, err), br\<lparr>br_reader := r, br_pos := wrap_int64 (br_pos br + int (length b))\<rparr>)))"

section \<open>The reader of a Put's body\<close>

record prefixReader =
  pr_prefix :: bytes
  pr_reader :: src_reader

definition prefix_Read :: "prefixReader \<Rightarrow> int \<Rightarrow> (bytes \<times> goerr option) \<times> prefixReader" where
  "prefix_Read r k =
    (if pr_prefix r \<noteq> [] then ((take (nat k) (pr_prefix r), None), r\<lparr>pr_prefix := drop (nat k) (pr_prefix r)\<rparr>)
     else (case reader_Read (pr_reader r) k of (res, r') \<Rightarrow> (res, r\<lparr>pr_reader := r'\<rparr>)))"

section \<open>Termination of the skip\<close>

lemma reader_Read_progress:
  assumes "reader_Read r k = ((b, None), r')" "0 < k"
  shows "b \<noteq> [] \<and> int (length b) \<le> k"
  using assms by (auto simp: reader_Read_def Let_def split: if_splits)

termination skip_loop
proof (relation "measure (\<lambda>(r, pos, toSkip). nat toSkip)", goal_cases)
  case 1
  then show ?case by simp
next
  case (2 r pos toSkip x y b e)
  then have "reader_Read r (min skip_buf toSkip) = ((b, None), y)" "0 < min skip_buf toSkip"
    by (auto simp: skip_buf_def)
  from reader_Read_progress [OF this] 2(1) show ?case by auto
qed

declare skip_loop.simps [simp del]

section \<open>What a caller receives\<close>

text \<open>Reading to the end with buffers of any sizes; \<open>None\<close> when the fuel runs out.\<close>

fun drain :: "nat \<Rightarrow> (nat \<Rightarrow> int) \<Rightarrow> byteRangeReader \<Rightarrow> bytes outcome option" where
  "drain 0 ks br = None"
| "drain (Suc n) ks br = (case range_Read br (ks n) (ks n) of
     Panic \<Rightarrow> Some Panic
   | Done ((b, Some e), br') \<Rightarrow> Some (Done b)
   | Done ((b, None), br') \<Rightarrow> (case drain n ks br' of
        Some (Done rest) \<Rightarrow> Some (Done (b @ rest)) | other \<Rightarrow> other))"

text \<open>The range as the API documents it: both ends included, no limit when the end is not
  positive.\<close>

definition byte_range :: "int \<Rightarrow> int \<Rightarrow> bytes \<Rightarrow> bytes" where
  "byte_range start end' d =
    (if end' > 0 then take (nat (end' + 1 - max 0 start)) (drop (nat start) d) else drop (nat start) d)"

definition at_br :: "byteRangeReader \<Rightarrow> nat \<Rightarrow> byteRangeReader" where
  "at_br br p = br\<lparr>br_reader := (br_reader br)\<lparr>sr_pos := p\<rparr>, br_pos := int p\<rparr>"

definition in_place :: "byteRangeReader \<Rightarrow> bool" where
  "in_place br \<longleftrightarrow> br_seeked br \<or> br_start br \<le> 0"

text \<open>Sizes for which the arithmetic stays in range.\<close>

definition range_sizes_ok :: "bytes \<Rightarrow> int \<Rightarrow> (nat \<Rightarrow> int) \<Rightarrow> bool" where
  "range_sizes_ok d end' ks \<longleftrightarrow> int (length d) < 2 ^ 62 \<and> end' < 2 ^ 63 - 1 \<and> (\<forall>n. 0 < ks n \<and> ks n < 2 ^ 61)"

lemma range_Read_at:
  assumes "int (length (sr_data (br_reader br))) < 2 ^ 62" "br_end br < 2 ^ 63 - 1" "0 < k" "k < 2 ^ 61"
    and "p \<le> length (sr_data (br_reader br))" "in_place br"
  shows "range_Read (at_br br p) k k =
    (let d = sr_data (br_reader br); m = (if br_end br > 0 then min k (br_end br + 1 - int p) else k);
         b = take (nat m) (drop p d)
     in if br_end br > 0 \<and> int p > br_end br then Done (([], Some io_EOF), at_br br p)
        else if p \<ge> length d then Done (([], Some io_EOF), at_br br p)
        else Done ((b, None), at_br br (p + length b)))"
proof (cases "br_end br > 0 \<and> int p > br_end br")
  case True
  then show ?thesis using assms(6) by (auto simp: range_Read_def range_seek_def at_br_def in_place_def)
next
  case False
  let ?m = "if br_end br > 0 then min k (br_end br + 1 - int p) else k"
  have in64: "wrap_int64 (int p + k) = int p + k" "wrap_int64 (br_end br + 1) = br_end br + 1"
    "wrap_int64 (wrap_int64 (br_end br - int p) + 1) = br_end br + 1 - int p" if "0 < br_end br"
    using assms that False by (simp_all add: in_int64_def)
  have m: "(if br_end br > 0 \<and> wrap_int64 (int p + k) > wrap_int64 (br_end br + 1)
     then wrap_int64 (wrap_int64 (br_end br - int p) + 1) else k) = ?m"
    using in64 by auto
  obtain n where n: "n = ?m" by blast
  have bound: "0 \<le> n" "n \<le> k" using assms(3) False by (auto simp: n)
  have pos: "wrap_int64 (int p + int (min (length (sr_data (br_reader br)) - p) i))
      = int p + int (min (length (sr_data (br_reader br)) - p) i)" for i
    using assms(1,5) by (simp add: in_int64_def)
  have sel: "br_end (at_br br p) = br_end br" "br_pos (at_br br p) = int p"
    "br_reader (at_br br p) = (br_reader br)\<lparr>sr_pos := p\<rparr>" "range_seek (at_br br p) = (None, at_br br p)"
    using assms(6) by (auto simp: at_br_def range_seek_def in_place_def)
  show ?thesis
    unfolding range_Read_def sel prod.case option.case if_not_P [OF False] m Let_def n [symmetric]
    using bound by (simp add: reader_Read_def Let_def at_br_def pos pos [of 0, simplified])
qed

lemma take_rest: "take m (drop p d) @ drop (p + length (take m (drop p d))) d = drop p d"
proof -
  have "drop (p + length (take m (drop p d))) d = drop m (drop p d)"
    by (cases "m \<le> length d - p") (simp_all add: min_def add.commute)
  then show ?thesis by (metis append_take_drop_id)
qed

lemma take_pieces:
  assumes "length (take m (drop p d)) \<le> n"
  shows "take m (drop p d) @ take (n - length (take m (drop p d))) (drop (p + length (take m (drop p d))) d)
    = take n (drop p d)"
  using assms take_rest [of m p d] by (metis append_take_drop_id take_append take_all_iff)

lemma drain_at:
  assumes "range_sizes_ok (sr_data (br_reader br)) (br_end br) ks" "p \<le> length (sr_data (br_reader br))"
    and "length (sr_data (br_reader br)) - p < n" "in_place br"
  shows "drain n ks (at_br br p) = Some (Done (if br_end br > 0
    then take (nat (br_end br + 1 - int p)) (drop p (sr_data (br_reader br))) else drop p (sr_data (br_reader br))))"
  using assms(2,3)
proof (induction n arbitrary: p)
  case (Suc n)
  let ?d = "sr_data (br_reader br)"
  obtain m where m: "m = (if br_end br > 0 then min (ks n) (br_end br + 1 - int p) else ks n)" by blast
  have read: "range_Read (at_br br p) (ks n) (ks n) =
    (let d = ?d; b = take (nat m) (drop p d)
     in if br_end br > 0 \<and> int p > br_end br then Done (([], Some io_EOF), at_br br p)
        else if p \<ge> length d then Done (([], Some io_EOF), at_br br p)
        else Done ((b, None), at_br br (p + length b)))"
    using assms(1,4) Suc.prems range_Read_at [of br "ks n" p] by (simp add: range_sizes_ok_def m Let_def)
  show ?case
  proof (cases "br_end br > 0 \<and> int p > br_end br \<or> p \<ge> length ?d")
    case True
    then show ?thesis using Suc.prems by (auto simp: read Let_def)
  next
    case False
    let ?b = "take (nat m) (drop p ?d)"
    have ks: "0 < ks n" using assms(1) by (simp add: range_sizes_ok_def)
    then have b: "0 < length ?b" "p + length ?b \<le> length ?d" using False by (auto simp: m)
    have "drain n ks (at_br br (p + length ?b)) = Some (Done (if br_end br > 0
        then take (nat (br_end br + 1 - int (p + length ?b))) (drop (p + length ?b) ?d) else drop (p + length ?b) ?d))"
      using b Suc.prems by (intro Suc.IH) linarith+
    moreover have "?b @ take (nat (br_end br + 1 - int (p + length ?b))) (drop (p + length ?b) ?d)
        = take (nat (br_end br + 1 - int p)) (drop p ?d)" if "br_end br > 0"
    proof -
      have le: "length ?b \<le> nat (br_end br + 1 - int p)" using that by (auto simp: m)
      then have "nat (br_end br + 1 - int (p + length ?b)) = nat (br_end br + 1 - int p) - length ?b"
        by linarith
      then show ?thesis using take_pieces [OF le] by simp
    qed
    moreover have "?b @ drop (p + length ?b) ?d = drop p ?d"
      using take_rest by blast
    ultimately show ?thesis using False by (simp add: read Let_def)
  qed
qed simp

lemma skip_loop_ok:
  assumes "0 \<le> toSkip" "int (sr_pos r) + toSkip \<le> int (length (sr_data r))"
  shows "skip_loop r pos toSkip = (None, r\<lparr>sr_pos := sr_pos r + nat toSkip\<rparr>, pos + toSkip)"
  using assms
proof (induction r pos toSkip rule: skip_loop.induct)
  case (1 r pos toSkip)
  show ?case
  proof (cases "toSkip > 0")
    case True
    let ?k = "min skip_buf toSkip"
    have k: "0 < ?k" using True by (simp add: skip_buf_def)
    have len: "length (take (nat ?k) (drop (sr_pos r) (sr_data r))) = nat ?k"
      using 1(3) by auto
    then have rd: "reader_Read r ?k = ((take (nat ?k) (drop (sr_pos r) (sr_data r)), None),
        r\<lparr>sr_pos := sr_pos r + nat ?k\<rparr>)"
      using True 1(3) by (simp add: reader_Read_def Let_def)
    have "skip_loop (r\<lparr>sr_pos := sr_pos r + nat ?k\<rparr>) (pos + int (nat ?k)) (toSkip - int (nat ?k))
      = (None, r\<lparr>sr_pos := sr_pos r + nat toSkip\<rparr>, pos + toSkip)"
      using 1(1) [OF True rd [symmetric] refl refl] 1(3) k len by (simp add: min_def split: if_splits)
    then show ?thesis by (subst skip_loop.simps) (simp only: rd prod.case option.case len True if_True)
  next
    case False
    then show ?thesis using 1(2) by (subst skip_loop.simps) simp
  qed
qed

lemma skip_loop_short:
  assumes "sr_pos r \<le> length (sr_data r)" "int (length (sr_data r)) < int (sr_pos r) + toSkip"
  shows "\<exists>r' pos'. skip_loop r pos toSkip = (Some io_EOF, r', pos')"
  using assms
proof (induction r pos toSkip rule: skip_loop.induct)
  case (1 r pos toSkip)
  let ?k = "min skip_buf toSkip"
  have k: "0 < ?k" "toSkip > 0" using 1(2,3) by (auto simp: skip_buf_def)
  show ?case
  proof (cases "sr_pos r \<ge> length (sr_data r)")
    case True
    then show ?thesis using k by (subst skip_loop.simps) (simp add: reader_Read_def)
  next
    case False
    let ?b = "take (nat ?k) (drop (sr_pos r) (sr_data r))"
    have rd: "reader_Read r ?k = ((?b, None), r\<lparr>sr_pos := sr_pos r + length ?b\<rparr>)"
      using False by (simp add: reader_Read_def Let_def)
    have "\<exists>r' pos'. skip_loop (r\<lparr>sr_pos := sr_pos r + length ?b\<rparr>) (pos + int (length ?b)) (toSkip - int (length ?b))
      = (Some io_EOF, r', pos')"
      using 1(3) False by (intro 1(1) [OF k(2) rd [symmetric] refl refl]) auto
    then show ?thesis using k by (subst skip_loop.simps) (simp only: rd prod.case option.case if_True)
  qed
qed

lemma wrap_le: "0 \<le> x \<Longrightarrow> wrap_int64 x \<le> x"
  using zmod_le_nonneg_dividend [of "x + 2 ^ 63" "2 ^ 64"] by (simp add: wrap_int64_def)

lemma drain_cong:
  "(\<And>k. range_Read br k k = range_Read br' k k) \<Longrightarrow> drain n ks br = drain n ks br'"
  by (cases n) simp_all

text \<open>After the first call has found the start of the range.\<close>

lemma range_Read_seeked:
  assumes "br = applyByteRange \<lparr>sr_data = d, sr_pos = 0, sr_seekable = b\<rparr> start end'"
    and "0 < start" "start \<le> int (length d)"
  shows "range_Read br k k = range_Read (at_br (br\<lparr>br_seeked := True\<rparr>) (nat start)) k k"
proof -
  have "range_seek br = (None, at_br (br\<lparr>br_seeked := True\<rparr>) (nat start))"
    using assms skip_loop_ok [of start "br_reader br" 0]
    by (cases b) (simp_all add: range_seek_def at_br_def applyByteRange_def reader_Seek_def)
  moreover have "range_seek (at_br (br\<lparr>br_seeked := True\<rparr>) (nat start))
      = (None, at_br (br\<lparr>br_seeked := True\<rparr>) (nat start))"
    by (simp add: range_seek_def at_br_def)
  ultimately show ?thesis by (simp only: range_Read_def prod.case option.case)
qed

lemma range_Read_beyond:
  assumes "br = applyByteRange \<lparr>sr_data = d, sr_pos = 0, sr_seekable = b\<rparr> start end'"
    and "int (length d) < start" "0 < k" "k < 2 ^ 61" "end' < 2 ^ 63 - 1"
  shows "\<exists>br'. range_Read br k k = Done (([], Some io_EOF), br')"
proof (cases b)
  case False
  then show ?thesis
    using assms(1,2) skip_loop_short [of "br_reader br" start 0]
    by (auto simp: range_Read_def range_seek_def applyByteRange_def)
next
  case True
  obtain br2 where br2: "br2 = br\<lparr>br_reader := \<lparr>sr_data = d, sr_pos = nat start, sr_seekable = b\<rparr>,
      br_pos := start, br_seeked := True\<rparr>" by blast
  then have sk: "range_seek br = (None, br2)"
    using assms(1,2) True by (simp add: range_seek_def applyByteRange_def reader_Seek_def)
  have sel: "br_end br2 = end'" "br_pos br2 = start"
    "br_reader br2 = \<lparr>sr_data = d, sr_pos = nat start, sr_seekable = b\<rparr>"
    by (simp_all add: br2 assms(1) applyByteRange_def)
  let ?n = "if 0 < end' \<and> wrap_int64 (start + k) > wrap_int64 (end' + 1)
    then wrap_int64 (wrap_int64 (end' - start) + 1) else k"
  have "0 \<le> ?n \<and> ?n \<le> k" if "\<not> (0 < end' \<and> start > end')"
  proof (cases "0 < end' \<and> wrap_int64 (start + k) > wrap_int64 (end' + 1)")
    case True
    then have "in_int64 (end' + 1)" "in_int64 (end' - start)" "in_int64 (end' - start + 1)"
      using assms that by (auto simp: in_int64_def)
    then have "wrap_int64 (wrap_int64 (end' - start) + 1) = end' + 1 - start" "wrap_int64 (end' + 1) = end' + 1"
      by simp_all
    moreover have "wrap_int64 (start + k) \<le> start + k" using assms by (intro wrap_le) simp
    ultimately show ?thesis using True that by auto
  qed (use assms(3) in auto)
  then obtain n where n: "n = ?n" "\<not> (0 < end' \<and> start > end') \<Longrightarrow> 0 \<le> n \<and> n \<le> k" by blast
  show ?thesis
  proof (cases "0 < end' \<and> start > end'")
    case False
    then show ?thesis
      unfolding range_Read_def sk prod.case option.case sel if_not_P [OF False] Let_def n(1) [symmetric]
      using n(2) assms(2) by (auto simp: reader_Read_def)
  qed (simp add: range_Read_def sk sel)
qed

section \<open>Properties\<close>

lemma drain_range:
  assumes "range_sizes_ok d end' ks" "length d < n"
  shows "drain n ks (applyByteRange \<lparr>sr_data = d, sr_pos = 0, sr_seekable = b\<rparr> start end')
    = Some (Done (byte_range start end' d))"
proof -
  obtain br where br: "br = applyByteRange \<lparr>sr_data = d, sr_pos = 0, sr_seekable = b\<rparr> start end'" by blast
  note fields = br applyByteRange_def
  consider "start \<le> 0" | "0 < start" "start \<le> int (length d)" | "int (length d) < start" by linarith
  then have "drain n ks br = Some (Done (byte_range start end' d))"
  proof cases
    case 1
    then have "at_br br 0 = br" "in_place br" by (simp_all add: at_br_def in_place_def fields)
    then show ?thesis
      using drain_at [of br ks 0 n] assms 1 by (simp add: fields byte_range_def)
  next
    case 2
    let ?br = "br\<lparr>br_seeked := True\<rparr>"
    have "drain n ks br = drain n ks (at_br ?br (nat start))"
      using range_Read_seeked [OF br 2] by (rule drain_cong)
    then show ?thesis
      using drain_at [of ?br ks "nat start" n] assms 2 by (simp add: fields byte_range_def in_place_def)
  next
    case 3
    obtain m where m: "n = Suc m" using assms(2) by (cases n) auto
    obtain br' where "range_Read br (ks m) (ks m) = Done (([], Some io_EOF), br')"
      using range_Read_beyond [OF br 3] assms(1) by (auto simp: range_sizes_ok_def)
    then show ?thesis using 3 by (simp add: m byte_range_def)
  qed
  then show ?thesis by (simp add: br)
qed

text \<open>C29: a byte-range read returns exactly the requested bytes.  For every value, start and
  end below the largest \<^verbatim>\<open>int64\<close>, every sequence of positive buffer sizes, and whether or not
  the underlying reader can seek, reading to the end of the stream succeeds and yields
  the bytes from the start to the end, both included, cut at the end of the value.\<close>

theorem range_read_exact:
  assumes "range_sizes_ok d end' ks" "length d < n"
  shows "drain n ks (applyByteRange \<lparr>sr_data = d, sr_pos = 0, sr_seekable = b\<rparr> start end')
    = Some (Done (byte_range start end' d))"
  using assms by (rule drain_range)

theorem range_read_exact_witness:
  "drain 9 (\<lambda>n. 2) (applyByteRange \<lparr>sr_data = ''abcdefg'', sr_pos = 0, sr_seekable = False\<rparr> 2 4) = Some (Done ''cde'')"
  using range_read_exact [of "''abcdefg''" 4 "\<lambda>n. 2" 9 False 2]
  by (simp add: range_sizes_ok_def byte_range_def del: drain.simps)

text \<open>C40: a request whose range ends at the largest \<^verbatim>\<open>int64\<close> panics.  The inclusive end plus one
  wraps to the smallest \<^verbatim>\<open>int64\<close>, the limit test succeeds, and the buffer is sliced beyond its
  capacity, whatever the value and the buffer are.\<close>

theorem range_max_panics:
  assumes "0 < k" "k < 2 ^ 61" "start < 2 ^ 62"
  shows "range_Read (applyByteRange \<lparr>sr_data = d, sr_pos = 0, sr_seekable = True\<rparr> start (2 ^ 63 - 1)) k k = Panic"
proof -
  obtain p where p: "p = max 0 start" by blast
  have "wrap_int64 (p + k) = p + k" "wrap_int64 ((2 ^ 63 - 1) + 1) = - (2 ^ 63)"
    "wrap_int64 (2 ^ 63 - 1 - p) = 2 ^ 63 - 1 - p"
    using assms by (simp_all add: p in_int64_def wrap_int64_def)
  moreover have "wrap_int64 (2 ^ 63 - p) = (if p = 0 then - (2 ^ 63) else 2 ^ 63 - p)"
  proof (cases "p = 0")
    case False
    then have "in_int64 (2 ^ 63 - p)" using assms by (auto simp: p in_int64_def)
    then show ?thesis using False by simp
  qed (simp add: wrap_int64_def)
  moreover have "p = (if start > 0 then start else 0)" by (simp add: p)
  ultimately show ?thesis
    using assms
    by (cases "start > 0") (simp_all add: range_Read_def range_seek_def applyByteRange_def reader_Seek_def Let_def)
qed

theorem range_max_panics_witness:
  "range_Read (applyByteRange \<lparr>sr_data = ''abc'', sr_pos = 0, sr_seekable = True\<rparr> 1 (2 ^ 63 - 1)) 1024 1024 = Panic"
  using range_max_panics [of 1024 1 "''abc''"] by simp

end
