(* ===== verification/Store.thy ===== *)
theory Store
  imports MetaDB Segments ByteRange
begin

text \<open>
  The state of a storage node and what its operations share
  (\<^verbatim>\<open>src/storage/storage.go\<close>, \<^verbatim>\<open>src/storage/files/manager.go\<close>, \<^verbatim>\<open>payload.go\<close>,
  \<^verbatim>\<open>src/storage/deletion/queue.go\<close>): raw files, the deletion queue, the delete index, the
  eviction index of a key, and the tracked total size.  An operation takes its clock
  readings and the outcomes of system calls as arguments: \<open>clk\<close> numbers the calls of
  \<^verbatim>\<open>time.Now()\<close> inside one operation.
\<close>

section \<open>State\<close>

record 'db storage =
  st_meta :: 'db
  st_disk :: disk
  st_segs :: Manager
  filesPath :: string
  inlineThreshold :: int
  compactThreshold :: int
  defaultTTL :: int
  maxDiskUsage :: int
  evictionPolicy :: string
  totalSize :: int
  hasUpdater :: bool
  accessUpdates :: "(string \<times> gotime) list"
  lastVersion :: version
  versionHi :: version

definition EvictionPolicyFIFO :: string where "EvictionPolicyFIFO = ''fifo''"
definition EvictionPolicyLRU :: string where "EvictionPolicyLRU = ''lru''"

record op_env =
  clk :: "nat \<Rightarrow> gotime"
  uuid :: string
  open_err :: "goerr option"
  write_err :: "goerr option"
  sync_err :: "goerr option"
  buffer_full :: bool

definition now_nano :: "op_env \<Rightarrow> nat \<Rightarrow> int" where
  "now_nano e i = unixNano (clk e i)"

definition now_unix :: "op_env \<Rightarrow> nat \<Rightarrow> int" where
  "now_unix e i = unixNano (clk e i) div 10 ^ 9"

text \<open>Reads and writes of the metadata database.\<close>

definition meta_get :: "'db ext_api \<Rightarrow> bytes \<Rightarrow> 'db storage \<Rightarrow> bytes option result \<times> 'db storage" where
  "meta_get E k s = (case db_get E (st_meta s) k of (r, d) \<Rightarrow> (r, s\<lparr>st_meta := d\<rparr>))"

definition meta_write :: "'db ext_api \<Rightarrow> batch \<Rightarrow> 'db storage \<Rightarrow> string option \<times> 'db storage" where
  "meta_write E b s = (case db_write E (st_meta s) b of (r, d) \<Rightarrow> (r, s\<lparr>st_meta := d\<rparr>))"

section \<open>Raw files\<close>

text \<open>A reader yields its bytes and ends with an error or cleanly.\<close>

definition copyRawFilePayload :: "goerr option \<Rightarrow> reader \<Rightarrow> goerr + (32 word \<times> int)" where
  "copyRawFilePayload writeErr r = (case writeErr of
     Some e \<Rightarrow> Inl e
   | None \<Rightarrow> (case snd r of Some e \<Rightarrow> Inl e | None \<Rightarrow> Inr (crc32 (fst r), int (length (fst r)))))"

definition FileManager_Write ::
  "op_env \<Rightarrow> string \<Rightarrow> reader \<Rightarrow> 'db storage \<Rightarrow> (goerr + string \<times> 32 word \<times> int) \<times> 'db storage" where
  "FileManager_Write e key r s =
    (let filePath = filesPath s @ ''/'' @ uuid e in
     case open_err e of
       Some x \<Rightarrow> (Inl (Wrapped (''failed to create file for key '' @ key) x), s)
     | None \<Rightarrow> (case copyRawFilePayload (write_err e) r of
         Inl x \<Rightarrow> (Inl (Wrapped (''copy payload '' @ key) x), s\<lparr>st_disk := (st_disk s)(filePath := None)\<rparr>)
       | Inr (checksum, bytesWritten) \<Rightarrow>
          (case (if bytesWritten > compactThreshold s then sync_err e else None) of
             Some x \<Rightarrow> (Inl (Wrapped (''failed to sync large file '' @ key) x),
                        s\<lparr>st_disk := (st_disk s)(filePath := None)\<rparr>)
           | None \<Rightarrow> (Inr (filePath, checksum, bytesWritten),
                      s\<lparr>st_disk := (st_disk s)(filePath \<mapsto> fst r)\<rparr>))))"

definition FileManager_Read :: "'db storage \<Rightarrow> string \<Rightarrow> int \<Rightarrow> goerr + bytes" where
  "FileManager_Read s filePath len =
    (if filePath = [] \<or> len \<le> 0 then Inl (ErrText ''invalid file path or length'')
     else case st_disk s filePath of
       None \<Rightarrow> Inl (fd_not_found filePath)
     | Some f \<Rightarrow> Inr (take (nat len) f))"

definition ErrFileLocked :: goerr where "ErrFileLocked = ErrText ''file is locked for reading''"

text \<open>Removal: the lock may be held by a reader, and \<^verbatim>\<open>os.Remove\<close> may fail.\<close>

definition FileManager_Remove :: "bool \<Rightarrow> goerr option \<Rightarrow> string \<Rightarrow> disk \<Rightarrow> goerr option \<times> disk" where
  "FileManager_Remove locked removeErr filePath d =
    (if locked then (Some ErrFileLocked, d)
     else case (if d filePath = None then Some (PathError ENOENT) else removeErr) of
       None \<Rightarrow> (None, d(filePath := None))
     | Some x \<Rightarrow> if \<not> os_IsNotExist x then (Some (Wrapped (''failed to delete file '' @ filePath) x), d)
                 else (None, d))"

section \<open>Reclaiming a value\<close>

definition deletionQueue_Add :: "'db ext_api \<Rightarrow> int \<Rightarrow> string \<Rightarrow> 'db storage \<Rightarrow> goerr option \<times> 'db storage" where
  "deletionQueue_Add E now filepath s =
    (if filepath = [] then (Some (ErrText ''empty filepath''), s)
     else case meta_write E [WPut (MakeDeletionQueueKey now filepath) [char_of (1 :: nat)]] s of
       (Some err, s') \<Rightarrow> (Some (ErrText err), s')
     | (None, s') \<Rightarrow> (None, s'))"

definition stageRawFileDeletion :: "'db ext_api \<Rightarrow> int \<Rightarrow> string \<Rightarrow> 'db storage \<Rightarrow> 'db storage" where
  "stageRawFileDeletion E now rawFilePath s = snd (deletionQueue_Add E now rawFilePath s)"

definition updateDeleteIndex :: "'db ext_api \<Rightarrow> string \<Rightarrow> int \<Rightarrow> 'db storage \<Rightarrow> 'db storage" where
  "updateDeleteIndex E segmentPath deletedBytes s =
    (if segmentPath = [] then s
     else snd (meta_write E [WMerge (MakeDeleteIndexKey segmentPath) (MakeDeleteIndexOperand 1 deletedBytes)] s))"

definition stageFileDeletion :: "'db ext_api \<Rightarrow> int \<Rightarrow> ValueMessage \<Rightarrow> 'db storage \<Rightarrow> 'db storage" where
  "stageFileDeletion E now valueMsg s =
    (if ValueTypeF valueMsg = RAW_FILE then stageRawFileDeletion E now (RawFilePath valueMsg) s
     else if ValueTypeF valueMsg = SEGMENT then updateDeleteIndex E (SegmentPath valueMsg) (ValueLength valueMsg) s
     else s)"

definition deleteIndexStatsWithOptions :: "'db ext_api \<Rightarrow> bytes \<Rightarrow> 'db storage \<Rightarrow> (string + int \<times> int) \<times> 'db storage" where
  "deleteIndexStatsWithOptions E deleteIndexKey s = (case meta_get E deleteIndexKey s of
     (Inl err, s') \<Rightarrow> (Inl err, s')
   | (Inr None, s') \<Rightarrow> (Inr (0, 0), s')
   | (Inr (Some b), s') \<Rightarrow> (case unmarshal_di E b of
        None \<Rightarrow> (Inl ''proto: cannot parse invalid wire-format data'', s')
      | Some entry \<Rightarrow> (Inr (DeletedEntries entry, DeletedBytes entry), s')))"

definition GetDeleteIndexStats :: "'db ext_api \<Rightarrow> string \<Rightarrow> 'db storage \<Rightarrow> (string + int \<times> int) \<times> 'db storage" where
  "GetDeleteIndexStats E segmentPath s =
    (if segmentPath = [] then (Inr (0, 0), s)
     else deleteIndexStatsWithOptions E (MakeDeleteIndexKey segmentPath) s)"

definition RemoveDeleteIndex :: "'db ext_api \<Rightarrow> string \<Rightarrow> 'db storage \<Rightarrow> string option \<times> 'db storage" where
  "RemoveDeleteIndex E segmentPath s =
    (if segmentPath = [] then (None, s) else meta_write E [WDelete (MakeDeleteIndexKey segmentPath)] s)"

section \<open>Size accounting\<close>

definition UpdateSize :: "int \<Rightarrow> 'db storage \<Rightarrow> 'db storage" where
  "UpdateSize delta s = s\<lparr>totalSize := wrap_int64 (totalSize s + delta)\<rparr>"

definition notifyPut :: "int \<Rightarrow> 'db storage \<Rightarrow> 'db storage" where
  "notifyPut sz s = UpdateSize sz s"

definition notifyDelete :: "int \<Rightarrow> 'db storage \<Rightarrow> 'db storage" where
  "notifyDelete sz s = UpdateSize (- sz) s"

section \<open>The rows a write touches besides the key's own\<close>

definition PrepareEntryForCompaction :: "int \<Rightarrow> string \<Rightarrow> string \<Rightarrow> bytes \<times> bytes" where
  "PrepareEntryForCompaction ts key filePath = (MakeCompactionKey ts key, filePath)"

definition existingValue :: "'db ext_api \<Rightarrow> bytes \<Rightarrow> 'db storage \<Rightarrow> cleanupFields option \<times> 'db storage" where
  "existingValue E metaKey s = (case meta_get E metaKey s of
     (Inl err, s') \<Rightarrow> (None, s')
   | (Inr None, s') \<Rightarrow> (None, s')
   | (Inr (Some b), s') \<Rightarrow> (decodeValueMessageCleanupFields E b, s'))"

definition writeFifoIndexEntry :: "'db ext_api \<Rightarrow> string \<Rightarrow> gotime \<Rightarrow> 'db storage \<Rightarrow> batch \<times> 'db storage" where
  "writeFifoIndexEntry E key now s =
    (let backref = MakeFifoBackrefKey key; fifoKey = MakeFifoIndexKey key now in
     case meta_get E backref s of
       (Inr (Some prev), s') \<Rightarrow> ([WDelete prev, WPut fifoKey [], WPut backref fifoKey], s')
     | (_, s') \<Rightarrow> ([WPut fifoKey [], WPut backref fifoKey], s'))"

text \<open>The block shared by \<^verbatim>\<open>putLow\<close> and \<^verbatim>\<open>finishWonCASPut\<close>: index the key for eviction when a
  disk cap is set.\<close>

definition index_for_eviction :: "'db ext_api \<Rightarrow> string \<Rightarrow> gotime \<Rightarrow> 'db storage \<Rightarrow> batch \<times> 'db storage" where
  "index_for_eviction E key now s =
    (if maxDiskUsage s > 0 then
       (if evictionPolicy s = EvictionPolicyFIFO then writeFifoIndexEntry E key now s
        else (let accessKey = MakeBucketedAccessKey key now
              in ([WPut accessKey [], WPut (MakeBucketedAccessIndexKey key) accessKey], s)))
     else ([], s))"

definition eviction_backref :: "'db storage \<Rightarrow> string \<Rightarrow> bytes" where
  "eviction_backref s key =
    (if evictionPolicy s = EvictionPolicyFIFO then MakeFifoBackrefKey key else MakeBucketedAccessIndexKey key)"

definition stageEvictionIndexDeletes :: "'db ext_api \<Rightarrow> string \<Rightarrow> 'db storage \<Rightarrow> batch \<times> 'db storage" where
  "stageEvictionIndexDeletes E key s =
    (let backref = eviction_backref s key in
     case meta_get E backref s of
       (Inr (Some prev), s') \<Rightarrow> ([WDelete prev, WDelete backref], s')
     | (_, s') \<Rightarrow> ([WDelete backref], s'))"

definition UpdateNow :: "op_env \<Rightarrow> gotime \<Rightarrow> string \<Rightarrow> 'db storage \<Rightarrow> 'db storage" where
  "UpdateNow e now key s =
    (if \<not> hasUpdater s \<or> buffer_full e then s else s\<lparr>accessUpdates := accessUpdates s @ [(key, now)]\<rparr>)"

definition purgeDanglingRawFile :: "'db ext_api \<Rightarrow> string \<Rightarrow> string \<Rightarrow> 'db storage \<Rightarrow> 'db storage" where
  "purgeDanglingRawFile E key rawFilePath s = (case MakeRawFilePurgeOperand E rawFilePath of
     None \<Rightarrow> s
   | Some operand \<Rightarrow> snd (meta_write E [WMerge (MakeMetadataKey key) operand] s))"

text \<open>Expiry of a write: \<^verbatim>\<open>time.Now().Add(ttl * time.Second).Unix()\<close>, the duration in \<^verbatim>\<open>int64\<close>
  nanoseconds.\<close>

definition expiry_at :: "int \<Rightarrow> int \<Rightarrow> int" where
  "expiry_at nowNano ttl = (nowNano + wrap_int64 (ttl * 10 ^ 9)) div 10 ^ 9"

definition effective_ttl :: "'db storage \<Rightarrow> int \<Rightarrow> int" where
  "effective_ttl s ttl = (if ttl \<le> 0 then defaultTTL s else ttl)"

definition write_expiry :: "int \<Rightarrow> 'db storage \<Rightarrow> int \<Rightarrow> int" where
  "write_expiry nowNano s ttl = (if effective_ttl s ttl > 0 then expiry_at nowNano (effective_ttl s ttl) else 0)"

text \<open>Reading up to one byte more than the inline threshold decides the storage class:
  \<^verbatim>\<open>io.ReadFull\<close> fails only when the stream fails before that many bytes.\<close>

definition firstReadSize :: "'db storage \<Rightarrow> nat" where
  "firstReadSize s = nat (if inlineThreshold s + 1 \<le> 0 then 1 else inlineThreshold s + 1)"

definition read_first_chunk :: "'db storage \<Rightarrow> reader \<Rightarrow> goerr + bytes" where
  "read_first_chunk s body =
    (if length (fst body) < firstReadSize s \<and> snd body \<noteq> None then Inl (the (snd body))
     else Inr (take (firstReadSize s) (fst body)))"

section \<open>The eviction index\<close>

definition time_ok :: "gotime \<Rightarrow> bool" where
  "time_ok t \<longleftrightarrow> nonneg_int64 (unixNano t) \<and> valid_zone (zoneOffset t)"

text \<open>Every back-reference points at an existing entry of its own key.\<close>

definition index_inv :: "view \<Rightarrow> bool" where
  "index_inv m \<longleftrightarrow>
     (\<forall>k x. m (MakeFifoBackrefKey k) = Some x \<longrightarrow> (\<exists>t. time_ok t \<and> x = MakeFifoIndexKey k t) \<and> m x = Some [])
   \<and> (\<forall>k x. m (MakeBucketedAccessIndexKey k) = Some x \<longrightarrow> (\<exists>t. time_ok t \<and> x = MakeBucketedAccessKey k t) \<and> m x = Some [])"

lemma index_invI:
  assumes "\<And>k x. m (MakeFifoBackrefKey k) = Some x \<Longrightarrow> (\<exists>t. time_ok t \<and> x = MakeFifoIndexKey k t) \<and> m x = Some []"
    and "\<And>k x. m (MakeBucketedAccessIndexKey k) = Some x \<Longrightarrow> (\<exists>t. time_ok t \<and> x = MakeBucketedAccessKey k t) \<and> m x = Some []"
  shows "index_inv m"
  unfolding index_inv_def using assms by blast

lemma index_invD:
  assumes "index_inv m"
  shows "m (MakeFifoBackrefKey k) = Some x \<Longrightarrow> (\<exists>t. time_ok t \<and> x = MakeFifoIndexKey k t) \<and> m x = Some []"
    and "m (MakeBucketedAccessIndexKey k) = Some x \<Longrightarrow> (\<exists>t. time_ok t \<and> x = MakeBucketedAccessKey k t) \<and> m x = Some []"
  using assms unfolding index_inv_def by blast+

lemma entry_key_inject:
  assumes "time_ok t" "time_ok t'"
  shows "MakeFifoIndexKey k t = MakeFifoIndexKey k' t' \<Longrightarrow> k = k'"
    and "MakeBucketedAccessKey k t = MakeBucketedAccessKey k' t' \<Longrightarrow> k = k'"
  using parse_fifo_make(1) [of t k] parse_fifo_make(1) [of t' k'] parse_bucketed_make [of t k]
    parse_bucketed_make [of t' k'] assms by (auto simp: time_ok_def)

text \<open>What the back-reference of a key points at is no entry of another key.\<close>

lemma backref_other:
  assumes "index_inv m"
  shows "m (MakeFifoBackrefKey k) = Some p \<Longrightarrow> time_ok u \<Longrightarrow> j \<noteq> k \<Longrightarrow> MakeFifoIndexKey j u \<noteq> p"
    and "m (MakeBucketedAccessIndexKey k) = Some p \<Longrightarrow> time_ok u \<Longrightarrow> j \<noteq> k \<Longrightarrow> MakeBucketedAccessKey j u \<noteq> p"
  using index_invD [OF assms, of k p] entry_key_inject by blast+

text \<open>A key of the eviction index, of either policy.\<close>

definition index_key :: "bytes \<Rightarrow> bool" where
  "index_key b \<longleftrightarrow> (\<exists>k. b = MakeFifoBackrefKey k) \<or> (\<exists>k. b = MakeBucketedAccessIndexKey k)
     \<or> (\<exists>k t. b = MakeFifoIndexKey k t) \<or> (\<exists>k t. b = MakeBucketedAccessKey k t)"

lemma index_key_make [simp]:
  "index_key (MakeFifoBackrefKey k)" "index_key (MakeBucketedAccessIndexKey k)"
  "index_key (MakeFifoIndexKey k t)" "index_key (MakeBucketedAccessKey k t)"
  "\<not> index_key (MakeMetadataKey k)" "\<not> index_key (MakeCompactionKey n k)" "\<not> index_key (MakeDeletionQueueKey n k)"
  "\<not> index_key (MakeDeleteIndexKey k)" "\<not> index_key VersionHWMKey"
  by (auto simp: index_key_def)

text \<open>A row of the bookkeeping beside the metadata and the eviction index.\<close>

definition side_key :: "bytes \<Rightarrow> bool" where
  "side_key b \<longleftrightarrow> (\<exists>t k. b = MakeCompactionKey t k) \<or> (\<exists>f. b = MakeDeleteIndexKey f) \<or> (\<exists>t f. b = MakeDeletionQueueKey t f)"

lemma side_key_make [simp]:
  "side_key (MakeCompactionKey t k)" "side_key (MakeDeleteIndexKey f)" "side_key (MakeDeletionQueueKey t f)"
  "\<not> side_key (MakeMetadataKey k)" "\<not> side_key VersionHWMKey"
  unfolding side_key_def by (blast, blast, blast, simp_all)

lemma side_not_index: "side_key b \<Longrightarrow> \<not> index_key b"
  by (auto simp: side_key_def)

lemma index_inv_cong:
  assumes "index_inv m" "\<And>b. index_key b \<Longrightarrow> m' b = m b"
  shows "index_inv m'"
  using assms by (intro index_invI) (auto dest!: index_invD [OF assms(1)])

text \<open>Re-indexing a key under a new entry, and dropping its entries.\<close>

lemma index_inv_fifo_put:
  assumes "index_inv m" "time_ok t" "prev = None \<or> prev = m (MakeFifoBackrefKey k)"
  shows "index_inv ((case prev of None \<Rightarrow> m | Some p \<Rightarrow> m(p := None))
     (MakeFifoIndexKey k t \<mapsto> [], MakeFifoBackrefKey k \<mapsto> MakeFifoIndexKey k t))" (is "index_inv ?m")
proof (rule index_invI, goal_cases)
  case (1 j x)
  show ?case
  proof (cases "j = k")
    case True
    with 1 assms(2) show ?thesis by auto
  next
    case False
    then have m: "m (MakeFifoBackrefKey j) = Some x"
      using 1 assms(3) index_invD(1) [OF assms(1)] by (auto split: option.splits if_splits)
    then obtain u where u: "time_ok u" "x = MakeFifoIndexKey j u" "m x = Some []"
      using index_invD(1) [OF assms(1)] by blast
    have "x \<noteq> MakeFifoIndexKey k t" using u False assms(2) entry_key_inject by blast
    moreover have "x \<noteq> p" if "prev = Some p" for p
      using backref_other(1) [OF assms(1) _ u(1) False] that assms(3) u(2) by auto
    ultimately show ?thesis using u by (auto split: option.splits)
  qed
next
  case (2 j x)
  then have "m (MakeBucketedAccessIndexKey j) = Some x"
    by (auto split: option.splits if_splits)
  then obtain u where "time_ok u" "x = MakeBucketedAccessKey j u" "m x = Some []"
    using index_invD(2) [OF assms(1)] by blast
  then show ?case
    using assms(3) index_invD(1) [OF assms(1), of k] by (auto split: option.splits)
qed

lemma index_inv_access_put:
  assumes "index_inv m" "time_ok t"
  shows "index_inv (m(MakeBucketedAccessKey k t \<mapsto> [], MakeBucketedAccessIndexKey k \<mapsto> MakeBucketedAccessKey k t))"
  using assms by (intro index_invI) (auto split: if_splits dest!: index_invD [OF assms(1)])

lemma index_inv_drop_fifo:
  assumes "index_inv m" "prev = None \<or> prev = m (MakeFifoBackrefKey k)"
  shows "index_inv ((case prev of None \<Rightarrow> m | Some p \<Rightarrow> m(p := None))(MakeFifoBackrefKey k := None))"
proof (rule index_invI, goal_cases)
  case (1 j x)
  then have jk: "j \<noteq> k" by auto
  have m: "m (MakeFifoBackrefKey j) = Some x"
    using 1 jk assms(2) index_invD(1) [OF assms(1)] by (auto split: option.splits if_splits)
  then obtain u where u: "time_ok u" "x = MakeFifoIndexKey j u" "m x = Some []"
    using index_invD(1) [OF assms(1)] by blast
  have "x \<noteq> p" if "prev = Some p" for p
    using backref_other(1) [OF assms(1) _ u(1) jk] that assms(2) u(2) by auto
  then show ?case using u by (auto split: option.splits)
next
  case (2 j x)
  then have "m (MakeBucketedAccessIndexKey j) = Some x"
    by (auto split: option.splits if_splits)
  then obtain u where "time_ok u" "x = MakeBucketedAccessKey j u" "m x = Some []"
    using index_invD(2) [OF assms(1)] by blast
  then show ?case
    using assms(2) index_invD(1) [OF assms(1), of k] by (auto split: option.splits)
qed

lemma index_inv_drop_access:
  assumes "index_inv m" "prev = None \<or> prev = m (MakeBucketedAccessIndexKey k)"
  shows "index_inv ((case prev of None \<Rightarrow> m | Some p \<Rightarrow> m(p := None))(MakeBucketedAccessIndexKey k := None))"
proof (rule index_invI, goal_cases)
  case (2 j x)
  then have jk: "j \<noteq> k" by auto
  have m: "m (MakeBucketedAccessIndexKey j) = Some x"
    using 2 jk assms(2) index_invD(2) [OF assms(1)] by (auto split: option.splits if_splits)
  then obtain u where u: "time_ok u" "x = MakeBucketedAccessKey j u" "m x = Some []"
    using index_invD(2) [OF assms(1)] by blast
  have "x \<noteq> p" if "prev = Some p" for p
    using backref_other(2) [OF assms(1) _ u(1) jk] that assms(2) u(2) by auto
  then show ?case using u by (auto split: option.splits)
next
  case (1 j x)
  then have "m (MakeFifoBackrefKey j) = Some x"
    by (auto split: option.splits if_splits)
  then obtain u where "time_ok u" "x = MakeFifoIndexKey j u" "m x = Some []"
    using index_invD(1) [OF assms(1)] by blast
  then show ?case
    using assms(2) index_invD(2) [OF assms(1), of k] by (auto split: option.splits)
qed

section \<open>What the shared steps do to the rows\<close>

text \<open>A step that changes nothing but the metadata database.\<close>

definition meta_only :: "'db storage \<Rightarrow> 'db storage \<Rightarrow> bool" where
  "meta_only s s' \<longleftrightarrow> s' = s\<lparr>st_meta := st_meta s'\<rparr>"

lemma meta_only_refl [simp]: "meta_only s s"
  by (simp add: meta_only_def)

lemma meta_only_upd [simp]: "meta_only s (s\<lparr>st_meta := d\<rparr>)"
  by (simp add: meta_only_def)

lemma meta_only_trans: "meta_only s s' \<Longrightarrow> meta_only s' s'' \<Longrightarrow> meta_only s s''"
  unfolding meta_only_def by (metis storage.surjective storage.update_convs(1))

lemma meta_only_fields:
  assumes "meta_only s s'"
  shows "st_disk s' = st_disk s" "st_segs s' = st_segs s" "totalSize s' = totalSize s" "filesPath s' = filesPath s"
    "inlineThreshold s' = inlineThreshold s" "compactThreshold s' = compactThreshold s" "maxDiskUsage s' = maxDiskUsage s"
    "evictionPolicy s' = evictionPolicy s" "lastVersion s' = lastVersion s" "versionHi s' = versionHi s"
    "defaultTTL s' = defaultTTL s"
  using assms unfolding meta_only_def by (metis storage.ext_inject storage.surjective storage.update_convs(1))+

lemma apply_batch_same:
  assumes "\<And>w. w \<in> set b \<Longrightarrow> wop_key w \<noteq> k"
  shows "apply_batch P m b k = m k"
  using assms by (intro apply_batch_other) blast

text \<open>The batch of a write: bookkeeping rows around the row of the key, then its index part.\<close>

lemma write_batch:
  assumes "\<forall>w \<in> set (b0 @ b1). side_key (wop_key w)" "\<forall>w \<in> set ix. index_key (wop_key w)"
    and "wop_key x = MakeMetadataKey key"
  shows "k \<noteq> key \<Longrightarrow> apply_batch P m (b0 @ [x] @ b1 @ ix) (MakeMetadataKey k) = m (MakeMetadataKey k)"
    and "apply_batch P m (b0 @ [x] @ b1 @ ix) (MakeMetadataKey key) = apply_wop P (apply_batch P m b0) x (MakeMetadataKey key)"
    and "index_key b \<Longrightarrow> apply_batch P m (b0 @ [x] @ b1) b = m b"
proof -
  have side: "\<not> side_key b \<Longrightarrow> apply_batch P n b0 b = n b" "\<not> side_key b \<Longrightarrow> apply_batch P n b1 b = n b" for n b
    using assms(1) by (auto intro!: apply_batch_same)
  have ix: "apply_batch P n ix (MakeMetadataKey j) = n (MakeMetadataKey j)" for n j
    using assms(2) index_key_make(5) by (intro apply_batch_same) metis
  show "k \<noteq> key \<Longrightarrow> apply_batch P m (b0 @ [x] @ b1 @ ix) (MakeMetadataKey k) = m (MakeMetadataKey k)"
    "apply_batch P m (b0 @ [x] @ b1 @ ix) (MakeMetadataKey key) = apply_wop P (apply_batch P m b0) x (MakeMetadataKey key)"
    by (simp_all add: ix side assms(3))
  show "apply_batch P m (b0 @ [x] @ b1) b = m b" if "index_key b"
  proof -
    have "\<not> side_key b" "b \<noteq> wop_key x" using that side_not_index assms(3) by auto
    then show ?thesis by (simp add: side)
  qed
qed

context rocksdb
begin

lemma meta_get_ok:
  assumes "meta_get E k s = (r, s')"
  shows "meta_only s s'" "view (st_meta s') = view (st_meta s)" "r = Inr x \<Longrightarrow> x = view (st_meta s) k"
  using assms get_view [of "st_meta s" k] get_ok [of "st_meta s" k x]
  by (auto simp: meta_get_def split: prod.splits)

lemma meta_get_Inr: "meta_get E k s = (Inr x, s') \<Longrightarrow> view (st_meta s) k = x"
  using meta_get_ok(3) [of k s "Inr x" s' x] by simp

lemma meta_write_ok:
  assumes "meta_write E b s = (r, s')"
  shows "meta_only s s'" "r = None \<Longrightarrow> view (st_meta s') = apply_batch E (view (st_meta s)) b"
    "r = Some err \<Longrightarrow> view (st_meta s') = view (st_meta s)"
  using assms write_ok [of "st_meta s" b] write_err [of "st_meta s" b err]
  by (auto simp: meta_write_def split: prod.splits)

text \<open>Queueing a file for deletion and crediting a segment touch only their own rows.\<close>

lemma stageRawFileDeletion_ok:
  assumes "s' = stageRawFileDeletion E now p s"
  shows "meta_only s s'" "\<not> side_key k \<Longrightarrow> view (st_meta s') k = view (st_meta s) k"
proof -
  obtain r s2 where w: "meta_write E [WPut (MakeDeletionQueueKey now p) [char_of (1 :: nat)]] s = (r, s2)" by fastforce
  have s': "s' = (if p = [] then s else s2)"
    using assms w by (auto simp: stageRawFileDeletion_def deletionQueue_Add_def split: option.splits)
  then show "meta_only s s'" using meta_write_ok(1) [OF w] by simp
  assume "\<not> side_key k"
  then have "k \<noteq> MakeDeletionQueueKey now p" by auto
  then have "view (st_meta s2) k = view (st_meta s) k"
    using meta_write_ok(2,3) [OF w] by (cases r) auto
  then show "view (st_meta s') k = view (st_meta s) k" by (simp add: s')
qed

lemma updateDeleteIndex_ok:
  assumes "s' = updateDeleteIndex E p n s"
  shows "meta_only s s'" "\<not> side_key k \<Longrightarrow> view (st_meta s') k = view (st_meta s) k"
proof -
  obtain r s2 where w: "meta_write E [WMerge (MakeDeleteIndexKey p) (MakeDeleteIndexOperand 1 n)] s = (r, s2)" by fastforce
  have s': "s' = (if p = [] then s else s2)"
    using assms w by (auto simp: updateDeleteIndex_def)
  then show "meta_only s s'" using meta_write_ok(1) [OF w] by simp
  assume "\<not> side_key k"
  then have "k \<noteq> MakeDeleteIndexKey p" by auto
  then have "view (st_meta s2) k = view (st_meta s) k"
    using meta_write_ok(2,3) [OF w] by (cases r) auto
  then show "view (st_meta s') k = view (st_meta s) k" by (simp add: s')
qed

lemma existingValue_ok:
  assumes "existingValue E k s = (prev, s')"
  shows "meta_only s s'" "view (st_meta s') = view (st_meta s)"
    "prev = Some c \<Longrightarrow> \<exists>b. view (st_meta s) k = Some b \<and> decodeValueMessageCleanupFields E b = Some c"
  using assms by (auto simp: existingValue_def dest: meta_get_ok meta_get_Inr split: prod.splits sum.splits option.splits)

text \<open>The eviction-index part of a batch: it touches only index keys, and keeps the index
  invariant on every view that agrees with the current one on the key's back-reference.\<close>

lemma index_for_eviction_ok:
  assumes "index_for_eviction E key t s = (b, s')" "time_ok t" "index_inv (view (st_meta s))"
  shows "meta_only s s'" "view (st_meta s') = view (st_meta s)" "\<forall>w \<in> set b. index_key (wop_key w)"
    "index_inv m \<Longrightarrow> m (MakeFifoBackrefKey key) = view (st_meta s) (MakeFifoBackrefKey key) \<Longrightarrow> index_inv (apply_batch E m b)"
proof -
  obtain r s2 where g: "meta_get E (MakeFifoBackrefKey key) s = (r, s2)" by fastforce
  have fifo: "b = (case r of Inr (Some p) \<Rightarrow> [WDelete p] | _ \<Rightarrow> []) @ [WPut (MakeFifoIndexKey key t) [],
      WPut (MakeFifoBackrefKey key) (MakeFifoIndexKey key t)] \<and> s' = s2"
    if "maxDiskUsage s > 0" "evictionPolicy s = EvictionPolicyFIFO"
    using assms(1) that g
    by (auto simp: index_for_eviction_def writeFifoIndexEntry_def Let_def split: sum.splits option.splits)
  have other: "s' = s" if "\<not> (maxDiskUsage s > 0 \<and> evictionPolicy s = EvictionPolicyFIFO)"
    using assms(1) that by (auto simp: index_for_eviction_def Let_def split: if_splits)
  have lru: "b = [WPut (MakeBucketedAccessKey key t) [], WPut (MakeBucketedAccessIndexKey key) (MakeBucketedAccessKey key t)]"
    if "maxDiskUsage s > 0" "evictionPolicy s \<noteq> EvictionPolicyFIFO"
    using assms(1) that by (auto simp: index_for_eviction_def Let_def)
  have off: "b = []" if "\<not> maxDiskUsage s > 0"
    using assms(1) that by (auto simp: index_for_eviction_def)
  have prev: "index_key p" if "r = Inr (Some p)" for p
    using meta_get_ok(3) [OF g that] index_invD(1) [OF assms(3), of key p] by auto
  show "meta_only s s'" "view (st_meta s') = view (st_meta s)"
    using fifo other meta_get_ok(1,2) [OF g] by (metis meta_only_refl, metis)
  show "\<forall>w \<in> set b. index_key (wop_key w)"
    using fifo lru off prev by (cases "maxDiskUsage s > 0"; cases "evictionPolicy s = EvictionPolicyFIFO")
      (auto split: sum.splits option.splits)
  show "index_inv (apply_batch E m b)"
    if m: "index_inv m" "m (MakeFifoBackrefKey key) = view (st_meta s) (MakeFifoBackrefKey key)"
  proof (cases "maxDiskUsage s > 0 \<and> evictionPolicy s = EvictionPolicyFIFO")
    case True
    let ?prev = "case r of Inr (Some p) \<Rightarrow> Some p | _ \<Rightarrow> None"
    have "?prev = None \<or> ?prev = m (MakeFifoBackrefKey key)"
      using meta_get_ok(3) [OF g] m(2) by (auto split: sum.splits option.splits)
    moreover have "apply_batch E m b = (case ?prev of None \<Rightarrow> m | Some p \<Rightarrow> m(p := None))
        (MakeFifoIndexKey key t \<mapsto> [], MakeFifoBackrefKey key \<mapsto> MakeFifoIndexKey key t)"
      using fifo True by (auto split: sum.splits option.splits)
    ultimately show ?thesis using index_inv_fifo_put [OF m(1) assms(2)] by simp
  next
    case False
    then show ?thesis
      using lru off m(1) index_inv_access_put [OF m(1) assms(2), of key] by (cases "maxDiskUsage s > 0") auto
  qed
qed

lemma stageEvictionIndexDeletes_ok:
  assumes "stageEvictionIndexDeletes E key s = (b, s')" "index_inv (view (st_meta s))"
  shows "meta_only s s'" "view (st_meta s') = view (st_meta s)" "\<forall>w \<in> set b. index_key (wop_key w)"
    "index_inv m \<Longrightarrow> m (eviction_backref s key) = view (st_meta s) (eviction_backref s key) \<Longrightarrow> index_inv (apply_batch E m b)"
proof -
  let ?br = "eviction_backref s key"
  obtain r s2 where g: "meta_get E ?br s = (r, s2)" by fastforce
  have b: "b = (case r of Inr (Some p) \<Rightarrow> [WDelete p] | _ \<Rightarrow> []) @ [WDelete ?br]" and s': "s' = s2"
    using assms(1) g by (auto simp: stageEvictionIndexDeletes_def Let_def split: sum.splits option.splits)
  show "meta_only s s'" "view (st_meta s') = view (st_meta s)"
    using s' meta_get_ok(1,2) [OF g] by simp_all
  have prev: "index_key p" if "r = Inr (Some p)" for p
  proof -
    have "view (st_meta s) ?br = Some p" using meta_get_ok(3) [OF g that] by simp
    then have "\<exists>t. p = MakeFifoIndexKey key t \<or> p = MakeBucketedAccessKey key t"
      using index_invD [OF assms(2), of key p] unfolding eviction_backref_def by (metis (full_types))
    then show ?thesis using index_key_make by blast
  qed
  have "index_key ?br" by (simp add: eviction_backref_def)
  then show "\<forall>w \<in> set b. index_key (wop_key w)"
    using b prev by (auto split: sum.splits option.splits)
  show "index_inv (apply_batch E m b)"
    if m: "index_inv m" "m ?br = view (st_meta s) ?br"
  proof -
    let ?prev = "case r of Inr (Some p) \<Rightarrow> Some p | _ \<Rightarrow> None"
    have p: "?prev = None \<or> ?prev = m ?br"
      using meta_get_ok(3) [OF g] m(2) by (auto split: sum.splits option.splits)
    have "apply_batch E m b = (case ?prev of None \<Rightarrow> m | Some p \<Rightarrow> m(p := None))(?br := None)"
      using b by (auto split: sum.splits option.splits)
    then show ?thesis
      using index_inv_drop_fifo [OF m(1)] index_inv_drop_access [OF m(1)] p
      by (simp add: eviction_backref_def split: if_splits)
  qed
qed

end

end
