(* ===== verification/Storage.thy ===== *)
theory Storage
  imports Store
begin

text \<open>
  The plain operations of a storage node (\<^verbatim>\<open>src/storage/storage.go\<close>): \<^verbatim>\<open>Put\<close> with \<^verbatim>\<open>putLow\<close>,
  \<^verbatim>\<open>Get\<close> and \<^verbatim>\<open>DeleteKey\<close>.  They are related to a map from keys to a value and its expiry:
  a successful write or delete updates that map at one key, a failed one does not change
  it, and a read looks it up.
\<close>

section \<open>Writing\<close>

definition putLow :: "'db ext_api \<Rightarrow> op_env \<Rightarrow> string \<Rightarrow> bytes \<Rightarrow> string \<Rightarrow> int \<Rightarrow> 'db storage \<Rightarrow> (string + int) \<times> 'db storage" where
  "putLow E e key val filePath bytesWritten s0 =
    (let batch0 = (if bytesWritten > inlineThreshold s0 \<and> bytesWritten \<le> compactThreshold s0
                   then (case PrepareEntryForCompaction (now_nano e 1) key filePath of (k, v) \<Rightarrow> [WPut k v]) else []);
         metaKey = MakeMetadataKey key;
         (prev, s1) = existingValue E metaKey s0;
         prevSize = (case prev of None \<Rightarrow> 0 | Some p \<Rightarrow> cf_valueLength p);
         credit = (case prev of None \<Rightarrow> []
                   | Some p \<Rightarrow> if cf_valueType p = SEGMENT \<and> cf_segmentPath p \<noteq> []
                       then [WMerge (MakeDeleteIndexKey (cf_segmentPath p)) (MakeDeleteIndexOperand 1 (cf_valueLength p))]
                       else []);
         (index, s2) = index_for_eviction E key (clk e 2) s1
     in case meta_write E (batch0 @ [WPut metaKey val] @ credit @ index) s2 of
          (Some err, s3) \<Rightarrow> (Inl err, s3)
        | (None, s3) \<Rightarrow>
            (Inr prevSize, case prev of None \<Rightarrow> s3
               | Some p \<Rightarrow> if cf_valueType p = RAW_FILE then stageRawFileDeletion E (now_nano e 3) (cf_rawFilePath p) s3
                           else s3))"

definition file_write_error :: "string \<Rightarrow> string \<Rightarrow> goerr \<Rightarrow> goerr" where
  "file_write_error op key err =
    (if isNoSpaceError (Some err) then NewStorageFullError op err
     else if os_IsNotExist err \<or> os_IsPermission err then NewIORetryableError op key err
     else NewIOError op key err)"

definition Put :: "'db ext_api \<Rightarrow> op_env \<Rightarrow> string \<Rightarrow> reader \<Rightarrow> int \<Rightarrow> 'db storage \<Rightarrow> goerr option \<times> 'db storage" where
  "Put E e key body ttl s =
    (case read_first_chunk s body of
       Inl err \<Rightarrow> (Some (NewIOError ''Put'' key err), s)
     | Inr chunk \<Rightarrow>
        let expiry = write_expiry (now_nano e 0) s ttl in
        if int (length chunk) > inlineThreshold s then
          (case FileManager_Write e key body s of
             (Inl err, s1) \<Rightarrow> (Some (file_write_error ''Put'' key err), s1)
           | (Inr (filePath, checksum, bytesWritten), s1) \<Rightarrow>
              (case marshal E (vm0\<lparr>RawFilePath := filePath, Expiry := expiry, ValueLength := bytesWritten,
                                   Checksum := checksum, ValueTypeF := RAW_FILE\<rparr>) of
                 None \<Rightarrow> (Some (NewInternalError ''Put'' (ErrText ''marshal'')),
                          stageRawFileDeletion E (now_nano e 4) filePath s1)
               | Some val \<Rightarrow>
                  (case putLow E e key val filePath bytesWritten s1 of
                     (Inr prevSize, s2) \<Rightarrow> (None, notifyPut (bytesWritten - prevSize) s2)
                   | (Inl err, s2) \<Rightarrow> (Some (mapRocksDBError ''Put'' key err),
                                       stageRawFileDeletion E (now_nano e 4) filePath s2))))
        else
          (case marshal E (vm0\<lparr>Data := chunk, Expiry := expiry, ValueLength := int (length chunk),
                               ValueTypeF := INLINE\<rparr>) of
             None \<Rightarrow> (Some (NewInternalError ''Put'' (ErrText ''marshal'')), s)
           | Some val \<Rightarrow>
              (case putLow E e key val [] (int (length chunk)) s of
                 (Inr prevSize, s2) \<Rightarrow> (None, notifyPut (int (length chunk) - prevSize) s2)
               | (Inl err, s2) \<Rightarrow> (Some (mapRocksDBError ''Put'' key err), s2))))"

section \<open>Deleting\<close>

definition DeleteKey :: "'db ext_api \<Rightarrow> op_env \<Rightarrow> string \<Rightarrow> 'db storage \<Rightarrow> goerr option \<times> 'db storage" where
  "DeleteKey E e key s0 =
    (let metaKey = MakeMetadataKey key in
     case meta_get E metaKey s0 of
       (Inl err, s1) \<Rightarrow> (Some (mapRocksDBError ''DeleteKey'' key err), s1)
     | (Inr None, s1) \<Rightarrow> (None, s1)
     | (Inr (Some row), s1) \<Rightarrow>
        let decoded = decodeValueMessageCleanupFields E row;
            s2 = (case decoded of None \<Rightarrow> s1 | Some v \<Rightarrow> notifyDelete (cf_valueLength v) s1);
            (index, s3) = stageEvictionIndexDeletes E key s2;
            credit = (case decoded of None \<Rightarrow> []
                      | Some v \<Rightarrow> if cf_valueType v = SEGMENT \<and> cf_segmentPath v \<noteq> []
                          then [WMerge (MakeDeleteIndexKey (cf_segmentPath v)) (MakeDeleteIndexOperand 1 (cf_valueLength v))]
                          else [])
        in case meta_write E ([WDelete metaKey] @ index @ credit) s3 of
             (Some err, s4) \<Rightarrow> (Some (mapRocksDBError ''DeleteKey'' key err), s4)
           | (None, s4) \<Rightarrow>
               (None, case decoded of None \<Rightarrow> s4
                  | Some v \<Rightarrow> if cf_valueType v = RAW_FILE
                              then stageRawFileDeletion E (now_nano e 0) (cf_rawFilePath v) s4 else s4))"

section \<open>Reading\<close>

text \<open>The value bytes of a row, by storage class.\<close>

definition open_value :: "'db storage \<Rightarrow> string \<Rightarrow> ValueMessage \<Rightarrow> (goerr + bytes) option" where
  "open_value s key vm = (case ValueTypeF vm of
     INLINE \<Rightarrow> Some (Inr (Data vm))
   | SEGMENT \<Rightarrow> Some (Manager_ReadEntry (st_segs s) (st_disk s) key (SegmentPath vm) (SegmentOffset vm) (ValueLength vm))
   | RAW_FILE \<Rightarrow> Some (FileManager_Read s (RawFilePath vm) (ValueLength vm))
   | UNKNOWN_TYPE w \<Rightarrow> None)"

definition Get :: "'db ext_api \<Rightarrow> op_env \<Rightarrow> string \<Rightarrow> int \<Rightarrow> int \<Rightarrow> 'db storage
    \<Rightarrow> (goerr + byteRangeReader option) \<times> 'db storage" where
  "Get E e key start end' s0 =
    (case meta_get E (MakeMetadataKey key) s0 of
       (Inl err, s1) \<Rightarrow> (Inl (mapRocksDBError ''Get'' key err), s1)
     | (Inr None, s1) \<Rightarrow> (Inr None, s1)
     | (Inr (Some v), s1) \<Rightarrow>
        (case unmarshal E v of
           None \<Rightarrow> (Inl (NewCorruptionError ''Get'' key (ErrText ''unmarshal'')), s1)
         | Some vm \<Rightarrow>
            if Expiry vm > 0 \<and> now_unix e 0 \<ge> Expiry vm then (Inr None, s1)
            else let s2 = UpdateNow e (clk e 1) key s1 in
              (case open_value s2 key vm of
                 None \<Rightarrow> (Inl (NewCorruptionError ''Get'' key (ErrText ''unknown value type'')), s2)
               | Some (Inl err) \<Rightarrow>
                   if ValueTypeF vm = RAW_FILE \<and> errors_Is_ErrNotExist err \<and> ValueLength vm > compactThreshold s2
                   then (Inl (NewIORetryableError ''Get'' key err), purgeDanglingRawFile E key (RawFilePath vm) s2)
                   else if ValueTypeF vm = RAW_FILE \<and> err = ErrFileLocked
                   then (Inl (NewLockError ''Get'' key err), s2)
                   else (Inl (NewIORetryableError ''Get'' key err), s2)
               | Some (Inr b) \<Rightarrow>
                   (let r = \<lparr>sr_data = b, sr_pos = 0, sr_seekable = True\<rparr> in
                    (Inr (Some (if start > 0 \<or> end' > 0 then applyByteRange r start end'
                                else applyByteRange r 0 0)), s2)))))"

text \<open>A reader without a range is the range reader without limits: it passes every call
  through.\<close>

section \<open>The cache a reader sees\<close>

definition row_of :: "'a proto_api_scheme \<Rightarrow> view \<Rightarrow> string \<Rightarrow> ValueMessage option" where
  "row_of P m key = Option.bind (m (MakeMetadataKey key)) (unmarshal P)"

text \<open>The abstract state: each key's value and expiry, for the rows whose value can be read.\<close>

definition abs_store :: "'db ext_api \<Rightarrow> view \<Rightarrow> 'db storage \<Rightarrow> string \<rightharpoonup> bytes \<times> int" where
  "abs_store E m s key = (case row_of E m key of None \<Rightarrow> None
     | Some vm \<Rightarrow> (case open_value s key vm of Some (Inr b) \<Rightarrow> Some (b, Expiry vm) | _ \<Rightarrow> None))"

text \<open>A path that no row, no segment and no file uses, as a fresh UUID is.\<close>

definition fresh_file :: "'db ext_api \<Rightarrow> view \<Rightarrow> 'db storage \<Rightarrow> string \<Rightarrow> bool" where
  "fresh_file E m s p \<longleftrightarrow> st_disk s p = None
     \<and> (\<forall>k vm. row_of E m k = Some vm \<longrightarrow> RawFilePath vm \<noteq> p)
     \<and> (\<forall>q seg. segMap (st_segs s) q = Some seg \<longrightarrow> seg_path seg \<noteq> p)"

definition env_ok :: "op_env \<Rightarrow> bool" where
  "env_ok e \<longleftrightarrow> (\<forall>i. time_ok (clk e i))"

lemma row_of_cong: "m (MakeMetadataKey k) = m' (MakeMetadataKey k) \<Longrightarrow> row_of P m k = row_of P m' k"
  by (simp add: row_of_def)

lemma open_value_cong:
  "st_disk s = st_disk s' \<Longrightarrow> st_segs s = st_segs s' \<Longrightarrow> open_value s k vm = open_value s' k vm"
  by (simp add: open_value_def FileManager_Read_def split: ValueType.splits)

lemma abs_store_cong:
  assumes "st_disk s = st_disk s'" "st_segs s = st_segs s'"
  shows "abs_store E m s = abs_store E m s'"
  by (rule ext) (simp only: abs_store_def open_value_cong [OF assms])

text \<open>Writing a file that nothing refers to does not change what any row reads.\<close>

lemma open_value_new_file:
  assumes "\<forall>q seg. segMap (st_segs s) q = Some seg \<longrightarrow> seg_path seg \<noteq> p" "RawFilePath vm \<noteq> p"
  shows "open_value (s\<lparr>st_disk := (st_disk s)(p := x)\<rparr>) k vm = open_value s k vm"
  using assms
  by (auto simp: open_value_def FileManager_Read_def Manager_ReadEntry_def Segment_ReadEntry_def
      split: ValueType.splits option.splits)

context rocksdb
begin

lemma putLow_ok:
  assumes "putLow E e key val p n s = (r, s')" "env_ok e" "index_inv (view (st_meta s))"
  shows "meta_only s s'" "index_inv (view (st_meta s'))"
    "k \<noteq> key \<Longrightarrow> view (st_meta s') (MakeMetadataKey k) = view (st_meta s) (MakeMetadataKey k)"
    "r = Inr ps \<Longrightarrow> view (st_meta s') (MakeMetadataKey key) = Some val"
    "r = Inl err \<Longrightarrow> view (st_meta s') = view (st_meta s)"
    "r = Inr ps \<Longrightarrow> \<exists>prev s1. existingValue E (MakeMetadataKey key) s = (prev, s1)
       \<and> ps = (case prev of None \<Rightarrow> 0 | Some c \<Rightarrow> cf_valueLength c)"
proof -
  let ?mk = "MakeMetadataKey key"
  obtain prev s1 where ex: "existingValue E ?mk s = (prev, s1)" by fastforce
  obtain ix s2 where ix: "index_for_eviction E key (clk e 2) s1 = (ix, s2)" by fastforce
  define b0 where "b0 = (if n > inlineThreshold s \<and> n \<le> compactThreshold s
     then [WPut (MakeCompactionKey (now_nano e 1) key) p] else [])"
  define credit where "credit = (case prev of None \<Rightarrow> [] | Some c \<Rightarrow> if cf_valueType c = SEGMENT \<and> cf_segmentPath c \<noteq> []
     then [WMerge (MakeDeleteIndexKey (cf_segmentPath c)) (MakeDeleteIndexOperand 1 (cf_valueLength c))] else [])"
  obtain wr s3 where wr: "meta_write E (b0 @ [WPut ?mk val] @ credit @ ix) s2 = (wr, s3)" by fastforce
  define s4 where "s4 = (case prev of None \<Rightarrow> s3 | Some c \<Rightarrow> if cf_valueType c = RAW_FILE
     then stageRawFileDeletion E (now_nano e 3) (cf_rawFilePath c) s3 else s3)"
  have res: "r = (case wr of None \<Rightarrow> Inr (case prev of None \<Rightarrow> 0 | Some c \<Rightarrow> cf_valueLength c) | Some err \<Rightarrow> Inl err)"
    "s' = (case wr of None \<Rightarrow> s4 | Some err \<Rightarrow> s3)"
    using assms(1) ex ix wr unfolding b0_def credit_def s4_def putLow_def PrepareEntryForCompaction_def
    by (auto simp: Let_def split: option.splits)
  note ex_ok = existingValue_ok [OF ex]
  have t: "time_ok (clk e 2)" using assms(2) by (simp add: env_ok_def)
  note ix_ok = index_for_eviction_ok [OF ix t, unfolded ex_ok(2), OF assms(3)]
  note wr_ok = meta_write_ok [OF wr]
  have mo3: "meta_only s s3" using ex_ok(1) ix_ok(1) wr_ok(1) meta_only_trans by blast
  have v2: "view (st_meta s2) = view (st_meta s)" using ix_ok(2) by simp
  let ?m = "view (st_meta s)"
  let ?m1 = "apply_batch E ?m (b0 @ [WPut ?mk val] @ credit)"
  have side: "\<forall>w \<in> set (b0 @ credit). side_key (wop_key w)"
    by (auto simp: b0_def credit_def split: option.splits if_splits)
  note batch = write_batch [where ?b0.0 = b0 and ?b1.0 = credit and ix = ix and x = "WPut ?mk val" and key = key,
      OF side ix_ok(3) wop_key.simps(1)]
  have v3: "view (st_meta s3) = apply_batch E ?m (b0 @ [WPut ?mk val] @ credit @ ix)" if "wr = None"
    using wr_ok(2) [OF that] v2 by simp
  have inv3: "index_inv (view (st_meta s3))"
  proof (cases wr)
    case None
    have "index_inv ?m1" using index_inv_cong [OF assms(3)] batch(3) by blast
    then have "index_inv (apply_batch E ?m1 ix)" by (rule ix_ok(4)) (rule batch(3) [OF index_key_make(1)])
    then show ?thesis using v3 [OF None] by simp
  qed (use wr_ok(3) v2 assms(3) in simp)
  have st4: "meta_only s3 s4" "\<not> side_key k \<Longrightarrow> view (st_meta s4) k = view (st_meta s3) k" for k
    using stageRawFileDeletion_ok [OF refl]
    by (auto simp: s4_def split: option.splits)
  show "meta_only s s'" using res mo3 st4(1) meta_only_trans by (cases wr) auto
  have "index_inv (view (st_meta s4))"
    using inv3 by (rule index_inv_cong) (use st4(2) side_not_index in blast)
  then show "index_inv (view (st_meta s'))" using res inv3 by (cases wr) auto
  show "view (st_meta s') (MakeMetadataKey k) = ?m (MakeMetadataKey k)" if "k \<noteq> key"
    using res batch(1) [OF that] v3 wr_ok(3) v2 st4(2) by (cases wr) auto
  show "view (st_meta s') ?mk = Some val" if "r = Inr ps"
    using that res batch(2) v3 st4(2) by (cases wr) auto
  show "view (st_meta s') = ?m" if "r = Inl err"
    using that res wr_ok(3) v2 by (cases wr) auto
  show "\<exists>prev s1. existingValue E ?mk s = (prev, s1) \<and> ps = (case prev of None \<Rightarrow> 0 | Some c \<Rightarrow> cf_valueLength c)"
    if "r = Inr ps" using that res ex by (cases wr) auto
qed

text \<open>A step that leaves the rows of a key alone and at most touches an unused file.\<close>

lemma abs_store_frame:
  assumes "fresh_file E m s p" "st_disk s' = st_disk s \<or> st_disk s' = (st_disk s)(p := x)" "st_segs s' = st_segs s"
    and "m' (MakeMetadataKey k) = m (MakeMetadataKey k)"
  shows "abs_store E m' s' k = abs_store E m s k"
proof -
  have row: "row_of E m' k = row_of E m k" using assms(4) by (rule row_of_cong)
  have "open_value s' k vm = open_value s k vm" if "row_of E m k = Some vm" for vm
  proof (cases "st_disk s' = st_disk s")
    case True
    then show ?thesis using assms(3) by (intro open_value_cong)
  next
    case False
    then have "open_value s' k vm = open_value (s\<lparr>st_disk := (st_disk s)(p := x)\<rparr>) k vm"
      using assms(2,3) by (intro open_value_cong) auto
    also have "\<dots> = open_value s k vm"
      using assms(1) that by (intro open_value_new_file) (auto simp: fresh_file_def)
    finally show ?thesis .
  qed
  then show ?thesis by (auto simp: abs_store_def row split: option.splits)
qed

lemma FileManager_Write_ok:
  assumes "FileManager_Write e key r s = (res, s1)"
  shows "\<exists>x. s1 = s \<or> s1 = s\<lparr>st_disk := (st_disk s)(filesPath s @ ''/'' @ uuid e := x)\<rparr>"
    and "res = Inr (p, c, n) \<Longrightarrow> snd r = None \<and> p = filesPath s @ ''/'' @ uuid e \<and> n = int (length (fst r))
       \<and> s1 = s\<lparr>st_disk := (st_disk s)(p \<mapsto> fst r)\<rparr>"
    and "res = Inl x \<Longrightarrow> \<exists>msg y. x = Wrapped msg y"
  using assms
  by (auto simp: FileManager_Write_def copyRawFilePayload_def Let_def split: option.splits sum.splits prod.splits if_splits)

lemma storage_notify [simp]:
  "st_meta (notifyPut n s) = st_meta s" "st_disk (notifyPut n s) = st_disk s" "st_segs (notifyPut n s) = st_segs s"
  "st_meta (notifyDelete n s) = st_meta s" "st_disk (notifyDelete n s) = st_disk s" "st_segs (notifyDelete n s) = st_segs s"
  "filesPath (notifyDelete n s) = filesPath s" "evictionPolicy (notifyDelete n s) = evictionPolicy s"
  by (simp_all add: notifyPut_def notifyDelete_def UpdateSize_def)

lemma stage_frame:
  assumes "s' = stageRawFileDeletion E now p s"
  shows "st_disk s' = st_disk s" "st_segs s' = st_segs s"
    "view (st_meta s') (MakeMetadataKey k) = view (st_meta s) (MakeMetadataKey k)"
    "index_inv (view (st_meta s)) \<Longrightarrow> index_inv (view (st_meta s'))"
proof -
  note ok = stageRawFileDeletion_ok [OF assms]
  show "st_disk s' = st_disk s" "st_segs s' = st_segs s" using meta_only_fields(1,2) [OF ok(1)] .
  show "view (st_meta s') (MakeMetadataKey k) = view (st_meta s) (MakeMetadataKey k)" by (rule ok(2)) simp
  show "index_inv (view (st_meta s'))" if "index_inv (view (st_meta s))"
    using that by (rule index_inv_cong) (use ok(2) side_not_index in blast)
qed

text \<open>A raw-file put: the row points at the new file, which holds the body.\<close>

lemma Put_raw:
  assumes w: "FileManager_Write e key body s = (Inr (p, c, n), s1)"
    and marsh: "marshal E (vm0\<lparr>RawFilePath := p, Expiry := x, ValueLength := n, Checksum := c, ValueTypeF := RAW_FILE\<rparr>) = Some val"
    and low: "putLow E e key val p n s1 = (Inr ps, s2)" and env: "env_ok e"
    and inv: "index_inv (view (st_meta s))" and fresh: "fresh_file E (view (st_meta s)) s (filesPath s @ ''/'' @ uuid e)"
    and pos: "fst body \<noteq> []"
  shows "abs_store E (view (st_meta s2)) s2 = (abs_store E (view (st_meta s)) s)(key \<mapsto> (fst body, x))"
proof
  fix k
  have p: "p = filesPath s @ ''/'' @ uuid e" "n = int (length (fst body))" "s1 = s\<lparr>st_disk := (st_disk s)(p \<mapsto> fst body)\<rparr>"
    using FileManager_Write_ok(2) [OF w refl] by auto
  have inv1: "index_inv (view (st_meta s1))" using inv p(3) by simp
  note low_ok = putLow_ok [OF low env inv1]
  have disk: "st_disk s2 = (st_disk s)(p \<mapsto> fst body)" "st_segs s2 = st_segs s"
    using meta_only_fields(1,2) [OF low_ok(1)] p(3) by simp_all
  show "abs_store E (view (st_meta s2)) s2 k = ((abs_store E (view (st_meta s)) s)(key \<mapsto> (fst body, x))) k"
  proof (cases "k = key")
    case True
    have "FileManager_Read s2 p n = Inr (fst body)"
      using p(1,2) disk(1) pos by (simp add: FileManager_Read_def)
    then show ?thesis
      using True low_ok(4) [OF refl] unmarshal_marshal [OF marsh]
      by (simp add: abs_store_def row_of_def open_value_def)
  next
    case False
    have "abs_store E (view (st_meta s2)) s2 k = abs_store E (view (st_meta s)) s k"
      by (rule abs_store_frame [OF fresh, where x = "Some (fst body)"])
        (use disk p(1,3) low_ok(3) [OF False] in simp_all)
    then show ?thesis using False by simp
  qed
qed

lemma Put_inline:
  assumes marsh: "marshal E (vm0\<lparr>Data := b, Expiry := x, ValueLength := n, ValueTypeF := INLINE\<rparr>) = Some val"
    and low: "putLow E e key val p n s = (Inr ps, s2)" and env: "env_ok e"
    and inv: "index_inv (view (st_meta s))" and fresh: "fresh_file E (view (st_meta s)) s q"
  shows "abs_store E (view (st_meta s2)) s2 = (abs_store E (view (st_meta s)) s)(key \<mapsto> (b, x))"
proof
  fix k
  note low_ok = putLow_ok [OF low env inv]
  have disk: "st_disk s2 = st_disk s" "st_segs s2 = st_segs s"
    using meta_only_fields(1,2) [OF low_ok(1)] by simp_all
  show "abs_store E (view (st_meta s2)) s2 k = ((abs_store E (view (st_meta s)) s)(key \<mapsto> (b, x))) k"
  proof (cases "k = key")
    case True
    then show ?thesis
      using low_ok(4) [OF refl] unmarshal_marshal [OF marsh] by (simp add: abs_store_def row_of_def open_value_def)
  next
    case False
    have "abs_store E (view (st_meta s2)) s2 k = abs_store E (view (st_meta s)) s k"
      by (rule abs_store_frame [OF fresh]) (use disk low_ok(3) [OF False] in simp_all)
    then show ?thesis using False by simp
  qed
qed

lemma read_first_chunk_ok:
  assumes "read_first_chunk s body = Inr chunk" "0 \<le> inlineThreshold s"
  shows "int (length chunk) > inlineThreshold s \<Longrightarrow> fst body \<noteq> []"
    and "\<not> int (length chunk) > inlineThreshold s \<Longrightarrow> chunk = fst body \<and> snd body = None"
  using assms by (auto simp: read_first_chunk_def firstReadSize_def split: if_splits)

text \<open>A put that fails after its file was written: the rows are those before.\<close>

lemma Put_failed:
  assumes fresh: "fresh_file E (view (st_meta s)) s (filesPath s @ ''/'' @ uuid e)"
    and s1: "s1 = s \<or> s1 = s\<lparr>st_disk := (st_disk s)(filesPath s @ ''/'' @ uuid e := x)\<rparr>"
    and s2: "meta_only s1 s2" "\<And>k. view (st_meta s2) (MakeMetadataKey k) = view (st_meta s) (MakeMetadataKey k)"
  shows "abs_store E (view (st_meta s2)) s2 = abs_store E (view (st_meta s)) s"
proof
  fix k
  show "abs_store E (view (st_meta s2)) s2 k = abs_store E (view (st_meta s)) s k"
    by (rule abs_store_frame [OF fresh, where x = x]) (use s1 s2 meta_only_fields(1,2) [OF s2(1)] in auto)
qed

lemma Put_result:
  assumes put: "Put E e key body ttl s = (r, s')" and env: "env_ok e" and inv: "index_inv (view (st_meta s))"
    and fresh: "fresh_file E (view (st_meta s)) s (filesPath s @ ''/'' @ uuid e)" and thr: "0 \<le> inlineThreshold s"
  shows "index_inv (view (st_meta s')) \<and> abs_store E (view (st_meta s')) s' = (case r of
      None \<Rightarrow> (abs_store E (view (st_meta s)) s)(key \<mapsto> (fst body, write_expiry (now_nano e 0) s ttl))
    | Some err \<Rightarrow> abs_store E (view (st_meta s)) s) \<and> (r = None \<longrightarrow> snd body = None)"
proof (cases "read_first_chunk s body")
  case (Inl err)
  then show ?thesis using put inv by (auto simp: Put_def)
next
  case (Inr chunk)
  let ?x = "write_expiry (now_nano e 0) s ttl"
  show ?thesis
  proof (cases "int (length chunk) > inlineThreshold s")
    case True
    obtain res s1 where w: "FileManager_Write e key body s = (res, s1)" by fastforce
    obtain y where s1: "s1 = s \<or> s1 = s\<lparr>st_disk := (st_disk s)(filesPath s @ ''/'' @ uuid e := y)\<rparr>"
      using FileManager_Write_ok(1) [OF w] by blast
    then have meta1: "st_meta s1 = st_meta s" by auto
    show ?thesis
    proof (cases res)
      case (Inl err)
      then show ?thesis
        using put Inr True w inv meta1 Put_failed [OF fresh s1 meta_only_refl] by (auto simp: Put_def)
    next
      case res: (Inr f)
      obtain p c n where f: "f = (p, c, n)" by (cases f)
      let ?vm = "vm0\<lparr>RawFilePath := p, Expiry := ?x, ValueLength := n, Checksum := c, ValueTypeF := RAW_FILE\<rparr>"
      show ?thesis
      proof (cases "marshal E ?vm")
        case None
        then have "r \<noteq> None" "s' = stageRawFileDeletion E (now_nano e 4) p s1"
          using put Inr True w by (auto simp: Put_def res f Let_def)
        then show ?thesis
          using inv meta1 stage_frame [of s'] stageRawFileDeletion_ok(1) [of s']
            Put_failed [OF fresh s1, of s'] by auto
      next
        case (Some val)
        obtain pr s2 where low: "putLow E e key val p n s1 = (pr, s2)" by fastforce
        have inv1: "index_inv (view (st_meta s1))" using inv meta1 by simp
        note low_ok = putLow_ok [OF low env inv1]
        show ?thesis
        proof (cases pr)
          case (Inl err)
          then have r: "r \<noteq> None" "s' = stageRawFileDeletion E (now_nano e 4) p s2"
            using put Inr True w low Some by (auto simp: Put_def res f Let_def)
          have v2: "view (st_meta s2) = view (st_meta s)" using low_ok(5) [OF Inl] meta1 by simp
          have "meta_only s1 s'"
            using low_ok(1) stageRawFileDeletion_ok(1) [OF r(2)] meta_only_trans by blast
          then show ?thesis
            using r v2 inv stage_frame [OF r(2)] Put_failed [OF fresh s1, of s'] by auto
        next
          case (Inr ps)
          have r: "r = None" "s' = notifyPut (n - ps) s2"
            using put \<open>read_first_chunk s body = Inr chunk\<close> True w low Some Inr by (auto simp: Put_def res f Let_def)
          have "abs_store E (view (st_meta s')) s' = abs_store E (view (st_meta s2)) s2"
            by (simp add: r(2) abs_store_cong [of "notifyPut (n - ps) s2" s2])
          then show ?thesis
            using Put_raw [OF w [unfolded res f] Some low [unfolded Inr] env inv fresh] r low_ok(2)
              read_first_chunk_ok(1) [OF \<open>read_first_chunk s body = Inr chunk\<close> thr True] FileManager_Write_ok(2) [OF w, of p c n]
            by (simp add: res f)
        qed
      qed
    qed
  next
    case False
    note chunk = read_first_chunk_ok(2) [OF Inr thr False]
    let ?vm = "vm0\<lparr>Data := chunk, Expiry := ?x, ValueLength := int (length chunk), ValueTypeF := INLINE\<rparr>"
    show ?thesis
    proof (cases "marshal E ?vm")
      case None
      then show ?thesis using put Inr False inv by (auto simp: Put_def Let_def)
    next
      case (Some val)
      obtain pr s2 where low: "putLow E e key val [] (int (length chunk)) s = (pr, s2)" by fastforce
      note low_ok = putLow_ok [OF low env inv]
      show ?thesis
      proof (cases pr)
        case (Inl err)
        then have "r \<noteq> None" "s' = s2" using put Inr False Some low by (auto simp: Put_def Let_def)
        then show ?thesis
          using low_ok(1,2) low_ok(5) [OF Inl] Put_failed [OF fresh, of s undefined s2] by auto
      next
        case ps: (Inr ps)
        then have r: "r = None" "s' = notifyPut (int (length chunk) - ps) s2"
          using put Inr False Some low by (auto simp: Put_def Let_def)
        have "abs_store E (view (st_meta s')) s' = abs_store E (view (st_meta s2)) s2"
          by (simp add: r(2) abs_store_cong [of "notifyPut (int (length chunk) - ps) s2" s2])
        then show ?thesis
          using Put_inline [OF Some low [unfolded ps] env inv fresh] r low_ok(2) chunk by simp
      qed
    qed
  qed
qed

text \<open>The rows, files and size counter after a delete.\<close>

lemma DeleteKey_rows:
  assumes del: "DeleteKey E e key s = (r, s')" and inv: "index_inv (view (st_meta s))"
  shows "st_disk s' = st_disk s \<and> st_segs s' = st_segs s" "index_inv (view (st_meta s'))"
    and "r = None \<Longrightarrow> view (st_meta s') (MakeMetadataKey k) = (if k = key then None else view (st_meta s) (MakeMetadataKey k))"
    and "r = Some err \<Longrightarrow> view (st_meta s') = view (st_meta s)"
    and "totalSize s' = (case fst (meta_get E (MakeMetadataKey key) s) of
        Inr (Some row) \<Rightarrow> (case decodeValueMessageCleanupFields E row of
          None \<Rightarrow> totalSize s | Some v \<Rightarrow> wrap_int64 (totalSize s - cf_valueLength v))
      | _ \<Rightarrow> totalSize s)"
proof -
  let ?mk = "MakeMetadataKey key" and ?m = "view (st_meta s)"
  obtain g s1 where g: "meta_get E ?mk s = (g, s1)" by fastforce
  note g_ok = meta_get_ok [OF g]
  have s1: "st_disk s1 = st_disk s" "st_segs s1 = st_segs s" "totalSize s1 = totalSize s"
    using meta_only_fields(1-3) [OF g_ok(1)] .
  have goal: "(st_disk s' = st_disk s \<and> st_segs s' = st_segs s) \<and> index_inv (view (st_meta s'))
    \<and> (r = None \<longrightarrow> (\<forall>k. view (st_meta s') (MakeMetadataKey k) = (if k = key then None else ?m (MakeMetadataKey k))))
    \<and> (\<forall>err. r = Some err \<longrightarrow> view (st_meta s') = ?m)
    \<and> totalSize s' = (case g of Inr (Some row) \<Rightarrow> (case decodeValueMessageCleanupFields E row of
          None \<Rightarrow> totalSize s | Some v \<Rightarrow> wrap_int64 (totalSize s - cf_valueLength v)) | _ \<Rightarrow> totalSize s)"
  proof (cases "\<exists>row. g = Inr (Some row)")
    case False
    then show ?thesis
      using del g g_ok(2,3) s1 inv by (auto simp: DeleteKey_def split: sum.splits option.splits)
  next
    case True
    then obtain row where row: "g = Inr (Some row)" by blast
    define dec where "dec = decodeValueMessageCleanupFields E row"
    define s2 where "s2 = (case dec of None \<Rightarrow> s1 | Some v \<Rightarrow> notifyDelete (cf_valueLength v) s1)"
    obtain ix s3 where ix: "stageEvictionIndexDeletes E key s2 = (ix, s3)" by fastforce
    define credit where "credit = (case dec of None \<Rightarrow> [] | Some v \<Rightarrow> if cf_valueType v = SEGMENT \<and> cf_segmentPath v \<noteq> []
       then [WMerge (MakeDeleteIndexKey (cf_segmentPath v)) (MakeDeleteIndexOperand 1 (cf_valueLength v))] else [])"
    obtain wr s4 where wr: "meta_write E ([WDelete ?mk] @ ix @ credit) s3 = (wr, s4)" by fastforce
    define s5 where "s5 = (case dec of None \<Rightarrow> s4 | Some v \<Rightarrow> if cf_valueType v = RAW_FILE
       then stageRawFileDeletion E (now_nano e 0) (cf_rawFilePath v) s4 else s4)"
    have res: "r = map_option (mapRocksDBError ''DeleteKey'' key) wr" "s' = (case wr of None \<Rightarrow> s5 | Some _ \<Rightarrow> s4)"
      using del g ix wr unfolding DeleteKey_def row s5_def s2_def credit_def dec_def Let_def
      by (auto split: option.splits)
    have s2: "view (st_meta s2) = ?m" "st_disk s2 = st_disk s" "st_segs s2 = st_segs s"
      "totalSize s2 = (case dec of None \<Rightarrow> totalSize s | Some v \<Rightarrow> wrap_int64 (totalSize s - cf_valueLength v))"
      using g_ok(2) s1 by (auto simp: s2_def notifyDelete_def UpdateSize_def split: option.splits)
    note ix_ok = stageEvictionIndexDeletes_ok [OF ix, unfolded s2(1), OF inv]
    note wr_ok = meta_write_ok [OF wr, unfolded ix_ok(2)]
    have s4: "st_disk s4 = st_disk s" "st_segs s4 = st_segs s" "totalSize s4 = totalSize s2"
      using s2(2,3) meta_only_fields(1-3) [OF ix_ok(1)] meta_only_fields(1-3) [OF wr_ok(1)] by simp_all
    have s5: "st_disk s5 = st_disk s4" "st_segs s5 = st_segs s4" "totalSize s5 = totalSize s4"
      "view (st_meta s5) (MakeMetadataKey k) = view (st_meta s4) (MakeMetadataKey k)"
      "index_inv (view (st_meta s4)) \<Longrightarrow> index_inv (view (st_meta s5))" for k
      using stage_frame [OF refl] meta_only_fields(3) [OF stageRawFileDeletion_ok(1) [OF refl]]
      by (auto simp: s5_def split: option.splits)
    show ?thesis
    proof (cases wr)
      case (Some err)
      then show ?thesis using res wr_ok(3) inv s4 s2(4) by (simp add: row dec_def)
    next
      case None
      have side: "\<forall>w \<in> set credit. side_key (wop_key w)"
        by (auto simp: credit_def split: option.splits if_splits)
      have cr: "\<not> side_key b \<Longrightarrow> apply_batch E n credit b = n b" for n b
        using side by (auto intro!: apply_batch_same)
      let ?m1 = "apply_batch E ?m ([] @ [WDelete ?mk] @ [] @ ix)"
      note batch = write_batch [where P = E and ?b0.0 = "[]" and ?b1.0 = "[]" and ix = ix and x = "WDelete ?mk" and key = key,
          OF _ ix_ok(3) wop_key.simps(2), simplified]
      have v4: "view (st_meta s4) = apply_batch E ?m1 credit" using wr_ok(2) [OF None] by simp
      have row4: "view (st_meta s4) (MakeMetadataKey k) = (if k = key then None else ?m (MakeMetadataKey k))" for k
        using v4 cr [of "MakeMetadataKey k"] batch(1) [of k] batch(2) by simp
      have "index_inv (apply_batch E ?m [WDelete ?mk])"
        using inv by (rule index_inv_cong) auto
      then have "index_inv ?m1" using ix_ok(4) by (simp add: eviction_backref_def)
      then have "index_inv (view (st_meta s4))"
        unfolding v4 by (rule index_inv_cong) (use cr side_not_index in blast)
      then show ?thesis using res None s5 s4 row4 s2(4) by (simp add: row dec_def)
    qed
  qed
  show "st_disk s' = st_disk s \<and> st_segs s' = st_segs s" "index_inv (view (st_meta s'))"
    "r = None \<Longrightarrow> view (st_meta s') (MakeMetadataKey k) = (if k = key then None else ?m (MakeMetadataKey k))"
    "r = Some err \<Longrightarrow> view (st_meta s') = ?m"
    using goal by blast+
  show "totalSize s' = (case fst (meta_get E ?mk s) of Inr (Some row) \<Rightarrow> (case decodeValueMessageCleanupFields E row of
          None \<Rightarrow> totalSize s | Some v \<Rightarrow> wrap_int64 (totalSize s - cf_valueLength v)) | _ \<Rightarrow> totalSize s)"
    using goal g by simp
qed

lemma DeleteKey_result:
  assumes "DeleteKey E e key s = (r, s')" "index_inv (view (st_meta s))"
  shows "index_inv (view (st_meta s')) \<and> abs_store E (view (st_meta s')) s' = (case r of
      None \<Rightarrow> (abs_store E (view (st_meta s)) s)(key := None) | Some err \<Rightarrow> abs_store E (view (st_meta s)) s)"
proof (cases r)
  case None
  note rows = DeleteKey_rows [OF assms]
  have "abs_store E (view (st_meta s')) s k = ((abs_store E (view (st_meta s)) s)(key := None)) k" for k
    using rows(3) [OF None, of k] by (simp add: abs_store_def row_of_def)
  then show ?thesis using None rows(1,2) abs_store_cong [of s' s] by auto
qed (use DeleteKey_rows(1,2,4) [OF assms] abs_store_cong [of s' s] in simp)

text \<open>What a read returns, from the abstract state.\<close>

lemma Get_result:
  assumes get: "Get E e key start end' s = (res, s')"
  shows "res = Inr x \<Longrightarrow> view (st_meta s') = view (st_meta s) \<and> st_disk s' = st_disk s \<and> st_segs s' = st_segs s
      \<and> x = (case abs_store E (view (st_meta s)) s key of None \<Rightarrow> None
         | Some (b, expiry) \<Rightarrow> if expiry > 0 \<and> now_unix e 0 \<ge> expiry then None
             else Some (applyByteRange \<lparr>sr_data = b, sr_pos = 0, sr_seekable = True\<rparr>
                          (if start > 0 \<or> end' > 0 then start else 0) (if start > 0 \<or> end' > 0 then end' else 0)))"
    and "res = Inl err \<Longrightarrow> (\<exists>d. fst (meta_get E (MakeMetadataKey key) s) = Inl d) \<or> abs_store E (view (st_meta s)) s key = None"
proof -
  obtain g s1 where g: "meta_get E (MakeMetadataKey key) s = (g, s1)" by fastforce
  note g_ok = meta_get_ok [OF g]
  have disk1: "st_disk s1 = st_disk s" "st_segs s1 = st_segs s" using meta_only_fields(1,2) [OF g_ok(1)] .
  have open2: "open_value (UpdateNow e t key s1) key vm = open_value s key vm" for t vm
    using disk1 by (intro open_value_cong) (simp_all add: UpdateNow_def)
  have s2: "view (st_meta (UpdateNow e t key s1)) = view (st_meta s)" "st_disk (UpdateNow e t key s1) = st_disk s"
    "st_segs (UpdateNow e t key s1) = st_segs s" for t
    using g_ok(2) disk1 by (simp_all add: UpdateNow_def)
  have row: "view (st_meta s) (MakeMetadataKey key) = y" if "g = Inr y" for y
    using that g_ok(3) by simp
  let ?expired = "\<lambda>vm. Expiry vm > 0 \<and> now_unix e 0 \<ge> Expiry vm"
  consider (err) d where "g = Inl d" | (none) "g = Inr None"
    | (bad) v where "g = Inr (Some v)" "unmarshal E v = None"
    | (dead) v vm where "g = Inr (Some v)" "unmarshal E v = Some vm" "?expired vm"
    | (live) v vm where "g = Inr (Some v)" "unmarshal E v = Some vm" "\<not> ?expired vm"
    by (cases g; cases "case g of Inr (Some v) \<Rightarrow> unmarshal E v | _ \<Rightarrow> None") (auto split: sum.splits option.splits)
  note cases = this
  have live_res: "res = Inr x \<Longrightarrow> (\<exists>b. open_value s key vm = Some (Inr b) \<and> s' = UpdateNow e (clk e 1) key s1
       \<and> x = Some (applyByteRange \<lparr>sr_data = b, sr_pos = 0, sr_seekable = True\<rparr>
          (if start > 0 \<or> end' > 0 then start else 0) (if start > 0 \<or> end' > 0 then end' else 0)))"
    "res = Inl err \<Longrightarrow> \<forall>b. open_value s key vm \<noteq> Some (Inr b)"
    if "g = Inr (Some v)" "unmarshal E v = Some vm" "\<not> ?expired vm" for v vm
    using get g that open2 by (auto simp: Get_def Let_def split: option.splits sum.splits if_splits)
  show "view (st_meta s') = view (st_meta s) \<and> st_disk s' = st_disk s \<and> st_segs s' = st_segs s
      \<and> x = (case abs_store E (view (st_meta s)) s key of None \<Rightarrow> None
         | Some (b, expiry) \<Rightarrow> if expiry > 0 \<and> now_unix e 0 \<ge> expiry then None
             else Some (applyByteRange \<lparr>sr_data = b, sr_pos = 0, sr_seekable = True\<rparr>
                          (if start > 0 \<or> end' > 0 then start else 0) (if start > 0 \<or> end' > 0 then end' else 0)))"
    if r: "res = Inr x"
    using cases
  proof cases
    case live
    then show ?thesis
      using live_res(1) [OF live r] s2 row [OF live(1)] by (auto simp: abs_store_def row_of_def)
  qed (use get g r row g_ok(2) disk1 in \<open>auto simp: Get_def abs_store_def row_of_def split: option.splits sum.splits\<close>)
  show "(\<exists>d. fst (meta_get E (MakeMetadataKey key) s) = Inl d) \<or> abs_store E (view (st_meta s)) s key = None"
    if r: "res = Inl err"
    using cases
  proof cases
    case live
    then show ?thesis
      using live_res(2) [OF live r] row [OF live(1)] by (auto simp: abs_store_def row_of_def split: option.splits sum.splits)
  qed (use get g r row in \<open>auto simp: Get_def abs_store_def row_of_def\<close>)
qed

end

section \<open>Size accounting\<close>

text \<open>The length a row accounts for, and the counter as the sum over all rows.\<close>

definition row_len :: "'a proto_api_scheme \<Rightarrow> view \<Rightarrow> string \<Rightarrow> int" where
  "row_len P m key = (case m (MakeMetadataKey key) of None \<Rightarrow> 0
     | Some b \<Rightarrow> (case decodeValueMessageCleanupFields P b of None \<Rightarrow> 0 | Some c \<Rightarrow> cf_valueLength c))"

definition size_inv :: "'a proto_api_scheme \<Rightarrow> view \<Rightarrow> int \<Rightarrow> bool" where
  "size_inv P m n \<longleftrightarrow> finite {k. m (MakeMetadataKey k) \<noteq> None}
     \<and> n = (\<Sum>k | m (MakeMetadataKey k) \<noteq> None. row_len P m k)"

lemma size_inv_update:
  assumes "size_inv P m n" "\<And>k. k \<noteq> key \<Longrightarrow> m' (MakeMetadataKey k) = m (MakeMetadataKey k)"
  shows "size_inv P m' (n + row_len P m' key - row_len P m key)"
proof -
  let ?K = "\<lambda>m. {k. m (MakeMetadataKey k) \<noteq> None}"
  have fin: "finite (?K m)" using assms(1) by (simp add: size_inv_def)
  have sub: "?K m' \<subseteq> insert key (?K m)" using assms(2) by auto
  then have fin': "finite (?K m')" using fin finite_subset by auto
  have sum_at: "(\<Sum>k \<in> ?K x. row_len P x k) = row_len P x key + (\<Sum>k \<in> ?K x - {key}. row_len P x k)"
    if "finite (?K x)" for x
  proof (cases "x (MakeMetadataKey key) = None")
    case True
    then have "?K x - {key} = ?K x" by auto
    then show ?thesis using True by (simp add: row_len_def)
  qed (use that in \<open>simp add: sum.remove\<close>)
  have "(\<Sum>k \<in> ?K m' - {key}. row_len P m' k) = (\<Sum>k \<in> ?K m - {key}. row_len P m k)"
    using assms(2) by (intro sum.cong) (auto simp: row_len_def)
  then show ?thesis
    using assms(1) sum_at [OF fin] sum_at [OF fin'] fin' by (simp add: size_inv_def)
qed

context rocksdb
begin

lemma putLow_len:
  assumes "putLow E e key val p n s = (Inr ps, s')" "env_ok e" "index_inv (view (st_meta s))"
    and "fst (meta_get E (MakeMetadataKey key) s) = Inr row"
  shows "ps = row_len E (view (st_meta s)) key"
proof -
  obtain prev s1 where ex: "existingValue E (MakeMetadataKey key) s = (prev, s1)"
    "ps = (case prev of None \<Rightarrow> 0 | Some c \<Rightarrow> cf_valueLength c)"
    using putLow_ok(6) [OF assms(1-3) refl] by blast
  obtain s2 where g: "meta_get E (MakeMetadataKey key) s = (Inr row, s2)"
    using assms(4) by (cases "meta_get E (MakeMetadataKey key) s") simp
  then show ?thesis
    using ex meta_get_Inr [OF g] by (auto simp: existingValue_def row_len_def split: option.splits)
qed

lemma Put_len:
  assumes put: "Put E e key body ttl s = (None, s')" and env: "env_ok e" and inv: "index_inv (view (st_meta s))"
    and thr: "0 \<le> inlineThreshold s" and row: "fst (meta_get E (MakeMetadataKey key) s) = Inr row"
  shows "totalSize s' = wrap_int64 (totalSize s + int (length (fst body)) - row_len E (view (st_meta s)) key)"
    and "row_len E (view (st_meta s')) key = int (length (fst body))"
    and "k \<noteq> key \<Longrightarrow> view (st_meta s') (MakeMetadataKey k) = view (st_meta s) (MakeMetadataKey k)"
proof -
  obtain chunk where ch: "read_first_chunk s body = Inr chunk"
    using put by (cases "read_first_chunk s body") (auto simp: Put_def)
  obtain val v p s1 ps s2 where v: "marshal E v = Some val" "ValueLength v = int (length (fst body))"
    and s1: "s1 = s \<or> (\<exists>x. s1 = s\<lparr>st_disk := x\<rparr>)"
    and low: "putLow E e key val p (int (length (fst body))) s1 = (Inr ps, s2)"
    and s': "s' = notifyPut (int (length (fst body)) - ps) s2"
  proof (cases "int (length chunk) > inlineThreshold s")
    case True
    obtain p c n s1 where w: "FileManager_Write e key body s = (Inr (p, c, n), s1)"
      using put ch True by (cases "FileManager_Write e key body s") (auto simp: Put_def split: sum.splits)
    note w_ok = FileManager_Write_ok(2) [OF w refl]
    let ?vm = "vm0\<lparr>RawFilePath := p, Expiry := write_expiry (now_nano e 0) s ttl, ValueLength := n, Checksum := c, ValueTypeF := RAW_FILE\<rparr>"
    obtain val ps s2 where "marshal E ?vm = Some val" "putLow E e key val p n s1 = (Inr ps, s2)" "s' = notifyPut (n - ps) s2"
      using put ch True w by (auto simp: Put_def Let_def split: option.splits sum.splits prod.splits)
    then show ?thesis using that [of ?vm val s1 p ps s2] w_ok by auto
  next
    case False
    note chunk = read_first_chunk_ok(2) [OF ch thr False]
    let ?vm = "vm0\<lparr>Data := chunk, Expiry := write_expiry (now_nano e 0) s ttl, ValueLength := int (length chunk), ValueTypeF := INLINE\<rparr>"
    obtain val ps s2 where "marshal E ?vm = Some val" "putLow E e key val [] (int (length chunk)) s = (Inr ps, s2)"
      "s' = notifyPut (int (length chunk) - ps) s2"
      using put ch False by (auto simp: Put_def Let_def split: option.splits sum.splits prod.splits)
    then show ?thesis using that [of ?vm val s "[]" ps s2] chunk by auto
  qed
  have meta1: "st_meta s1 = st_meta s" "totalSize s1 = totalSize s" using s1 by auto
  have inv1: "index_inv (view (st_meta s1))" using inv meta1 by simp
  note low_ok = putLow_ok [OF low env inv1]
  have row1: "fst (meta_get E (MakeMetadataKey key) s1) = Inr row"
    using row meta1(1) by (auto simp: meta_get_def split: prod.splits)
  have "ps = row_len E (view (st_meta s)) key" using putLow_len [OF low env inv1 row1] meta1(1) by simp
  then show "totalSize s' = wrap_int64 (totalSize s + int (length (fst body)) - row_len E (view (st_meta s)) key)"
    using s' meta_only_fields(3) [OF low_ok(1)] meta1(2) by (simp add: notifyPut_def UpdateSize_def algebra_simps)
  show "row_len E (view (st_meta s')) key = int (length (fst body))"
    using low_ok(4) [OF refl] s' scanned_cleanup [OF v(1)] v(2) by (simp add: row_len_def cleanup_of_def)
  show "view (st_meta s') (MakeMetadataKey k) = view (st_meta s) (MakeMetadataKey k)" if "k \<noteq> key"
    using low_ok(3) [OF that] s' meta1(1) by simp
qed

end

section \<open>Properties\<close>

text \<open>A small node, for the examples: values above three bytes go to raw files.\<close>

definition demo_env :: op_env where
  "demo_env = \<lparr>clk = (\<lambda>i. \<lparr>unixNano = 1700000000000000000, zoneOffset = 0\<rparr>), uuid = ''u1'', open_err = None,
     write_err = None, sync_err = None, buffer_full = False\<rparr>"

definition demo_store :: "(bytes \<times> bytes) list \<Rightarrow> string option list \<Rightarrow> memdb storage" where
  "demo_store rows errs = \<lparr>st_meta = (rows, errs), st_disk = Map.empty, st_segs = \<lparr>segmentsPath = ''s'', segmentSize = 100,
     segments = [], segMap = Map.empty, openSegments = []\<rparr>,
     filesPath = ''f'', inlineThreshold = 3, compactThreshold = 10, defaultTTL = 0, maxDiskUsage = 100,
     evictionPolicy = EvictionPolicyFIFO, totalSize = 0, hasUpdater = False, accessUpdates = [],
     lastVersion = 0, versionHi = 0\<rparr>"

lemma demo_env_ok: "env_ok demo_env"
  by (simp add: env_ok_def demo_env_def time_ok_def nonneg_int64_def valid_zone_def)

lemma demo_index_inv: "index_inv (\<lambda>k. None)"
  by (rule index_invI) simp_all

lemma demo_fresh: "fresh_file E (\<lambda>k. None) (demo_store rows errs) p"
  by (simp add: fresh_file_def row_of_def demo_store_def)

lemma demo_put:
  "\<exists>s'. Put mem_ext demo_env ''k'' (''hello'', None) 0 (demo_store [] []) = (None, s') \<and> snd (st_meta s') = []"
proof -
  have "utf8_valid ''f/u1''" by code_simp
  then have "\<exists>b. marshal mem_ext (vm0\<lparr>RawFilePath := ''f/u1'', Expiry := 0, ValueLength := 5, Checksum := c, ValueTypeF := RAW_FILE\<rparr>) = Some b" for c
    by (intro mem.marshal_total) (simp add: vm_wf_def in_int64_def)
  then obtain f where "marshal mem_ext (vm0\<lparr>RawFilePath := ''f/u1'', Expiry := 0, ValueLength := 5, Checksum := c, ValueTypeF := RAW_FILE\<rparr>) = Some (f c)" for c
    by metis
  then show ?thesis
    by (simp add: Put_def read_first_chunk_def firstReadSize_def demo_store_def FileManager_Write_def demo_env_def
        copyRawFilePayload_def write_expiry_def effective_ttl_def putLow_def existingValue_def meta_get_def
        index_for_eviction_def writeFifoIndexEntry_def meta_write_def mem_get_def mem_write_def pop_error_def Let_def
        notifyPut_def UpdateSize_def)
qed



text \<open>C10: a delete refines the removal of one key.  A delete that reports success removes the
  key's value and nothing else; one that fails changes no value.  Both keep the eviction
  index consistent.\<close>

theorem delete_refines:
  assumes "rocksdb E tag var byt view"
    and "DeleteKey E e key s = (r, s')" "index_inv (view (st_meta s))"
  shows "index_inv (view (st_meta s')) \<and> abs_store E (view (st_meta s')) s' = (case r of
      None \<Rightarrow> (abs_store E (view (st_meta s)) s)(key := None) | Some err \<Rightarrow> abs_store E (view (st_meta s)) s)"
  using assms by (rule rocksdb.DeleteKey_result)

definition demo_row :: bytes where
  "demo_row = wire_row (vm0\<lparr>Data := ''v'', ValueLength := 1\<rparr>)"

lemma demo_row: "marshal mem_ext (vm0\<lparr>Data := ''v'', ValueLength := 1\<rparr>) = Some demo_row"
  using wire_row [of "vm0\<lparr>Data := ''v'', ValueLength := 1\<rparr>"] by (simp add: demo_row_def vm_wf_def in_int64_def)

lemma demo_decode: "decodeValueMessageCleanupFields mem_ext demo_row = Some (cleanup_of (vm0\<lparr>Data := ''v'', ValueLength := 1\<rparr>))"
  using mem.scanned_cleanup [OF demo_row] .

lemma demo_index_row: "index_inv [MakeMetadataKey ''k'' \<mapsto> demo_row]"
  by (rule index_invI) simp_all

lemmas db_eval = meta_get_def meta_write_def mem_get_def mem_write_def pop_error_def Let_def

lemmas demo_delete_eval = DeleteKey_def stageEvictionIndexDeletes_def db_eval demo_store_def demo_decode cleanup_of_def
  notifyDelete_def UpdateSize_def

lemma demo_delete:
  "\<exists>s'. DeleteKey mem_ext demo_env ''k'' (demo_store [(MakeMetadataKey ''k'', demo_row)] []) = (None, s')"
  "\<exists>s'. DeleteKey mem_ext demo_env ''k'' (demo_store [(MakeMetadataKey ''k'', demo_row)] [None, None, Some ''IO error''])
      = (Some (mapRocksDBError ''DeleteKey'' ''k'' ''IO error''), s')"
  by (simp_all add: demo_delete_eval)

theorem delete_refines_witness:
  "\<exists>s'. DeleteKey mem_ext demo_env ''k'' (demo_store [(MakeMetadataKey ''k'', demo_row)] []) = (None, s')
     \<and> abs_store mem_ext (mem_view (st_meta s')) s' ''k'' = None"
proof -
  obtain s' where s': "DeleteKey mem_ext demo_env ''k'' (demo_store [(MakeMetadataKey ''k'', demo_row)] []) = (None, s')"
    using demo_delete(1) by blast
  then show ?thesis
    using delete_refines [OF mem.rocksdb_axioms s'] demo_index_row by (auto simp: demo_store_def)
qed

text \<open>C11: a read is a lookup.  A read that returns a reader returns the key's current value cut
  to the requested range, one that reports a miss does so because the key has no value
  or its expiry has passed, and an error means that the database read failed or that the
  stored value cannot be read.  A successful read changes neither rows nor files.\<close>

theorem get_refines:
  assumes "rocksdb E tag var byt view" "Get E e key start end' s = (res, s')"
  shows "(case res of
      Inr x \<Rightarrow> view (st_meta s') = view (st_meta s) \<and> st_disk s' = st_disk s
        \<and> x = (case abs_store E (view (st_meta s)) s key of None \<Rightarrow> None
         | Some (b, expiry) \<Rightarrow> if expiry > 0 \<and> now_unix e 0 \<ge> expiry then None
             else Some (applyByteRange \<lparr>sr_data = b, sr_pos = 0, sr_seekable = True\<rparr>
                          (if start > 0 \<or> end' > 0 then start else 0) (if start > 0 \<or> end' > 0 then end' else 0)))
    | Inl err \<Rightarrow> (\<exists>d. fst (meta_get E (MakeMetadataKey key) s) = Inl d)
        \<or> abs_store E (view (st_meta s)) s key = None)"
  using rocksdb.Get_result [OF assms] by (cases res) simp_all

theorem get_refines_witness:
  "fst (Get mem_ext demo_env ''k'' 0 0 (demo_store [(MakeMetadataKey ''k'', demo_row)] []))
     = Inr (Some (applyByteRange \<lparr>sr_data = ''v'', sr_pos = 0, sr_seekable = True\<rparr> 0 0))"
proof -
  let ?s = "demo_store [(MakeMetadataKey ''k'', demo_row)] []"
  obtain res s' where g: "Get mem_ext demo_env ''k'' 0 0 ?s = (res, s')" by fastforce
  have "abs_store mem_ext (mem_view (st_meta ?s)) ?s ''k'' = Some (''v'', 0)"
    using mem.unmarshal_marshal [OF demo_row] by (simp add: abs_store_def row_of_def open_value_def demo_store_def)
  moreover have "fst (meta_get mem_ext (MakeMetadataKey ''k'') ?s) = Inr (Some demo_row)"
    by (simp add: db_eval demo_store_def)
  ultimately show ?thesis
    using get_refines [OF mem.rocksdb_axioms g] g by (cases res) auto
qed

text \<open>C9: what was put is read back.  After a successful put, until the expiry it set and
  unless the database read fails, a read of the key succeeds and streaming it to the end
  yields exactly the requested range of the body, for every storage class and every
  sequence of buffer sizes.\<close>

theorem put_get_roundtrip:
  assumes db: "rocksdb E tag var byt view"
    and put: "Put E e key body ttl s = (None, s')" "env_ok e" "index_inv (view (st_meta s))"
      "fresh_file E (view (st_meta s)) s (filesPath s @ ''/'' @ uuid e)" "0 \<le> inlineThreshold s"
    and read: "fst (meta_get E (MakeMetadataKey key) s') = Inr row"
    and time: "write_expiry (now_nano e 0) s ttl > 0 \<longrightarrow> now_unix e' 0 < write_expiry (now_nano e 0) s ttl"
    and sizes: "range_sizes_ok (fst body) end' ks" "length (fst body) < n"
  shows "\<exists>rd s''. Get E e' key start end' s' = (Inr (Some rd), s'')
    \<and> drain n ks rd = Some (Done (byte_range start end' (fst body)))"
proof -
  have abs: "abs_store E (view (st_meta s')) s' key = Some (fst body, write_expiry (now_nano e 0) s ttl)"
    using rocksdb.Put_result [OF db put] by simp
  obtain res s'' where get: "Get E e' key start end' s' = (res, s'')" by fastforce
  obtain x where x: "res = Inr x" using rocksdb.Get_result(2) [OF db get] abs read by (cases res) auto
  let ?st = "if start > 0 \<or> end' > 0 then start else 0" and ?en = "if start > 0 \<or> end' > 0 then end' else 0"
  have "x = Some (applyByteRange \<lparr>sr_data = fst body, sr_pos = 0, sr_seekable = True\<rparr> ?st ?en)"
    using rocksdb.Get_result(1) [OF db get x] abs time by auto
  moreover have "range_sizes_ok (fst body) ?en ks" using sizes(1) by (simp add: range_sizes_ok_def)
  moreover have "byte_range ?st ?en (fst body) = byte_range start end' (fst body)" by (simp add: byte_range_def)
  ultimately show ?thesis
    using get x drain_range [of "fst body" ?en ks n True ?st] sizes(2) by simp
qed

theorem put_get_roundtrip_witness:
  "\<exists>s' rd s''. Put mem_ext demo_env ''k'' (''hello'', None) 0 (demo_store [] []) = (None, s')
     \<and> Get mem_ext demo_env ''k'' 1 3 s' = (Inr (Some rd), s'') \<and> drain 9 (\<lambda>n. 2) rd = Some (Done ''ell'')"
proof -
  obtain s' where s': "Put mem_ext demo_env ''k'' (''hello'', None) 0 (demo_store [] []) = (None, s')" "snd (st_meta s') = []"
    using demo_put by blast
  have "fst (meta_get mem_ext (MakeMetadataKey ''k'') s') = Inr (mem_view (st_meta s') (MakeMetadataKey ''k''))"
    using s'(2) by (cases "st_meta s'") (simp add: meta_get_def mem_get_def pop_error_def)
  moreover have "range_sizes_ok ''hello'' 3 (\<lambda>n. 2)" "byte_range 1 3 ''hello'' = ''ell''"
    by (simp_all add: range_sizes_ok_def byte_range_def)
  ultimately show ?thesis
    using put_get_roundtrip [OF mem.rocksdb_axioms s'(1) demo_env_ok _ _ _ _ _, where e' = demo_env and end' = 3
        and ks = "\<lambda>n. 2" and n = 9 and start = 1] s'(1) demo_index_inv demo_fresh
    by (auto simp: demo_store_def write_expiry_def effective_ttl_def)
qed

text \<open>a full disk is not reported as one.  When the file write of a large value fails because
  no space is left on the device, the error carries that cause, but its type is the
  generic I/O error and no caller can recognise it: the file manager wraps what it
  returns, and the tests for a full disk and for a missing or forbidden directory look at
  the outermost error only.\<close>

theorem disk_full_misreported:
  assumes "snd body = None" "0 \<le> inlineThreshold s" "int (length (fst body)) > inlineThreshold s"
    and "open_err e = None" "write_err e = Some (PathError ENOSPC)"
  shows "\<exists>err. fst (Put E e key body ttl s) = Some err \<and> errors_Is err (PathError ENOSPC)
    \<and> GetType err = (TypeIO, True) \<and> \<not> IsStorageFull err \<and> \<not> IsRetryable err"
  using assms
  by (simp add: Put_def read_first_chunk_def firstReadSize_def FileManager_Write_def copyRawFilePayload_def
      file_write_error_def Let_def NewIOError_def GetType_def IsStorageFull_def IsRetryable_def has_type_def)

theorem disk_full_misreported_witness:
  "\<exists>err. fst (Put mem_ext (demo_env\<lparr>write_err := Some (PathError ENOSPC)\<rparr>) ''k'' (''hello'', None) 0 (demo_store [] [])) = Some err
    \<and> \<not> IsStorageFull err"
  using disk_full_misreported [of "(''hello'', None)" "demo_store [] []" "demo_env\<lparr>write_err := Some (PathError ENOSPC)\<rparr>"
      mem_ext "''k''" 0]
  by (auto simp: demo_env_def demo_store_def)



text \<open>C39: a failed delete still shrinks the size counter.  The delete subtracts the value's
  length before it writes its batch; when that write fails, the key and its value are
  still there, but the counter that the disk limit is enforced against is lower by the
  value's length.\<close>

theorem failed_delete_undercounts:
  assumes "rocksdb E tag var byt view" "DeleteKey E e key s = (Some err, s')" "index_inv (view (st_meta s))"
    and "fst (meta_get E (MakeMetadataKey key) s) = Inr (Some row)" "decodeValueMessageCleanupFields E row = Some v"
  shows "totalSize s' = wrap_int64 (totalSize s - cf_valueLength v)
    \<and> abs_store E (view (st_meta s')) s' = abs_store E (view (st_meta s)) s"
  using rocksdb.DeleteKey_rows(5) [OF assms(1-3)] rocksdb.DeleteKey_result [OF assms(1-3)] assms(4,5) by simp

theorem failed_delete_undercounts_witness:
  "\<exists>s'. DeleteKey mem_ext demo_env ''k'' (demo_store [(MakeMetadataKey ''k'', demo_row)] [None, None, Some ''IO error''])
      = (Some (mapRocksDBError ''DeleteKey'' ''k'' ''IO error''), s')
     \<and> totalSize s' = - 1 \<and> abs_store mem_ext (mem_view (st_meta s')) s' ''k'' = Some (''v'', 0)"
proof -
  let ?s = "demo_store [(MakeMetadataKey ''k'', demo_row)] [None, None, Some ''IO error'']"
  obtain s' where s': "DeleteKey mem_ext demo_env ''k'' ?s = (Some (mapRocksDBError ''DeleteKey'' ''k'' ''IO error''), s')"
    using demo_delete(2) by blast
  have "abs_store mem_ext (mem_view (st_meta ?s)) ?s ''k'' = Some (''v'', 0)"
    using mem.unmarshal_marshal [OF demo_row] by (simp add: abs_store_def row_of_def open_value_def demo_store_def)
  moreover have "fst (meta_get mem_ext (MakeMetadataKey ''k'') ?s) = Inr (Some demo_row)"
    by (simp add: db_eval demo_store_def)
  ultimately show ?thesis
    using failed_delete_undercounts [OF mem.rocksdb_axioms s' _ _ demo_decode] s' demo_index_row
    by (simp add: demo_store_def cleanup_of_def wrap_int64_def)
qed

end
