(* ===== verification/Stamps.thy ===== *)
theory Stamps
  imports Storage
begin

text \<open>
  Version stamps (\<^verbatim>\<open>src/storage/cas.go\<close>): the clock-based stamp generator and its durable
  reservation.  \<^verbatim>\<open>nextVersion\<close> is a lock-free loop that several goroutines run at once and
  that a crash can interrupt anywhere, so besides the function for one uninterrupted call
  there is a step relation in which the loads, the reservation and the compare-and-swap of
  any number of callers interleave with each other, with other writes and with restarts.
\<close>

section \<open>The generator\<close>

definition versionReservationBlock :: version where "versionReservationBlock = 60000000000"

definition loadVersionReservation :: "'db ext_api \<Rightarrow> 'db storage \<Rightarrow> string option \<times> 'db storage" where
  "loadVersionReservation E s = (case meta_get E VersionHWMKey s of
     (Inl err, s') \<Rightarrow> (Some err, s')
   | (Inr row, s') \<Rightarrow> (None, case row of
        None \<Rightarrow> s'
      | Some b \<Rightarrow> if length b = 8 then s'\<lparr>lastVersion := get_be64 b, versionHi := get_be64 b\<rparr> else s'))"

definition extendVersionReservation :: "'db ext_api \<Rightarrow> version \<Rightarrow> 'db storage \<Rightarrow> string option \<times> 'db storage" where
  "extendVersionReservation E nxt s =
    (if nxt \<le> versionHi s then (None, s)
     else let newHi = nxt + versionReservationBlock in
       case meta_write E [WPut VersionHWMKey (put_be64 newHi)] s of
         (Some err, s') \<Rightarrow> (Some err, s')
       | (None, s') \<Rightarrow> (None, s'\<lparr>versionHi := newHi\<rparr>))"

definition candidate :: "int \<Rightarrow> version \<Rightarrow> version" where
  "candidate now prev = (if uint64_of_int64 now \<le> prev then prev + 1 else uint64_of_int64 now)"

text \<open>One call that no other caller interrupts: its compare-and-swap succeeds at once.\<close>

definition nextVersion :: "'db ext_api \<Rightarrow> int \<Rightarrow> 'db storage \<Rightarrow> version result \<times> 'db storage" where
  "nextVersion E now s =
    (let nxt = candidate now (lastVersion s) in
     case (if nxt > versionHi s then extendVersionReservation E nxt s else (None, s)) of
       (Some err, s') \<Rightarrow> (Inl err, s')
     | (None, s') \<Rightarrow> (Inr nxt, s'\<lparr>lastVersion := nxt\<rparr>))"

section \<open>Concurrent callers and restarts\<close>

text \<open>Where a caller is in the loop: it has loaded the last stamp and computed a candidate, or
  the candidate is also known to be covered by the reservation.\<close>

datatype pc = Idle | Loaded version version | Checked version version

record 'db stamps =
  sm_store :: "'db storage"
  sm_pc :: "nat \<Rightarrow> pc"
  issued :: "version list"
  restarts :: nat

inductive stamp_step :: "'db ext_api \<Rightarrow> ('db \<Rightarrow> view) \<Rightarrow> 'db stamps \<Rightarrow> 'db stamps \<Rightarrow> bool" for E view where
  load: "sm_pc c t = Idle \<Longrightarrow> 2 \<le> now \<Longrightarrow> now < 2 ^ 62 \<Longrightarrow> l = lastVersion (sm_store c) \<Longrightarrow>
    stamp_step E view c (c\<lparr>sm_pc := (sm_pc c)(t := Loaded l (candidate now l))\<rparr>)"
| covered: "sm_pc c t = Loaded l n \<Longrightarrow> \<not> n > versionHi (sm_store c) \<Longrightarrow>
    stamp_step E view c (c\<lparr>sm_pc := (sm_pc c)(t := Checked l n)\<rparr>)"
| extend: "sm_pc c t = Loaded l n \<Longrightarrow> extendVersionReservation E n (sm_store c) = (r, s') \<Longrightarrow>
    stamp_step E view c (c\<lparr>sm_store := s',
      sm_pc := (sm_pc c)(t := (case r of None \<Rightarrow> Checked l n | Some err \<Rightarrow> Idle))\<rparr>)"
| swap: "sm_pc c t = Checked l n \<Longrightarrow> lastVersion (sm_store c) = l \<Longrightarrow>
    stamp_step E view c (c\<lparr>sm_store := (sm_store c)\<lparr>lastVersion := n\<rparr>, sm_pc := (sm_pc c)(t := Idle),
      issued := n # issued c\<rparr>)"
| retry: "sm_pc c t = Checked l n \<Longrightarrow> lastVersion (sm_store c) \<noteq> l \<Longrightarrow>
    stamp_step E view c (c\<lparr>sm_pc := (sm_pc c)(t := Idle)\<rparr>)"
| other: "view (st_meta s') VersionHWMKey = view (st_meta (sm_store c)) VersionHWMKey \<Longrightarrow>
    lastVersion s' = lastVersion (sm_store c) \<Longrightarrow> versionHi s' = versionHi (sm_store c) \<Longrightarrow>
    stamp_step E view c (c\<lparr>sm_store := s'\<rparr>)"
| restart: "loadVersionReservation E ((sm_store c)\<lparr>lastVersion := 0, versionHi := 0\<rparr>) = (None, s') \<Longrightarrow>
    stamp_step E view c (c\<lparr>sm_store := s', sm_pc := (\<lambda>t. Idle), restarts := Suc (restarts c)\<rparr>)"

text \<open>The reserved ceiling on disk, and a node that starts on it.\<close>

definition ceiling_of :: "view \<Rightarrow> version" where
  "ceiling_of m = (case m VersionHWMKey of None \<Rightarrow> 0 | Some b \<Rightarrow> if length b = 8 then get_be64 b else 0)"

definition fresh_stamps :: "('db \<Rightarrow> view) \<Rightarrow> 'db stamps \<Rightarrow> bool" where
  "fresh_stamps view c \<longleftrightarrow> view (st_meta (sm_store c)) VersionHWMKey = None \<and> lastVersion (sm_store c) = 0
     \<and> versionHi (sm_store c) = 0 \<and> sm_pc c = (\<lambda>t. Idle) \<and> issued c = [] \<and> restarts c = 0"

text \<open>Room below the end of the 64-bit range: clocks stay below \<open>2\<^sup>62\<close> (the year 2116), fewer
  than \<open>2\<^sup>62\<close> stamps and \<open>2\<^sup>26\<close> restarts.\<close>

definition stamps_in_range :: "'db stamps \<Rightarrow> bool" where
  "stamps_in_range c \<longleftrightarrow> length (issued c) < 2 ^ 62 \<and> restarts c < 2 ^ 26"

definition reach_bound :: "'db stamps \<Rightarrow> nat" where
  "reach_bound c = 2 ^ 62 + length (issued c) + restarts c * 60000000001"

definition pc_inv :: "version \<Rightarrow> nat \<Rightarrow> pc \<Rightarrow> bool" where
  "pc_inv hi B p = (case p of Idle \<Rightarrow> True
     | Loaded l n \<Rightarrow> l < n \<and> 2 \<le> n \<and> unat n \<le> B + 1
     | Checked l n \<Rightarrow> l < n \<and> 2 \<le> n \<and> unat n \<le> B + 1 \<and> n \<le> hi)"

definition stamp_inv :: "('db \<Rightarrow> view) \<Rightarrow> 'db stamps \<Rightarrow> bool" where
  "stamp_inv view c \<longleftrightarrow> (let s = sm_store c; hi = ceiling_of (view (st_meta s)) in
     versionHi s = hi \<and> lastVersion s \<le> hi \<and> sorted_wrt (>) (issued c)
   \<and> (\<forall>v \<in> set (issued c). v \<le> lastVersion s \<and> 2 \<le> v)
   \<and> unat (lastVersion s) \<le> reach_bound c \<and> unat hi \<le> reach_bound c + 60000000001
   \<and> (\<forall>t. pc_inv hi (reach_bound c) (sm_pc c t)))"

section \<open>Every stamp is new\<close>

lemma unat_plus_block:
  assumes "unat n + 60000000000 < 2 ^ 64"
  shows "unat (n + versionReservationBlock) = unat n + 60000000000"
  using assms unat_add_lem [of n versionReservationBlock] by (simp add: versionReservationBlock_def)

lemma candidate_ok:
  assumes "2 \<le> now" "now < 2 ^ 62" "unat l + 1 < 2 ^ 64"
  shows "l < candidate now l" "2 \<le> candidate now l" "unat (candidate now l) \<le> max (2 ^ 62) (unat l + 1)"
proof -
  have u: "unat (uint64_of_int64 now) = nat now"
    using assms(1,2) by (simp add: uint64_of_int64_def unat_eq_nat_uint uint_word_of_int)
  have l1: "unat (l + 1) = unat l + 1" using assms(3) unat_add_lem [of l 1] by simp
  show "l < candidate now l" "2 \<le> candidate now l" "unat (candidate now l) \<le> max (2 ^ 62) (unat l + 1)"
    using assms(1,2) u l1 by (auto simp: candidate_def word_less_nat_alt word_le_nat_alt)
qed

lemma pc_inv_mono: "pc_inv hi B p \<Longrightarrow> hi \<le> hi' \<Longrightarrow> B \<le> B' \<Longrightarrow> pc_inv hi' B' p"
  by (auto simp: pc_inv_def split: pc.splits)

lemma reach_bound_room: "stamps_in_range c \<Longrightarrow> reach_bound c + 2 * 60000000002 < 2 ^ 64"
  by (simp add: stamps_in_range_def reach_bound_def)

lemmas stamp_invI = iffD2 [OF stamp_inv_def, unfolded Let_def]

lemma stamp_invD:
  assumes "stamp_inv view c"
  shows "versionHi (sm_store c) = ceiling_of (view (st_meta (sm_store c)))"
    "lastVersion (sm_store c) \<le> ceiling_of (view (st_meta (sm_store c)))" "sorted_wrt (>) (issued c)"
    "v \<in> set (issued c) \<Longrightarrow> v \<le> lastVersion (sm_store c) \<and> 2 \<le> v"
    "unat (lastVersion (sm_store c)) \<le> reach_bound c"
    "unat (ceiling_of (view (st_meta (sm_store c)))) \<le> reach_bound c + 60000000001"
    "pc_inv (ceiling_of (view (st_meta (sm_store c)))) (reach_bound c) (sm_pc c t)"
  using assms by (auto simp: stamp_inv_def Let_def)

context rocksdb
begin

lemma extendVersionReservation_ok:
  assumes "extendVersionReservation E n s = (r, s')" "versionHi s = ceiling_of (view (st_meta s))"
    and "unat n + 60000000000 < 2 ^ 64"
  shows "versionHi s' = ceiling_of (view (st_meta s'))" "lastVersion s' = lastVersion s" "versionHi s \<le> versionHi s'"
    "r = None \<Longrightarrow> n \<le> versionHi s'" "unat (versionHi s') \<le> max (unat (versionHi s)) (unat n + 60000000000)"
proof -
  let ?hi = "n + versionReservationBlock"
  note hi = unat_plus_block [OF assms(3)]
  obtain wr s2 where w: "meta_write E [WPut VersionHWMKey (put_be64 ?hi)] s = (wr, s2)" by fastforce
  note w_ok = meta_write_ok [OF w]
  note same = meta_only_fields(9,10) [OF w_ok(1)]
  have grow: "n \<le> ?hi" "\<not> n \<le> versionHi s \<Longrightarrow> versionHi s \<le> ?hi" using hi by (simp_all add: word_le_nat_alt)
  have goal: "versionHi s' = ceiling_of (view (st_meta s')) \<and> lastVersion s' = lastVersion s \<and> versionHi s \<le> versionHi s'
    \<and> (r = None \<longrightarrow> n \<le> versionHi s') \<and> unat (versionHi s') \<le> max (unat (versionHi s)) (unat n + 60000000000)"
  proof (cases "n \<le> versionHi s")
    case True
    then show ?thesis using assms(1,2) by (auto simp: extendVersionReservation_def)
  next
    case False
    show ?thesis
    proof (cases wr)
      case None
      then have "s' = s2\<lparr>versionHi := ?hi\<rparr>" using assms(1) w False by (simp add: extendVersionReservation_def)
      then show ?thesis using w_ok(2) [OF None] same grow False hi by (simp add: ceiling_of_def)
    next
      case (Some err)
      then have "s' = s2" "r = Some err" using assms(1) w False by (auto simp: extendVersionReservation_def)
      then show ?thesis using w_ok(3) [OF Some] same assms(2) by simp
    qed
  qed
  then show "versionHi s' = ceiling_of (view (st_meta s'))" "lastVersion s' = lastVersion s" "versionHi s \<le> versionHi s'"
    "r = None \<Longrightarrow> n \<le> versionHi s'" "unat (versionHi s') \<le> max (unat (versionHi s)) (unat n + 60000000000)"
    by blast+
qed

lemma loadVersionReservation_ok:
  assumes "loadVersionReservation E (s\<lparr>lastVersion := 0, versionHi := 0\<rparr>) = (None, s')"
  shows "view (st_meta s') = view (st_meta s)" "versionHi s' = ceiling_of (view (st_meta s))"
    "lastVersion s' = ceiling_of (view (st_meta s))"
proof -
  let ?s = "s\<lparr>lastVersion := 0, versionHi := 0\<rparr>"
  obtain row s2 where g: "meta_get E VersionHWMKey ?s = (Inr row, s2)"
    using assms by (cases "meta_get E VersionHWMKey ?s") (auto simp: loadVersionReservation_def split: sum.splits)
  note same = meta_only_fields(9,10) [OF meta_get_ok(1) [OF g]]
  have row: "view (st_meta s) VersionHWMKey = row" using meta_get_Inr [OF g] by simp
  have s': "s' = (case row of None \<Rightarrow> s2 | Some b \<Rightarrow> if length b = 8 then s2\<lparr>lastVersion := get_be64 b, versionHi := get_be64 b\<rparr> else s2)"
    using assms g by (simp add: loadVersionReservation_def)
  then show "view (st_meta s') = view (st_meta s)" "versionHi s' = ceiling_of (view (st_meta s))"
    "lastVersion s' = ceiling_of (view (st_meta s))"
    using meta_get_ok(2) [OF g] same row by (auto simp: ceiling_of_def split: option.splits)
qed

lemma stamp_step_mono:
  assumes "stamp_step E view c c'"
  shows "length (issued c) \<le> length (issued c')" "restarts c \<le> restarts c'"
  using assms by (cases; simp)+

lemma stamp_step_inv:
  assumes "stamp_step E view c c'" "stamp_inv view c" "stamps_in_range c"
  shows "stamp_inv view c'"
  using assms(1)
proof cases
  case (load t now l)
  note room = reach_bound_room [OF assms(3)]
  have l: "unat l \<le> reach_bound c" using stamp_invD(5) [OF assms(2)] load by simp
  note cand = candidate_ok [OF load(3,4), of l]
  have "max (2 ^ 62) (unat l + 1) \<le> reach_bound c + 1" using l by (simp add: reach_bound_def)
  then show ?thesis
    using assms(2) cand room l load by (auto simp: stamp_inv_def Let_def pc_inv_def reach_bound_def)
next
  case (covered t l n)
  then show ?thesis
    using assms(2) stamp_invD(7) [OF assms(2), of t] stamp_invD(1) [OF assms(2)]
    by (auto simp: stamp_inv_def Let_def pc_inv_def reach_bound_def)
next
  case (extend t l n r s')
  note inv = stamp_invD [OF assms(2)]
  note room = reach_bound_room [OF assms(3)]
  have n: "l < n" "2 \<le> n" "unat n \<le> reach_bound c + 1" using inv(7) [of t] extend by (simp_all add: pc_inv_def)
  have small: "unat n + 60000000000 < 2 ^ 64" using n(3) room by simp
  note ok = extendVersionReservation_ok [OF extend(3) inv(1) small]
  have hi: "ceiling_of (view (st_meta (sm_store c))) \<le> ceiling_of (view (st_meta s'))" using ok(1,3) inv(1) by simp
  have "pc_inv (ceiling_of (view (st_meta s'))) (reach_bound c)
      (if u = t then case r of None \<Rightarrow> Checked l n | Some err \<Rightarrow> Idle else sm_pc c u)" for u
    using n ok(1,4) pc_inv_mono [OF inv(7) hi order_refl] by (auto simp: pc_inv_def [of _ _ "Checked l n"] pc_inv_def [of _ _ Idle] split: option.splits)
  moreover have "lastVersion s' \<le> ceiling_of (view (st_meta s'))" using ok(2) inv(2) hi by (metis order_trans)
  moreover have "unat (ceiling_of (view (st_meta s'))) \<le> reach_bound c + 60000000001" using ok(1,5) inv(1,6) n(3) by simp
  ultimately show ?thesis
    using extend(1) ok(1,2) inv(3-5) by (simp add: stamp_inv_def Let_def reach_bound_def)
next
  case (swap t l n)
  note inv = stamp_invD [OF assms(2)]
  have n: "l < n" "2 \<le> n" "unat n \<le> reach_bound c + 1" "n \<le> ceiling_of (view (st_meta (sm_store c)))"
    using inv(7) [of t] swap by (simp_all add: pc_inv_def)
  have pcs: "pc_inv (ceiling_of (view (st_meta (sm_store c)))) (Suc (reach_bound c)) (if u = t then Idle else sm_pc c u)" for u
    using pc_inv_mono [OF inv(7) order_refl] by (simp add: pc_inv_def [of _ _ Idle])
  have below: "v < n" if "v \<in> set (issued c)" for v using inv(4) [OF that] swap(3) n(1) by (meson le_less_trans)
  have bound: "reach_bound c' = Suc (reach_bound c)" using swap(1) by (simp add: reach_bound_def)
  show ?thesis
    unfolding stamp_inv_def Let_def bound
    using swap(1) inv(1,3,6) n pcs below inv(4) by (auto intro: less_imp_le)
next
  case (retry t l n)
  then show ?thesis
    using assms(2) by (auto simp: stamp_inv_def Let_def pc_inv_def reach_bound_def)
next
  case (other s')
  then have "ceiling_of (view (st_meta s')) = ceiling_of (view (st_meta (sm_store c)))" by (simp add: ceiling_of_def)
  then show ?thesis using assms(2) other by (simp add: stamp_inv_def Let_def reach_bound_def)
next
  case (restart s')
  note inv = stamp_invD [OF assms(2)]
  note ok = loadVersionReservation_ok [OF restart(2)]
  have bound: "reach_bound c' = reach_bound c + 60000000001" using restart(1) by (simp add: reach_bound_def)
  have "v \<le> ceiling_of (view (st_meta (sm_store c)))" if "v \<in> set (issued c)" for v
    using inv(4) [OF that] inv(2) by (meson order_trans)
  then show ?thesis
    unfolding stamp_inv_def Let_def bound using restart(1) ok inv(3,4,6) by (auto simp: pc_inv_def)
qed

lemma stamp_run_mono:
  assumes "(stamp_step E view)\<^sup>*\<^sup>* c c'"
  shows "length (issued c) \<le> length (issued c') \<and> restarts c \<le> restarts c'"
  using assms by (induction rule: rtranclp_induct) (use stamp_step_mono in fastforce)+

lemma stamp_run_inv:
  assumes "(stamp_step E view)\<^sup>*\<^sup>* c c'" "stamp_inv view c" "stamps_in_range c'"
  shows "stamp_inv view c'"
  using assms
proof (induction rule: rtranclp_induct)
  case (step d e)
  then have "stamps_in_range d" using stamp_step_mono [OF step(2)] by (simp add: stamps_in_range_def)
  then show ?case using step stamp_step_inv by blast
qed

lemma fresh_stamps_inv: "fresh_stamps view c \<Longrightarrow> stamp_inv view c"
  by (simp add: fresh_stamps_def stamp_inv_def ceiling_of_def pc_inv_def reach_bound_def)

text \<open>An uninterrupted call is a run of the step relation.\<close>

lemma nextVersion_run:
  assumes idle: "sm_pc c t = Idle" and now: "2 \<le> now" "now < 2 ^ 62"
    and nv: "nextVersion E now (sm_store c) = (Inr v, s')"
  shows "(stamp_step E view)\<^sup>*\<^sup>* c (c\<lparr>sm_store := s', issued := v # issued c\<rparr>)"
proof -
  let ?l = "lastVersion (sm_store c)" and ?s = "sm_store c"
  let ?n = "candidate now ?l"
  obtain s1 where s1: "(if ?n > versionHi ?s then extendVersionReservation E ?n ?s else (None, ?s)) = (None, s1)"
    and v: "v = ?n" "s' = s1\<lparr>lastVersion := ?n\<rparr>"
    using nv by (auto simp: nextVersion_def Let_def split: prod.splits option.splits)
  have same: "lastVersion s1 = ?l"
    using s1 by (auto simp: extendVersionReservation_def Let_def meta_write_def split: if_splits prod.splits option.splits)
  let ?c1 = "c\<lparr>sm_pc := (sm_pc c)(t := Loaded ?l ?n)\<rparr>"
  let ?c2 = "c\<lparr>sm_store := s1, sm_pc := (sm_pc c)(t := Checked ?l ?n)\<rparr>"
  have "stamp_step E view c ?c1" by (rule stamp_step.load [where t = t and now = now]) (use idle now in simp_all)
  moreover have "stamp_step E view ?c1 ?c2"
  proof (cases "?n > versionHi ?s")
    case True
    then show ?thesis using s1 stamp_step.extend [of ?c1 t ?l ?n E None s1 view] by simp
  next
    case False
    then show ?thesis using s1 stamp_step.covered [of ?c1 t ?l ?n E view] by (cases c) simp
  qed
  moreover have "stamp_step E view ?c2 (c\<lparr>sm_store := s', issued := v # issued c\<rparr>)"
    using stamp_step.swap [of ?c2 t ?l ?n E view] same v idle by (simp add: fun_upd_idem)
  ultimately show ?thesis by (meson rtranclp.rtrancl_into_rtrancl rtranclp.rtrancl_refl)
qed

text \<open>What a call leaves alone.\<close>

lemma nextVersion_frame:
  assumes "nextVersion E now s = (r, s')"
  shows "st_disk s' = st_disk s" "st_segs s' = st_segs s" "totalSize s' = totalSize s" "filesPath s' = filesPath s"
    "inlineThreshold s' = inlineThreshold s" "compactThreshold s' = compactThreshold s"
    "maxDiskUsage s' = maxDiskUsage s" "evictionPolicy s' = evictionPolicy s" "defaultTTL s' = defaultTTL s"
    "k \<noteq> VersionHWMKey \<Longrightarrow> view (st_meta s') k = view (st_meta s) k"
proof -
  let ?n = "candidate now (lastVersion s)"
  obtain wr s2 where w: "meta_write E [WPut VersionHWMKey (put_be64 (?n + versionReservationBlock))] s = (wr, s2)" by fastforce
  have s': "s' = s\<lparr>lastVersion := ?n\<rparr> \<or> s' = s2 \<or> s' = s2\<lparr>versionHi := ?n + versionReservationBlock, lastVersion := ?n\<rparr>"
    using assms w by (auto simp: nextVersion_def extendVersionReservation_def Let_def split: if_splits option.splits)
  note same = meta_only_fields [OF meta_write_ok(1) [OF w]]
  have "view (st_meta s2) k = view (st_meta s) k" if "k \<noteq> VersionHWMKey" for k
    using meta_write_ok(2,3) [OF w] that by (cases wr) auto
  then show "st_disk s' = st_disk s" "st_segs s' = st_segs s" "totalSize s' = totalSize s" "filesPath s' = filesPath s"
    "inlineThreshold s' = inlineThreshold s" "compactThreshold s' = compactThreshold s"
    "maxDiskUsage s' = maxDiskUsage s" "evictionPolicy s' = evictionPolicy s" "defaultTTL s' = defaultTTL s"
    "k \<noteq> VersionHWMKey \<Longrightarrow> view (st_meta s') k = view (st_meta s) k"
    using s' same by auto
qed

end

section \<open>Properties\<close>

definition demo_stamps :: "memdb stamps" where
  "demo_stamps = \<lparr>sm_store = demo_store [] [], sm_pc = (\<lambda>t. Idle), issued = [], restarts = 0\<rparr>"

text \<open>C3: version stamps are unique and increasing, across concurrent callers and restarts.  In
  every interleaving of any number of callers of the generator with other writes, failed
  reservations and crashes, with a clock that may step back or stand still, each stamp
  issued is larger than every stamp issued before it, is covered by the ceiling already on
  disk, and is neither 0 (absent) nor 1 (a row without a version).\<close>

theorem stamps_increase:
  assumes "rocksdb E tag var byt view"
    and "fresh_stamps view c0" "(stamp_step E view)\<^sup>*\<^sup>* c0 c" "stamps_in_range c"
  shows "sorted_wrt (>) (issued c) \<and> (\<forall>v \<in> set (issued c). v \<le> ceiling_of (view (st_meta (sm_store c))) \<and> VersionLegacy < v)"
proof -
  have inv: "stamp_inv view c"
    using rocksdb.stamp_run_inv [OF assms(1,3) rocksdb.fresh_stamps_inv [OF assms(1,2)] assms(4)] .
  have "VersionLegacy < (2 :: version)" by (simp add: VersionLegacy_def)
  then show ?thesis
    using stamp_invD(2-4) [OF inv] by (metis less_le_trans order_trans)
qed

theorem stamps_increase_witness:
  "\<exists>c. (stamp_step mem_ext mem_view)\<^sup>*\<^sup>* demo_stamps c \<and> issued c = [6, 5] \<and> sorted_wrt (>) (issued c)"
proof -
  obtain s1 where s1: "nextVersion mem_ext 5 (demo_store [] []) = (Inr 5, s1)" "lastVersion s1 = 5" "versionHi s1 = 60000000005"
    by (rule exE [of "\<lambda>s1. nextVersion mem_ext 5 (demo_store [] []) = (Inr 5, s1) \<and> lastVersion s1 = 5 \<and> versionHi s1 = 60000000005"])
      (auto simp: nextVersion_def candidate_def uint64_of_int64_def demo_store_def extendVersionReservation_def db_eval
        versionReservationBlock_def)
  have s2: "nextVersion mem_ext 5 s1 = (Inr 6, s1\<lparr>lastVersion := 6\<rparr>)"
    using s1(2,3) by (simp add: nextVersion_def candidate_def uint64_of_int64_def)
  let ?c = "demo_stamps\<lparr>sm_store := s1, issued := [5]\<rparr>"
  have "(stamp_step mem_ext mem_view)\<^sup>*\<^sup>* demo_stamps ?c"
    using mem.nextVersion_run [of demo_stamps 0 5 5 s1] s1(1) by (simp add: demo_stamps_def)
  moreover have "(stamp_step mem_ext mem_view)\<^sup>*\<^sup>* ?c (?c\<lparr>sm_store := s1\<lparr>lastVersion := 6\<rparr>, issued := [6, 5]\<rparr>)"
    using mem.nextVersion_run [of ?c 0 5 6 "s1\<lparr>lastVersion := 6\<rparr>"] s2 by (simp add: demo_stamps_def)
  ultimately have run: "(stamp_step mem_ext mem_view)\<^sup>*\<^sup>* demo_stamps (?c\<lparr>sm_store := s1\<lparr>lastVersion := 6\<rparr>, issued := [6, 5]\<rparr>)"
    by (rule rtranclp_trans)
  have "fresh_stamps mem_view demo_stamps" by (simp add: fresh_stamps_def demo_stamps_def demo_store_def)
  then show ?thesis
    using run stamps_increase [OF mem.rocksdb_axioms _ run] by (auto simp: stamps_in_range_def demo_stamps_def intro!: exI [of _ "?c\<lparr>sm_store := s1\<lparr>lastVersion := 6\<rparr>, issued := [6, 5]\<rparr>"])
qed



end
