(* ===== verification/Cas.thy ===== *)
theory Cas
  imports Stamps
begin

text \<open>
  The conditional operations (\<^verbatim>\<open>src/storage/cas.go\<close>): \<^verbatim>\<open>GetWithVersion\<close>, \<^verbatim>\<open>PutIfVersion\<close> and
  \<^verbatim>\<open>DeleteIfVersion\<close>.  A conditional write is a merge operand; its outcome is learned by
  reading the row back.  The functions take what concurrent callers do to the node while
  the operation runs: \<open>oth i\<close> is applied at the \<open>i\<close>-th point where the row may change under
  it, and is the identity for an operation that runs alone.
\<close>

section \<open>Row states\<close>

definition casStatus :: "goerr option \<Rightarrow> string" where
  "casStatus err = (case err of None \<Rightarrow> ''success''
     | Some e \<Rightarrow> if IsVersionMismatch e \<noteq> None then ''mismatch'' else ''error'')"

text \<open>The error of a failed decode; the database's errors come with the read.\<close>

definition proto_error :: string where
  "proto_error = ''proto: cannot parse invalid wire-format data''"

definition readRowForCAS :: "'db ext_api \<Rightarrow> bytes \<Rightarrow> 'db storage \<Rightarrow> ValueMessage option result \<times> 'db storage" where
  "readRowForCAS E metaKey s = (case meta_get E metaKey s of
     (Inl err, s') \<Rightarrow> (Inl err, s')
   | (Inr None, s') \<Rightarrow> (Inr None, s')
   | (Inr (Some b), s') \<Rightarrow> (case unmarshal E b of None \<Rightarrow> (Inl proto_error, s') | Some vm \<Rightarrow> (Inr (Some vm), s')))"

fun read_attempts :: "nat \<Rightarrow> 'db ext_api \<Rightarrow> bytes \<Rightarrow> string \<Rightarrow> 'db storage \<Rightarrow> ValueMessage option result \<times> 'db storage" where
  "read_attempts 0 E metaKey err s = (Inl err, s)"
| "read_attempts (Suc n) E metaKey err s = (case readRowForCAS E metaKey s of
     (Inr vm, s') \<Rightarrow> (Inr vm, s') | (Inl err', s') \<Rightarrow> read_attempts n E metaKey err' s')"

definition readRowForCASRetry :: "'db ext_api \<Rightarrow> bytes \<Rightarrow> 'db storage \<Rightarrow> ValueMessage option result \<times> 'db storage" where
  "readRowForCASRetry E metaKey s = read_attempts 4 E metaKey [] s"

datatype casRowState = casAbsent | casFenced | casLive

definition casClassify :: "int \<Rightarrow> ValueMessage option \<Rightarrow> casRowState \<times> version" where
  "casClassify now row = (case row of None \<Rightarrow> (casAbsent, 0)
     | Some vm \<Rightarrow>
         if Expiry vm = tombstoneExpiry then (if Version vm = 0 then (casAbsent, 0) else (casFenced, Version vm))
         else if Expiry vm > 0 \<and> now \<ge> Expiry vm then (casAbsent, 0)
         else (casLive, EffectiveRowVersion row))"

definition casAdmits :: "casRowState \<Rightarrow> version \<Rightarrow> version \<Rightarrow> bool" where
  "casAdmits state cur expected = (case state of
     casLive \<Rightarrow> cur = expected | casFenced \<Rightarrow> expected = 0 \<or> expected \<ge> cur | casAbsent \<Rightarrow> True)"

definition absenceToken :: "'db ext_api \<Rightarrow> int \<Rightarrow> casRowState \<Rightarrow> version \<Rightarrow> 'db storage \<Rightarrow> version result \<times> 'db storage" where
  "absenceToken E now state fence s = (if state = casFenced then (Inr fence, s) else nextVersion E now s)"

definition currentVersionOf :: "int \<Rightarrow> ValueMessage option \<Rightarrow> version" where
  "currentVersionOf now row = snd (casClassify now row)"

section \<open>Reading a value with its version\<close>

definition GetWithVersion :: "'db ext_api \<Rightarrow> op_env \<Rightarrow> string \<Rightarrow> 'db storage
    \<Rightarrow> (goerr + src_reader option \<times> version) \<times> 'db storage" where
  "GetWithVersion E e key s0 = (case readRowForCAS E (MakeMetadataKey key) s0 of
     (Inl err, s1) \<Rightarrow> (Inl (mapRocksDBError ''GetWithVersion'' key err), s1)
   | (Inr row, s1) \<Rightarrow>
      (case casClassify (now_unix e 0) row of (state, cur) \<Rightarrow>
        if state \<noteq> casLive then
          (case absenceToken E (now_nano e 1) state cur s1 of
             (Inl err, s2) \<Rightarrow> (Inl (NewInternalError ''GetWithVersion'' (ErrText err)), s2)
           | (Inr token, s2) \<Rightarrow> (Inr (None, token), s2))
        else
          let vm = the row; s2 = UpdateNow e (clk e 1) key s1 in
          (case open_value s2 key vm of
             None \<Rightarrow> (Inl (NewCorruptionError ''GetWithVersion'' key (ErrText ''unknown value type'')), s2)
           | Some (Inl err) \<Rightarrow>
               if ValueTypeF vm = RAW_FILE \<and> err = ErrFileLocked
               then (Inl (NewLockError ''GetWithVersion'' key err), s2)
               else (Inl (NewIORetryableError ''GetWithVersion'' key err), s2)
           | Some (Inr b) \<Rightarrow> (Inr (Some \<lparr>sr_data = b, sr_pos = 0, sr_seekable = True\<rparr>, cur), s2))))"

section \<open>Bookkeeping\<close>

definition reclaimReplacedValue :: "'db ext_api \<Rightarrow> int \<Rightarrow> ValueMessage \<Rightarrow> 'db storage \<Rightarrow> 'db storage" where
  "reclaimReplacedValue E now prev s =
    (if ValueTypeF prev = SEGMENT \<and> SegmentPath prev \<noteq> []
     then snd (meta_write E [WMerge (MakeDeleteIndexKey (SegmentPath prev)) (MakeDeleteIndexOperand 1 (ValueLength prev))] s)
     else if ValueTypeF prev = RAW_FILE \<and> RawFilePath prev \<noteq> [] then stageRawFileDeletion E now (RawFilePath prev) s
     else s)"

definition reclaim_prev :: "'db ext_api \<Rightarrow> int \<Rightarrow> ValueMessage option \<Rightarrow> 'db storage \<Rightarrow> 'db storage" where
  "reclaim_prev E now prev s = (case prev of None \<Rightarrow> s | Some p \<Rightarrow> reclaimReplacedValue E now p s)"

definition finishWonCASPut :: "'db ext_api \<Rightarrow> op_env \<Rightarrow> string \<Rightarrow> ValueMessage \<Rightarrow> ValueMessage option \<Rightarrow> 'db storage \<Rightarrow> 'db storage" where
  "finishWonCASPut E e key newVM prev s =
    (let medium = (if ValueTypeF newVM = RAW_FILE \<and> ValueLength newVM > inlineThreshold s
                      \<and> ValueLength newVM \<le> compactThreshold s
                   then (case PrepareEntryForCompaction (now_nano e 6) key (RawFilePath newVM) of (k, v) \<Rightarrow> [WPut k v]) else []);
         (index, s1) = index_for_eviction E key (clk e 7) s;
         batch = medium @ index;
         s2 = (if batch \<noteq> [] then snd (meta_write E batch s1) else s1);
         prevSize = (case prev of None \<Rightarrow> 0 | Some p \<Rightarrow> ValueLength p)
     in notifyPut (ValueLength newVM - prevSize) (reclaim_prev E (now_nano e 8) prev s2))"

definition evictionEntryFor :: "'db ext_api \<Rightarrow> string \<Rightarrow> 'db storage \<Rightarrow> bytes option \<times> 'db storage" where
  "evictionEntryFor E key s = (case meta_get E (eviction_backref s key) s of
     (Inr (Some b), s') \<Rightarrow> (if b = [] then None else Some b, s') | (_, s') \<Rightarrow> (None, s'))"

definition evictionEntryTime :: "bytes \<Rightarrow> int option" where
  "evictionEntryTime entry =
    (if IsBucketedAccessKey entry
     then (case ParseBucketedAccessKey entry of Inl err \<Rightarrow> None | Inr (k, at) \<Rightarrow> Some at)
     else (case ParseFifoIndexTime entry of Inl err \<Rightarrow> None | Inr at \<Rightarrow> Some at))"

definition dropDeadEvictionGeneration :: "'db ext_api \<Rightarrow> string \<Rightarrow> int \<Rightarrow> bytes option \<Rightarrow> 'db storage \<Rightarrow> 'db storage" where
  "dropDeadEvictionGeneration E key cutoff deadEntry s =
    (let backref = eviction_backref s key;
         dead = (case deadEntry of None \<Rightarrow> [] | Some d \<Rightarrow> [WDelete d]);
         (cur, s1) = meta_get E backref s;
         stale = (case cur of Inr (Some c) \<Rightarrow>
                    (case evictionEntryTime c of Some written \<Rightarrow>
                       if written < cutoff then [WDelete c, WDelete backref] else []
                     | None \<Rightarrow> [])
                  | _ \<Rightarrow> [])
     in if dead @ stale = [] then s1 else snd (meta_write E (dead @ stale) s1))"

section \<open>Conditional put\<close>

definition stage_spill :: "'db ext_api \<Rightarrow> int \<Rightarrow> string \<Rightarrow> 'db storage \<Rightarrow> 'db storage" where
  "stage_spill E now spilledPath s = (if spilledPath \<noteq> [] then stageRawFileDeletion E now spilledPath s else s)"

text \<open>Writing the body inline or to a raw file, into the operand.\<close>

definition cas_spill :: "op_env \<Rightarrow> string \<Rightarrow> reader \<Rightarrow> bytes \<Rightarrow> ValueMessage \<Rightarrow> 'db storage
    \<Rightarrow> (goerr + ValueMessage \<times> string) \<times> 'db storage" where
  "cas_spill e key body firstChunk operand s =
    (if int (length firstChunk) > inlineThreshold s then
       (case FileManager_Write e key body s of
          (Inl err, s1) \<Rightarrow> (Inl (file_write_error ''PutIfVersion'' key err), s1)
        | (Inr (filePath, checksum, bytesWritten), s1) \<Rightarrow>
            (Inr (operand\<lparr>ValueTypeF := RAW_FILE, RawFilePath := filePath, ValueLength := bytesWritten,
                          Checksum := checksum\<rparr>, filePath), s1))
     else (Inr (operand\<lparr>ValueTypeF := INLINE, Data := firstChunk, ValueLength := int (length firstChunk)\<rparr>, []), s))"

text \<open>The precondition the clock-blind merge operator is given.\<close>

definition cas_translate :: "casRowState \<Rightarrow> ValueMessage option \<Rightarrow> ValueMessage \<Rightarrow> ValueMessage" where
  "cas_translate state prev operand = (case prev of None \<Rightarrow> operand
     | Some p \<Rightarrow> if state = casAbsent \<and> Expiry p \<noteq> tombstoneExpiry
                 then operand\<lparr>CasExpectedVersion := EffectiveRowVersion prev\<rparr> else operand)"

text \<open>Reading the row back after the merge.\<close>

definition cas_outcome :: "'db ext_api \<Rightarrow> op_env \<Rightarrow> string \<Rightarrow> ValueMessage \<Rightarrow> string \<Rightarrow> ValueMessage option \<Rightarrow> 'db storage
    \<Rightarrow> (goerr + version) \<times> 'db storage" where
  "cas_outcome E e key operand spilledPath prev s =
    (case readRowForCASRetry E (MakeMetadataKey key) s of
       (Inl err, s1) \<Rightarrow>
         let s2 = (if spilledPath \<noteq> [] \<and> ValueLength operand > inlineThreshold s1 \<and> ValueLength operand \<le> compactThreshold s1
                   then (case PrepareEntryForCompaction (now_nano e 6) key spilledPath of (k, v) \<Rightarrow> snd (meta_write E [WPut k v] s1))
                   else s1)
         in (Inl (mapRocksDBError ''PutIfVersion'' key err), reclaim_prev E (now_nano e 8) prev s2)
     | (Inr got, s1) \<Rightarrow>
         if got = None \<or> Version (the got) \<noteq> Version operand
         then (Inl (NewVersionMismatchError ''PutIfVersion'' key (currentVersionOf (now_unix e 5) got)),
               stage_spill E (now_nano e 4) spilledPath s1)
         else (Inr (Version operand), finishWonCASPut E e key operand prev s1))"

definition cas_commit :: "'db ext_api \<Rightarrow> op_env \<Rightarrow> (nat \<Rightarrow> 'db storage \<Rightarrow> 'db storage) \<Rightarrow> string \<Rightarrow> ValueMessage \<Rightarrow> string
    \<Rightarrow> version \<Rightarrow> 'db storage \<Rightarrow> (goerr + version) \<times> 'db storage" where
  "cas_commit E e oth key operand spilledPath expected s =
    (case readRowForCAS E (MakeMetadataKey key) s of
       (Inl err, s1) \<Rightarrow> (Inl (mapRocksDBError ''PutIfVersion'' key err), stage_spill E (now_nano e 4) spilledPath s1)
     | (Inr prev, s1) \<Rightarrow>
        (case casClassify (now_unix e 3) prev of (state, cur) \<Rightarrow>
           if \<not> casAdmits state cur expected
           then (Inl (NewVersionMismatchError ''PutIfVersion'' key cur), stage_spill E (now_nano e 4) spilledPath s1)
           else (case marshal E (cas_translate state prev operand) of
              None \<Rightarrow> (Inl (NewInternalError ''PutIfVersion'' (ErrText ''marshal'')), stage_spill E (now_nano e 4) spilledPath s1)
            | Some operandBytes \<Rightarrow>
               (case meta_write E [WMerge (MakeMetadataKey key) operandBytes] (oth 1 s1) of
                  (Some err, s2) \<Rightarrow> (Inl (mapRocksDBError ''PutIfVersion'' key err), stage_spill E (now_nano e 4) spilledPath s2)
                | (None, s2) \<Rightarrow> cas_outcome E e key operand spilledPath prev (oth 2 s2)))))"

definition PutIfVersion :: "'db ext_api \<Rightarrow> op_env \<Rightarrow> (nat \<Rightarrow> 'db storage \<Rightarrow> 'db storage) \<Rightarrow> string \<Rightarrow> reader \<Rightarrow> int
    \<Rightarrow> version \<Rightarrow> 'db storage \<Rightarrow> (goerr + version) \<times> 'db storage" where
  "PutIfVersion E e oth key body ttl expected s0 =
    (case readRowForCAS E (MakeMetadataKey key) s0 of
       (Inl err, s1) \<Rightarrow> (Inl (mapRocksDBError ''PutIfVersion'' key err), s1)
     | (Inr prev, s1) \<Rightarrow>
        (case casClassify (now_unix e 0) prev of (state, cur) \<Rightarrow>
           if \<not> casAdmits state cur expected then (Inl (NewVersionMismatchError ''PutIfVersion'' key cur), s1)
           else (case read_first_chunk s1 body of
              Inl err \<Rightarrow> (Inl (NewIOError ''PutIfVersion'' key err), s1)
            | Inr firstChunk \<Rightarrow>
               (case nextVersion E (now_nano e 2) s1 of
                  (Inl err, s2) \<Rightarrow> (Inl (NewInternalError ''PutIfVersion'' (ErrText err)), s2)
                | (Inr newStamp, s2) \<Rightarrow>
                   (case cas_spill e key body firstChunk
                          (vm0\<lparr>Expiry := write_expiry (now_nano e 1) s2 ttl, Version := newStamp,
                               OpType := META_OP_CAS_PUT, CasExpectedVersion := expected\<rparr>) s2 of
                      (Inl err, s3) \<Rightarrow> (Inl err, s3)
                    | (Inr (operand, spilledPath), s3) \<Rightarrow>
                        cas_commit E e oth key operand spilledPath expected (oth 0 s3))))))"

section \<open>Conditional delete\<close>

definition delete_admits :: "casRowState \<Rightarrow> version \<Rightarrow> version \<Rightarrow> bool" where
  "delete_admits state cur expected = (case state of
     casLive \<Rightarrow> cur = expected | casFenced \<Rightarrow> casAdmits state cur expected | casAbsent \<Rightarrow> expected = 0)"

definition delete_outcome :: "'db ext_api \<Rightarrow> op_env \<Rightarrow> string \<Rightarrow> version \<Rightarrow> ValueMessage option \<Rightarrow> bytes option \<Rightarrow> 'db storage
    \<Rightarrow> goerr option \<times> 'db storage" where
  "delete_outcome E e key newStamp prev deadEntry s =
    (case readRowForCASRetry E (MakeMetadataKey key) s of
       (Inl err, s1) \<Rightarrow> (Some (mapRocksDBError ''DeleteIfVersion'' key err), reclaim_prev E (now_nano e 4) prev s1)
     | (Inr None, s1) \<Rightarrow> (Some (NewVersionMismatchError ''DeleteIfVersion'' key 0), s1)
     | (Inr (Some got), s1) \<Rightarrow>
         if Version got = newStamp then
           (let s2 = (case prev of None \<Rightarrow> s1
                      | Some p \<Rightarrow> notifyDelete (ValueLength p) (reclaimReplacedValue E (now_nano e 4) p s1))
            in (None, dropDeadEvictionGeneration E key (now_nano e 2) deadEntry s2))
         else (Some (NewVersionMismatchError ''DeleteIfVersion'' key (currentVersionOf (now_unix e 3) (Some got))), s1))"

definition DeleteIfVersion :: "'db ext_api \<Rightarrow> op_env \<Rightarrow> (nat \<Rightarrow> 'db storage \<Rightarrow> 'db storage) \<Rightarrow> string \<Rightarrow> version
    \<Rightarrow> 'db storage \<Rightarrow> goerr option \<times> 'db storage" where
  "DeleteIfVersion E e oth key expected s0 =
    (case readRowForCAS E (MakeMetadataKey key) s0 of
       (Inl err, s1) \<Rightarrow> (Some (mapRocksDBError ''DeleteIfVersion'' key err), s1)
     | (Inr prev, s1) \<Rightarrow>
        (case casClassify (now_unix e 0) prev of (state, cur) \<Rightarrow>
           if \<not> delete_admits state cur expected then (Some (NewVersionMismatchError ''DeleteIfVersion'' key cur), s1)
           else (case evictionEntryFor E key s1 of (deadEntry, s2) \<Rightarrow>
             (case nextVersion E (now_nano e 1) s2 of
                (Inl err, s3) \<Rightarrow> (Some (NewInternalError ''DeleteIfVersion'' (ErrText err)), s3)
              | (Inr newStamp, s3) \<Rightarrow>
                 (case marshal E (cas_translate state prev (vm0\<lparr>Version := newStamp, OpType := META_OP_CAS_DELETE,
                                                               CasExpectedVersion := expected\<rparr>)) of
                    None \<Rightarrow> (Some (NewInternalError ''DeleteIfVersion'' (ErrText ''marshal'')), s3)
                  | Some operandBytes \<Rightarrow>
                     (case meta_write E [WMerge (MakeMetadataKey key) operandBytes] (oth 0 s3) of
                        (Some err, s4) \<Rightarrow> (Some (mapRocksDBError ''DeleteIfVersion'' key err), s4)
                      | (None, s4) \<Rightarrow> delete_outcome E e key newStamp prev deadEntry (oth 1 s4)))))))"

text \<open>An outcome that reports a lost race.\<close>

fun mismatch_error :: "goerr \<Rightarrow> bool" where
  "mismatch_error (VersionMismatchError op key v) = True"
| "mismatch_error _ = False"

lemma mismatch_error_is: "mismatch_error err \<Longrightarrow> IsVersionMismatch err \<noteq> None"
  by (cases err) simp_all

lemma mismatch_error_simps [simp]:
  "\<not> mismatch_error (mapRocksDBError op key e)" "\<not> mismatch_error (NewInternalError op u)" "\<not> mismatch_error (NewIOError op key u)"
  "mismatch_error (NewVersionMismatchError op key v)"
  using mapRocksDBError_storage [of op key e] by (auto simp: error_defs)

section \<open>The fast-fail test agrees with the merge operator\<close>

text \<open>A row as the operator loads it, from the row as it was read.\<close>

lemma load_row_eq:
  assumes "m = None \<or> unmarshal P (the m) = Some vm"
  shows "load_row P (bytes_or_nil m) = (case m of None \<Rightarrow> (vm0, False) | Some b \<Rightarrow> if b = [] then (vm0, False) else (vm, True))"
  using assms by (auto simp: load_row_def bytes_or_nil_def split: option.splits)

lemma put_admitted:
  assumes "OpType op = META_OP_CAS_PUT" "CasExpectedVersion op = expected"
    and "casClassify now (Some vm) = (state, cur)" "casAdmits state cur expected"
  shows "cas_holds (vm, True) (cas_translate state (Some vm) op)"
  using assms
  by (auto simp: casClassify_def casAdmits_def cas_holds_def cas_translate_def fenceAdmits_def split: if_splits)

lemma delete_admitted:
  assumes "OpType op = META_OP_CAS_DELETE" "CasExpectedVersion op = expected"
    and "casClassify now (Some vm) = (state, cur)" "delete_admits state cur expected"
  shows "cas_holds (vm, True) (cas_translate state (Some vm) op)"
  using assms
  by (auto simp: casClassify_def delete_admits_def casAdmits_def cas_holds_def cas_translate_def fenceAdmits_def split: if_splits)

lemma translate_fields [simp]:
  "OpType (cas_translate st prev op) = OpType op" "Version (cas_translate st prev op) = Version op"
  "(cas_translate st prev op)\<lparr>OpType := t, CasExpectedVersion := x\<rparr> = op\<lparr>OpType := t, CasExpectedVersion := x\<rparr>"
  by (auto simp: cas_translate_def split: option.splits)

lemma applied_put: "OpType op = META_OP_CAS_PUT \<Longrightarrow> cas_holds st op \<Longrightarrow>
    apply_op st op = (op\<lparr>OpType := META_OP_NONE, CasExpectedVersion := 0\<rparr>, True)"
  by (cases st) (auto simp: op_defs cas_holds_def Let_def split: if_splits)

lemma applied_delete: "OpType op = META_OP_CAS_DELETE \<Longrightarrow> cas_holds st op \<Longrightarrow> apply_op st op = (tombstone_vm (Version op), True)"
  by (cases st) (auto simp: op_defs cas_holds_def Let_def split: if_splits)

section \<open>Frames\<close>

text \<open>Bookkeeping steps: the files, the rows of keys and the reservation stay as they are.\<close>

definition rows_kept :: "view \<Rightarrow> view \<Rightarrow> bool" where
  "rows_kept m m' \<longleftrightarrow> (\<forall>k. m' (MakeMetadataKey k) = m (MakeMetadataKey k)) \<and> m' VersionHWMKey = m VersionHWMKey"

lemma rows_kept_refl [simp]: "rows_kept m m" by (simp add: rows_kept_def)

lemma rows_kept_trans: "rows_kept a b \<Longrightarrow> rows_kept b c \<Longrightarrow> rows_kept a c" by (simp add: rows_kept_def)

lemma side_not_row: "\<not> side_key (MakeMetadataKey k)" "\<not> side_key VersionHWMKey"
  by (auto simp: side_key_def)

lemma read_first_chunk_cong:
  "inlineThreshold s' = inlineThreshold s \<Longrightarrow> read_first_chunk s' body = read_first_chunk s body"
  by (simp only: read_first_chunk_def firstReadSize_def)

context rocksdb
begin

lemma readRowForCAS_ok:
  assumes "readRowForCAS E (MakeMetadataKey key) s = (r, s')"
  shows "meta_only s s'" "view (st_meta s') = view (st_meta s)"
    "r = Inr row \<Longrightarrow> row = row_of E (view (st_meta s)) key
       \<and> (view (st_meta s) (MakeMetadataKey key) = None \<or> row \<noteq> None)"
proof -
  obtain g s1 where g: "meta_get E (MakeMetadataKey key) s = (g, s1)" by fastforce
  note g_ok = meta_get_ok [OF g]
  have s1: "s' = s1" using assms g by (auto simp: readRowForCAS_def split: sum.splits option.splits)
  then show "meta_only s s'" "view (st_meta s') = view (st_meta s)" using g_ok by simp_all
  show "row = row_of E (view (st_meta s)) key
       \<and> (view (st_meta s) (MakeMetadataKey key) = None \<or> row \<noteq> None)"
    if "r = Inr row"
    using assms g that g_ok(3)
    by (cases g) (auto simp: readRowForCAS_def row_of_def split: option.splits, metis)
qed

lemma read_attempts_ok:
  assumes "read_attempts n E (MakeMetadataKey key) err s = (r, s')"
  shows "meta_only s s' \<and> view (st_meta s') = view (st_meta s) \<and> (\<forall>row. r = Inr row \<longrightarrow> row = row_of E (view (st_meta s)) key)"
  using assms
proof (induction n arbitrary: err s)
  case (Suc n)
  obtain g s1 where g: "readRowForCAS E (MakeMetadataKey key) s = (g, s1)" by fastforce
  note g_ok = readRowForCAS_ok [OF g]
  show ?case
  proof (cases g)
    case (Inl err')
    then show ?thesis using Suc.IH [of err' s1] Suc.prems g g_ok meta_only_trans by auto
  next
    case (Inr row)
    then show ?thesis using Suc.prems g g_ok by auto
  qed
qed auto

lemmas readRowForCASRetry_ok = read_attempts_ok [where n = 4 and err = "[]", folded readRowForCASRetry_def]

lemma meta_write_other:
  assumes "meta_write E b s = (r, s')" "\<forall>w \<in> set b. side_key (wop_key w) \<or> index_key (wop_key w)"
  shows "rows_kept (view (st_meta s)) (view (st_meta s'))"
proof (cases r)
  case None
  have "apply_batch E (view (st_meta s)) b k = view (st_meta s) k" if "\<not> side_key k" "\<not> index_key k" for k
    using assms(2) that by (intro apply_batch_same) auto
  then show ?thesis using meta_write_ok(2) [OF assms(1) None] by (simp add: rows_kept_def side_not_row)
qed (use meta_write_ok(3) [OF assms(1)] in simp)

lemma stageRaw_kept: "rows_kept (view (st_meta s)) (view (st_meta (stageRawFileDeletion E now p s)))"
  using stageRawFileDeletion_ok(2) [OF refl] by (simp add: rows_kept_def side_not_row)

lemma reclaim_kept:
  "meta_only s (reclaimReplacedValue E now p s)" "rows_kept (view (st_meta s)) (view (st_meta (reclaimReplacedValue E now p s)))"
proof -
  obtain r s1 where w: "meta_write E [WMerge (MakeDeleteIndexKey (SegmentPath p)) (MakeDeleteIndexOperand 1 (ValueLength p))] s = (r, s1)"
    by fastforce
  then show "meta_only s (reclaimReplacedValue E now p s)"
    using meta_write_ok(1) [OF w] stageRawFileDeletion_ok(1) [OF refl] by (simp add: reclaimReplacedValue_def)
  show "rows_kept (view (st_meta s)) (view (st_meta (reclaimReplacedValue E now p s)))"
    using w meta_write_other [OF w] stageRaw_kept by (simp add: reclaimReplacedValue_def)
qed

lemma reclaim_prev_kept:
  "meta_only s (reclaim_prev E now prev s)" "rows_kept (view (st_meta s)) (view (st_meta (reclaim_prev E now prev s)))"
  using reclaim_kept by (simp_all add: reclaim_prev_def split: option.splits)

lemma stage_spill_kept:
  "meta_only s (stage_spill E now p s)" "rows_kept (view (st_meta s)) (view (st_meta (stage_spill E now p s)))"
  using stageRawFileDeletion_ok(1) [OF refl] stageRaw_kept by (simp_all add: stage_spill_def)

lemma finish_kept:
  assumes "s' = finishWonCASPut E e key vm prev s" "env_ok e" "index_inv (view (st_meta s))"
  shows "st_disk s' = st_disk s" "st_segs s' = st_segs s" "rows_kept (view (st_meta s)) (view (st_meta s'))"
proof -
  define medium where "medium = (if ValueTypeF vm = RAW_FILE \<and> ValueLength vm > inlineThreshold s \<and> ValueLength vm \<le> compactThreshold s
     then [WPut (MakeCompactionKey (now_nano e 6) key) (RawFilePath vm)] else [])"
  obtain ix s1 where ix: "index_for_eviction E key (clk e 7) s = (ix, s1)" by fastforce
  obtain r s2 where w: "meta_write E (medium @ ix) s1 = (r, s2)" by fastforce
  define s3 where "s3 = (if medium @ ix \<noteq> [] then s2 else s1)"
  have s': "s' = notifyPut (ValueLength vm - (case prev of None \<Rightarrow> 0 | Some p \<Rightarrow> ValueLength p)) (reclaim_prev E (now_nano e 8) prev s3)"
    using assms(1) ix w unfolding finishWonCASPut_def medium_def s3_def PrepareEntryForCompaction_def Let_def by auto
  have t: "time_ok (clk e 7)" using assms(2) by (simp add: env_ok_def)
  note ix_ok = index_for_eviction_ok [OF ix t assms(3)]
  have "\<forall>w \<in> set (medium @ ix). side_key (wop_key w) \<or> index_key (wop_key w)"
    using ix_ok(3) by (auto simp: medium_def)
  then have k2: "rows_kept (view (st_meta s)) (view (st_meta s3))" "meta_only s s3"
    using meta_write_other [OF w] ix_ok(1,2) meta_write_ok(1) [OF w] meta_only_trans by (auto simp: s3_def)
  show "st_disk s' = st_disk s" "st_segs s' = st_segs s" "rows_kept (view (st_meta s)) (view (st_meta s'))"
    using s' meta_only_fields(1,2) [OF k2(2)] meta_only_fields(1,2) [OF reclaim_prev_kept(1) [of s3 "now_nano e 8" prev]]
      rows_kept_trans [OF k2(1) reclaim_prev_kept(2) [of s3 "now_nano e 8" prev]] by simp_all
qed

text \<open>The row after a merge.\<close>

lemma merge_row:
  assumes w: "meta_write E [WMerge (MakeMetadataKey key) b] s = (None, s')" and op: "unmarshal E b = Some op"
    and base: "view (st_meta s) (MakeMetadataKey key) = None \<or> row_of E (view (st_meta s)) key \<noteq> None"
  shows "row_of E (view (st_meta s')) key =
      Some (let st = apply_op (load_row E (bytes_or_nil (view (st_meta s) (MakeMetadataKey key)))) op
            in if snd st then fst st else tombstone_vm 0)"
    and "k \<noteq> key \<Longrightarrow> view (st_meta s') (MakeMetadataKey k) = view (st_meta s) (MakeMetadataKey k)"
proof -
  let ?ex = "bytes_or_nil (view (st_meta s) (MakeMetadataKey key))"
  have "unmarshal E ?ex \<noteq> None"
    using base unmarshal_empty by (auto simp: bytes_or_nil_def row_of_def split: option.splits)
  note mr = merge_result(2) [OF this, of "[b]"]
  have "IsMetadataKey (MakeMetadataKey key)" by (simp add: IsMetadataKey_def MakeMetadataKey_def)
  then have "FullMerge E (MakeMetadataKey key) = mergeMetadataCAS E" by (rule FullMerge_metadata)
  then show "row_of E (view (st_meta s')) key =
      Some (let st = apply_op (load_row E ?ex) op in if snd st then fst st else tombstone_vm 0)"
    using meta_write_ok(2) [OF w refl] mr op by (simp add: row_of_def decode_ops_def map_filter_def Let_def)
  show "k \<noteq> key \<Longrightarrow> view (st_meta s') (MakeMetadataKey k) = view (st_meta s) (MakeMetadataKey k)"
    using meta_write_ok(2) [OF w refl] by simp
qed

lemma mismatch_errors [simp]:
  "IsVersionMismatch (mapRocksDBError op key err) = None" "IsVersionMismatch (NewInternalError op (ErrText m)) = None"
  "IsVersionMismatch (NewVersionMismatchError op key v) = Some (VersionMismatchError op key v)"
  by (simp_all add: mapRocksDBError_not_mismatch error_defs)

lemma cas_outcome_ok:
  assumes out: "cas_outcome E e key op sp prev s = (r, s')" and env: "env_ok e" and inv: "index_inv (view (st_meta s))"
    and row: "row_of E (view (st_meta s)) key = Some got" "Version got = Version op"
  shows "st_disk s' = st_disk s" "st_segs s' = st_segs s" "rows_kept (view (st_meta s)) (view (st_meta s'))"
    "r = Inr v \<Longrightarrow> v = Version op" "r = Inl err \<Longrightarrow> IsVersionMismatch err = None"
proof -
  obtain g s1 where g: "readRowForCASRetry E (MakeMetadataKey key) s = (g, s1)" by fastforce
  note g_ok = readRowForCASRetry_ok [OF g]
  have s1: "st_disk s1 = st_disk s" "st_segs s1 = st_segs s" "index_inv (view (st_meta s1))"
    using g_ok meta_only_fields(1,2) inv by auto
  have goal: "(st_disk s' = st_disk s \<and> st_segs s' = st_segs s) \<and> rows_kept (view (st_meta s)) (view (st_meta s'))
    \<and> (case r of Inr v \<Rightarrow> v = Version op | Inl err \<Rightarrow> IsVersionMismatch err = None)"
  proof (cases g)
    case (Inl err)
    obtain wr s2 where w: "meta_write E [WPut (MakeCompactionKey (now_nano e 6) key) sp] s1 = (wr, s2)" by fastforce
    define s3 where "s3 = (if sp \<noteq> [] \<and> ValueLength op > inlineThreshold s1 \<and> ValueLength op \<le> compactThreshold s1 then s2 else s1)"
    have res: "r = Inl (mapRocksDBError ''PutIfVersion'' key err)" "s' = reclaim_prev E (now_nano e 8) prev s3"
      using out g Inl w unfolding cas_outcome_def s3_def PrepareEntryForCompaction_def Let_def by auto
    have "meta_only s1 s3" "rows_kept (view (st_meta s1)) (view (st_meta s3))"
      using meta_write_ok(1) [OF w] meta_write_other [OF w] by (auto simp: s3_def)
    then show ?thesis
      using res g_ok s1 meta_only_fields(1,2) [of s1 s3] reclaim_prev_kept [of s3 "now_nano e 8" prev]
        meta_only_fields(1,2) [OF reclaim_prev_kept(1) [of s3 "now_nano e 8" prev]] rows_kept_trans by auto
  next
    case (Inr x)
    then have "r = Inr (Version op)" "s' = finishWonCASPut E e key op prev s1"
      using out g g_ok row by (auto simp: cas_outcome_def)
    then show ?thesis using finish_kept [OF _ env s1(3), of s' key op prev] s1(1,2) g_ok by auto
  qed
  then show "st_disk s' = st_disk s" "st_segs s' = st_segs s" "rows_kept (view (st_meta s)) (view (st_meta s'))"
    "r = Inr v \<Longrightarrow> v = Version op" "r = Inl err \<Longrightarrow> IsVersionMismatch err = None"
    by auto
qed

abbreviation (input) "admitted now m key expected \<equiv>
  casAdmits (fst (casClassify now (row_of E m key))) (snd (casClassify now (row_of E m key))) expected"

lemma cas_commit_alone:
  assumes com: "cas_commit E e (\<lambda>i s. s) key op sp expected s = (r, s')" and env: "env_ok e" and inv: "index_inv (view (st_meta s))"
    and op: "OpType op = META_OP_CAS_PUT" "CasExpectedVersion op = expected"
  shows "st_disk s' = st_disk s" "st_segs s' = st_segs s"
    "k \<noteq> key \<Longrightarrow> view (st_meta s') (MakeMetadataKey k) = view (st_meta s) (MakeMetadataKey k)"
    "rows_kept (view (st_meta s)) (view (st_meta s'))
       \<or> row_of E (view (st_meta s')) key = Some (op\<lparr>OpType := META_OP_NONE, CasExpectedVersion := 0\<rparr>)"
    "r = Inr v \<Longrightarrow> v = Version op \<and> row_of E (view (st_meta s')) key = Some (op\<lparr>OpType := META_OP_NONE, CasExpectedVersion := 0\<rparr>)
       \<and> admitted (now_unix e 3) (view (st_meta s)) key expected"
    "r = Inl err \<Longrightarrow> IsVersionMismatch err \<noteq> None \<Longrightarrow> rows_kept (view (st_meta s)) (view (st_meta s'))
       \<and> \<not> admitted (now_unix e 3) (view (st_meta s)) key expected
       \<and> err = NewVersionMismatchError ''PutIfVersion'' key (snd (casClassify (now_unix e 3) (row_of E (view (st_meta s)) key)))"
proof -
  let ?mk = "MakeMetadataKey key" and ?m = "view (st_meta s)"
  let ?row = "row_of E ?m key" and ?new = "op\<lparr>OpType := META_OP_NONE, CasExpectedVersion := 0\<rparr>"
  obtain g s1 where g: "readRowForCAS E ?mk s = (g, s1)" by fastforce
  note g_ok = readRowForCAS_ok [OF g]
  obtain state cur where cl: "casClassify (now_unix e 3) ?row = (state, cur)" by fastforce
  have s1: "st_disk s1 = st_disk s" "st_segs s1 = st_segs s" using meta_only_fields(1,2) [OF g_ok(1)] .
  have spill: "st_disk (stage_spill E (now_nano e 4) sp x) = st_disk x" "st_segs (stage_spill E (now_nano e 4) sp x) = st_segs x" for x
    using meta_only_fields(1,2) [OF stage_spill_kept(1)] .
  have goal: "(st_disk s' = st_disk s \<and> st_segs s' = st_segs s) \<and> (\<forall>k. k \<noteq> key \<longrightarrow> view (st_meta s') (MakeMetadataKey k) = ?m (MakeMetadataKey k))
    \<and> (rows_kept ?m (view (st_meta s')) \<or> row_of E (view (st_meta s')) key = Some ?new)
    \<and> (case r of Inr v \<Rightarrow> v = Version op \<and> row_of E (view (st_meta s')) key = Some ?new \<and> casAdmits state cur expected
        | Inl err \<Rightarrow> IsVersionMismatch err \<noteq> None \<longrightarrow> rows_kept ?m (view (st_meta s')) \<and> \<not> casAdmits state cur expected
            \<and> err = NewVersionMismatchError ''PutIfVersion'' key cur)"
  proof (cases "\<exists>prev. g = Inr prev \<and> casAdmits state cur expected \<and> (\<exists>b. marshal E (cas_translate state prev op) = Some b)")
    case False
    then obtain err where r: "r = Inl err" "s' = stage_spill E (now_nano e 4) sp s1"
      and mm: "IsVersionMismatch err \<noteq> None \<longrightarrow> \<not> casAdmits state cur expected \<and> err = NewVersionMismatchError ''PutIfVersion'' key cur"
      using com g g_ok(3) cl by (cases g) (auto simp: cas_commit_def split: option.splits if_splits)
    have "rows_kept ?m (view (st_meta s'))" using r stage_spill_kept(2) [of s1] g_ok(2) by simp
    then show ?thesis using r mm s1 spill by (auto simp: rows_kept_def)
  next
    case True
    then obtain prev b where prev: "g = Inr prev" and adm: "casAdmits state cur expected"
      and b: "marshal E (cas_translate state prev op) = Some b" by blast
    note row = g_ok(3) [OF prev]
    have rowv: "row_of E ?m key = prev" using row by simp
    obtain wr s2 where w: "meta_write E [WMerge ?mk b] s1 = (wr, s2)" by fastforce
    have s2: "st_disk s2 = st_disk s" "st_segs s2 = st_segs s" using meta_only_fields(1,2) [OF meta_write_ok(1) [OF w]] s1 by simp_all
    show ?thesis
    proof (cases wr)
      case (Some err)
      then have r: "r = Inl (mapRocksDBError ''PutIfVersion'' key err)" "s' = stage_spill E (now_nano e 4) sp s2"
        using com g prev row cl adm b w by (simp_all add: cas_commit_def)
      have "rows_kept ?m (view (st_meta s'))" using r stage_spill_kept(2) [of s2] meta_write_ok(3) [OF w Some] g_ok(2) by simp
      then show ?thesis using r s2 spill by (auto simp: rows_kept_def)
    next
      case None
      note mr = merge_row [OF w [unfolded None] unmarshal_marshal [OF b]]
      have base: "view (st_meta s1) ?mk = None \<or> row_of E (view (st_meta s1)) key \<noteq> None" using row g_ok(2) by auto
      have "cas_holds (load_row E (bytes_or_nil (view (st_meta s1) ?mk))) (cas_translate state prev op)"
      proof (cases prev)
        case None
        then have "view (st_meta s1) ?mk = None" using row g_ok(2) by auto
        then show ?thesis using op by (simp add: None load_row_def bytes_or_nil_def cas_holds_def cas_translate_def)
      next
        case (Some vm)
        have hold: "cas_holds (vm, True) (cas_translate state (Some vm) op)"
          using put_admitted [OF op, of "now_unix e 3" vm] cl adm row Some by auto
        have "unmarshal E (the (view (st_meta s1) ?mk)) = Some vm" "view (st_meta s1) ?mk \<noteq> None"
          using rowv g_ok(2) by (auto simp: Some row_of_def bind_eq_Some_conv)
        then show ?thesis using hold Some op by (auto simp: load_row_def bytes_or_nil_def cas_holds_def cas_translate_def)
      qed
      then have ap: "apply_op (load_row E (bytes_or_nil (view (st_meta s1) ?mk))) (cas_translate state prev op) = (?new, True)"
        using applied_put op by simp
      have row2: "row_of E (view (st_meta s2)) key = Some ?new" using mr(1) [OF base] ap by simp
      have inv2: "index_inv (view (st_meta s2))"
        using inv unfolding g_ok(2) [symmetric]
        by (rule index_inv_cong) (use meta_write_ok(2) [OF w None] in auto)
      have out: "cas_outcome E e key op sp prev s2 = (r, s')"
        using com g prev row cl adm b w None by (simp add: cas_commit_def)
      note oc = cas_outcome_ok [OF out env inv2 row2]
      have "row_of E (view (st_meta s')) key = Some ?new" using oc(3) row2 by (simp add: rows_kept_def row_of_def)
      then show ?thesis
        using oc s2 mr(2) [OF base] g_ok(2) adm by (cases r) (auto simp: rows_kept_def)
    qed
  qed
  then show "st_disk s' = st_disk s" "st_segs s' = st_segs s"
    "k \<noteq> key \<Longrightarrow> view (st_meta s') (MakeMetadataKey k) = ?m (MakeMetadataKey k)"
    "rows_kept ?m (view (st_meta s')) \<or> row_of E (view (st_meta s')) key = Some ?new"
    "r = Inr v \<Longrightarrow> v = Version op \<and> row_of E (view (st_meta s')) key = Some ?new \<and> admitted (now_unix e 3) ?m key expected"
    "r = Inl err \<Longrightarrow> IsVersionMismatch err \<noteq> None \<Longrightarrow> rows_kept ?m (view (st_meta s'))
       \<and> \<not> admitted (now_unix e 3) ?m key expected \<and> err = NewVersionMismatchError ''PutIfVersion'' key (snd (casClassify (now_unix e 3) ?row))"
    using cl by auto
qed

lemma cas_spill_ok:
  assumes "cas_spill e key body chunk op s = (r, s')" "read_first_chunk s body = Inr chunk" "0 \<le> inlineThreshold s"
    and "OpType op = META_OP_CAS_PUT" "Data op = []"
  shows "\<exists>x. s' = s \<or> s' = s\<lparr>st_disk := (st_disk s)(filesPath s @ ''/'' @ uuid e := x)\<rparr>"
    "r = Inr (op', sp) \<Longrightarrow> OpType op' = META_OP_CAS_PUT \<and> CasExpectedVersion op' = CasExpectedVersion op
       \<and> Version op' = Version op \<and> Expiry op' = Expiry op \<and> snd body = None
       \<and> (\<forall>s2 t x. st_disk s2 = st_disk s' \<longrightarrow> open_value s2 key (op'\<lparr>OpType := t, CasExpectedVersion := x\<rparr>) = Some (Inr (fst body)))"
    "r = Inl err \<Longrightarrow> \<not> mismatch_error err"
proof -
  obtain res s1 where w: "FileManager_Write e key body s = (res, s1)" by fastforce
  note w_ok = FileManager_Write_ok [OF w]
  have small: "s' = s" "r = Inr (op\<lparr>ValueTypeF := INLINE, Data := chunk, ValueLength := int (length chunk)\<rparr>, [])"
    if "\<not> int (length chunk) > inlineThreshold s"
    using assms(1) that by (simp_all add: cas_spill_def)
  have large: "s' = s1" "r = (case res of Inl err \<Rightarrow> Inl (file_write_error ''PutIfVersion'' key err)
      | Inr (p, c, n) \<Rightarrow> Inr (op\<lparr>ValueTypeF := RAW_FILE, RawFilePath := p, ValueLength := n, Checksum := c\<rparr>, p))"
    if "int (length chunk) > inlineThreshold s"
    using assms(1) that w by (auto simp: cas_spill_def split: sum.splits)
  show "\<exists>x. s' = s \<or> s' = s\<lparr>st_disk := (st_disk s)(filesPath s @ ''/'' @ uuid e := x)\<rparr>"
    using small(1) large(1) w_ok(1) by blast
  show "\<not> mismatch_error err" if "r = Inl err"
    using that small(2) large(2) w_ok(3)
    by (cases "int (length chunk) > inlineThreshold s"; cases res) (auto simp: file_write_error_def error_defs)
  show "OpType op' = META_OP_CAS_PUT \<and> CasExpectedVersion op' = CasExpectedVersion op
       \<and> Version op' = Version op \<and> Expiry op' = Expiry op \<and> snd body = None
       \<and> (\<forall>s2 t x. st_disk s2 = st_disk s' \<longrightarrow> open_value s2 key (op'\<lparr>OpType := t, CasExpectedVersion := x\<rparr>) = Some (Inr (fst body)))"
    if r: "r = Inr (op', sp)"
  proof (cases "int (length chunk) > inlineThreshold s")
    case True
    obtain p c n where f: "res = Inr (p, c, n)" using r large(2) [OF True] by (cases res) auto
    then have op': "op' = op\<lparr>ValueTypeF := RAW_FILE, RawFilePath := p, ValueLength := n, Checksum := c\<rparr>"
      using r large(2) [OF True] by auto
    show ?thesis
      using w_ok(2) [OF f] large(1) [OF True] read_first_chunk_ok(1) [OF assms(2,3) True] assms(4)
      by (auto simp: op' open_value_def FileManager_Read_def)
  next
    case False
    then show ?thesis using r small read_first_chunk_ok(2) [OF assms(2,3) False] assms(4) by (auto simp: open_value_def)
  qed
qed

lemma PutIfVersion_alone:
  assumes put: "PutIfVersion E e (\<lambda>i s. s) key body ttl expected s = (r, s')" and env: "env_ok e"
    and inv: "index_inv (view (st_meta s))" and thr: "0 \<le> inlineThreshold s"
    and fresh: "fresh_file E (view (st_meta s)) s (filesPath s @ ''/'' @ uuid e)"
  defines "new \<equiv> (abs_store E (view (st_meta s)) s)(key \<mapsto> (fst body, write_expiry (now_nano e 1) s ttl))"
  shows "abs_store E (view (st_meta s')) s' \<in> {abs_store E (view (st_meta s)) s, new}"
    "r = Inr v \<Longrightarrow> abs_store E (view (st_meta s')) s' = new \<and> snd body = None
       \<and> admitted (now_unix e 0) (view (st_meta s)) key expected
       \<and> (\<exists>vm. row_of E (view (st_meta s')) key = Some vm \<and> Version vm = v \<and> Expiry vm = write_expiry (now_nano e 1) s ttl
            \<and> open_value s' key vm = Some (Inr (fst body)))"
    "r = Inl err \<Longrightarrow> mismatch_error err \<Longrightarrow> abs_store E (view (st_meta s')) s' = abs_store E (view (st_meta s)) s
       \<and> (\<exists>now \<in> {now_unix e 0, now_unix e 3}. \<not> admitted now (view (st_meta s)) key expected
            \<and> err = NewVersionMismatchError ''PutIfVersion'' key (snd (casClassify now (row_of E (view (st_meta s)) key))))"
proof -
  let ?mk = "MakeMetadataKey key" and ?m = "view (st_meta s)" and ?abs = "abs_store E (view (st_meta s)) s"
  let ?p = "filesPath s @ ''/'' @ uuid e"
  define goal where "goal = (abs_store E (view (st_meta s')) s' \<in> {?abs, new}
    \<and> (case r of Inr v \<Rightarrow> abs_store E (view (st_meta s')) s' = new \<and> snd body = None \<and> admitted (now_unix e 0) ?m key expected
         \<and> (\<exists>vm. row_of E (view (st_meta s')) key = Some vm \<and> Version vm = v \<and> Expiry vm = write_expiry (now_nano e 1) s ttl
              \<and> open_value s' key vm = Some (Inr (fst body)))
       | Inl err \<Rightarrow> mismatch_error err \<longrightarrow> abs_store E (view (st_meta s')) s' = ?abs
         \<and> (\<exists>now \<in> {now_unix e 0, now_unix e 3}. \<not> admitted now ?m key expected
            \<and> err = NewVersionMismatchError ''PutIfVersion'' key (snd (casClassify now (row_of E ?m key))))))"
  have unchanged: goal if u: "r = Inl err" "st_disk s' = st_disk s \<or> (\<exists>x. st_disk s' = (st_disk s)(?p := x))" "st_segs s' = st_segs s"
    "\<forall>k. view (st_meta s') (MakeMetadataKey k) = ?m (MakeMetadataKey k)"
    "mismatch_error err \<Longrightarrow> \<exists>now \<in> {now_unix e 0, now_unix e 3}. \<not> admitted now ?m key expected
            \<and> err = NewVersionMismatchError ''PutIfVersion'' key (snd (casClassify now (row_of E ?m key)))" for err
  proof -
    obtain x where x: "st_disk s' = st_disk s \<or> st_disk s' = (st_disk s)(?p := x)" using u(2) by blast
    have "abs_store E (view (st_meta s')) s' = ?abs"
    proof
      fix k show "abs_store E (view (st_meta s')) s' k = ?abs k"
        by (rule abs_store_frame [OF fresh x u(3)]) (use u(4) in simp)
    qed
    then show ?thesis using u(1,5) by (simp add: goal_def)
  qed
  have goal
  proof -
    obtain g s1 where g: "readRowForCAS E ?mk s = (g, s1)" by fastforce
    note g_ok = readRowForCAS_ok [OF g]
    have s1: "st_disk s1 = st_disk s" "st_segs s1 = st_segs s" "inlineThreshold s1 = inlineThreshold s"
      "filesPath s1 = filesPath s" "defaultTTL s1 = defaultTTL s"
      using meta_only_fields [OF g_ok(1)] by simp_all
    show goal
    proof (cases "\<exists>row. g = Inr row \<and> admitted (now_unix e 0) ?m key expected")
      case False
      then have "s' = s1 \<and> (\<exists>err. r = Inl err \<and> (mismatch_error err \<longrightarrow> \<not> admitted (now_unix e 0) ?m key expected
          \<and> err = NewVersionMismatchError ''PutIfVersion'' key (snd (casClassify (now_unix e 0) (row_of E ?m key)))))"
        using put g g_ok(3) by (cases g) (auto simp: PutIfVersion_def split: prod.splits if_splits)
      then obtain err where "s' = s1" "r = Inl err" "mismatch_error err \<longrightarrow> \<not> admitted (now_unix e 0) ?m key expected
          \<and> err = NewVersionMismatchError ''PutIfVersion'' key (snd (casClassify (now_unix e 0) (row_of E ?m key)))" by blast
      then show ?thesis using s1 g_ok(2) by (intro unchanged [of err]) auto
    next
      case True
      then obtain row where row: "g = Inr row" "admitted (now_unix e 0) ?m key expected" by blast
      have rowv: "row_of E ?m key = row" using g_ok(3) [OF row(1)] by simp
      obtain state cur where cl: "casClassify (now_unix e 0) row = (state, cur)" by fastforce
      have adm: "casAdmits state cur expected" using row(2) rowv cl by simp
      show ?thesis
      proof (cases "read_first_chunk s1 body")
        case (Inl err)
        then have "r = Inl (NewIOError ''PutIfVersion'' key err)" "s' = s1"
          using put g row(1) cl adm by (simp_all add: PutIfVersion_def)
        then show ?thesis using s1 g_ok(2) by (intro unchanged) (auto simp: error_defs)
      next
        case (Inr chunk)
        obtain nv s2 where nv: "nextVersion E (now_nano e 2) s1 = (nv, s2)" by fastforce
        note nvf = nextVersion_frame [OF nv]
        have rows2: "view (st_meta s2) (MakeMetadataKey k) = ?m (MakeMetadataKey k)" for k using nvf(10) g_ok(2) by simp
        show ?thesis
        proof (cases nv)
          case (Inl err)
          then have "r = Inl (NewInternalError ''PutIfVersion'' (ErrText err))" "s' = s2"
            using put g row(1) cl adm Inr nv by (simp_all add: PutIfVersion_def)
          then show ?thesis using s1 nvf rows2 by (intro unchanged) auto
        next
          case stamp: (Inr newStamp)
          let ?op = "vm0\<lparr>Expiry := write_expiry (now_nano e 1) s2 ttl, Version := newStamp,
             OpType := META_OP_CAS_PUT, CasExpectedVersion := expected\<rparr>"
          obtain sp s3 where sp: "cas_spill e key body chunk ?op s2 = (sp, s3)" by fastforce
          have chunk2: "read_first_chunk s2 body = Inr chunk" "0 \<le> inlineThreshold s2"
            using Inr read_first_chunk_cong [OF nvf(5)] nvf(5) s1(3) thr by simp_all
          note spo = cas_spill_ok [OF sp chunk2]
          have p2: "filesPath s2 @ ''/'' @ uuid e = ?p" using nvf(4) s1(4) by simp
          obtain x where x: "s3 = s2 \<or> s3 = s2\<lparr>st_disk := (st_disk s2)(?p := x)\<rparr>" using spo(1) p2 by auto
          have s3: "st_disk s3 = st_disk s \<or> (\<exists>x. st_disk s3 = (st_disk s)(?p := x))" "st_segs s3 = st_segs s" "st_meta s3 = st_meta s2"
            using x nvf(1,2) s1(1,2) by auto
          have exp: "write_expiry (now_nano e 1) s2 ttl = write_expiry (now_nano e 1) s ttl"
            using nvf(9) s1(5) by (simp add: write_expiry_def effective_ttl_def)
          have res: "(r, s') = (case sp of Inl err \<Rightarrow> (Inl err, s3)
              | Inr (op, path) \<Rightarrow> cas_commit E e (\<lambda>i s. s) key op path expected s3)"
            using put g row(1) cl adm Inr nv stamp sp by (auto simp: PutIfVersion_def split: sum.splits)
          show ?thesis
          proof (cases sp)
            case (Inl err)
            then show ?thesis using res s3 rows2 spo(3) [OF _ _ Inl] by (intro unchanged [of err]) auto
          next
            case op: (Inr q)
            obtain op path where q: "q = (op, path)" by fastforce
            note opo = spo(2) [OF _ _ op [unfolded q], simplified]
            have com: "cas_commit E e (\<lambda>i s. s) key op path expected s3 = (r, s')" using res op q by simp
            have inv3: "index_inv (view (st_meta s3))"
              using inv by (rule index_inv_cong) (use nvf(10) g_ok(2) s3(3) in \<open>auto simp: index_key_def\<close>)
            let ?new = "op\<lparr>OpType := META_OP_NONE, CasExpectedVersion := 0\<rparr>"
            have rows3: "view (st_meta s3) (MakeMetadataKey k) = ?m (MakeMetadataKey k)" for k using rows2 s3(3) by simp
            have row3: "row_of E (view (st_meta s3)) key = row_of E ?m key" by (rule row_of_cong) (rule rows3)
            have op_ok: "OpType op = META_OP_CAS_PUT" "CasExpectedVersion op = expected" "Version op = newStamp"
              "Expiry op = write_expiry (now_nano e 1) s ttl" "snd body = None"
              "\<And>s2 t x. st_disk s2 = st_disk s3 \<Longrightarrow> open_value s2 key (op\<lparr>OpType := t, CasExpectedVersion := x\<rparr>) = Some (Inr (fst body))"
              using opo exp by auto
            note c = cas_commit_alone [OF com env inv3 op_ok(1,2)]
            have disk': "st_disk s' = st_disk s \<or> (\<exists>x. st_disk s' = (st_disk s)(?p := x))" "st_segs s' = st_segs s"
              using c(1,2) s3 by auto
            have opened: "open_value s' key ?new = Some (Inr (fst body))" by (rule op_ok(6)) (rule c(1))
            have new: "abs_store E (view (st_meta s')) s' = new" if "row_of E (view (st_meta s')) key = Some ?new"
            proof
              obtain y where y: "st_disk s' = st_disk s \<or> st_disk s' = (st_disk s)(?p := y)" using disk'(1) by blast
              fix k show "abs_store E (view (st_meta s')) s' k = new k"
              proof (cases "k = key")
                case True
                then show ?thesis using that op_ok(4) opened by (simp add: abs_store_def new_def)
              next
                case False
                have "abs_store E (view (st_meta s')) s' k = ?abs k"
                  by (rule abs_store_frame [OF fresh y disk'(2)]) (use c(3) [OF False] rows3 in simp)
                then show ?thesis using False by (simp add: new_def)
              qed
            qed
            have kept: goal if "rows_kept (view (st_meta s3)) (view (st_meta s'))" "r = Inl err" for err
              by (rule unchanged [OF that(2) disk'])
                (use that rows3 c(6) [OF that(2) mismatch_error_is] row3 in \<open>auto simp: rows_kept_def\<close>)
            show ?thesis
            proof (cases r)
              case (Inl err)
              show ?thesis
              proof (cases "rows_kept (view (st_meta s3)) (view (st_meta s'))")
                case False
                then have "row_of E (view (st_meta s')) key = Some ?new" "\<not> mismatch_error err"
                  using c(4) c(6) [OF Inl mismatch_error_is] by auto
                then show ?thesis using new Inl by (simp add: goal_def)
              qed (use kept Inl in blast)
            next
              case won: (Inr v)
              note cv = c(5) [OF won]
              then have "row_of E (view (st_meta s')) key = Some ?new" "v = newStamp" using op_ok(3) by auto
              then show ?thesis
                using new won row(2) op_ok(3-5) opened by (auto simp: goal_def)
            qed
          qed
        qed
      qed
    qed
  qed
  then show "abs_store E (view (st_meta s')) s' \<in> {?abs, new}"
    "r = Inr v \<Longrightarrow> abs_store E (view (st_meta s')) s' = new \<and> snd body = None
       \<and> admitted (now_unix e 0) ?m key expected
       \<and> (\<exists>vm. row_of E (view (st_meta s')) key = Some vm \<and> Version vm = v \<and> Expiry vm = write_expiry (now_nano e 1) s ttl
            \<and> open_value s' key vm = Some (Inr (fst body)))"
    "r = Inl err \<Longrightarrow> mismatch_error err \<Longrightarrow> abs_store E (view (st_meta s')) s' = ?abs
       \<and> (\<exists>now \<in> {now_unix e 0, now_unix e 3}. \<not> admitted now ?m key expected
            \<and> err = NewVersionMismatchError ''PutIfVersion'' key (snd (casClassify now (row_of E ?m key))))"
    by (auto simp: goal_def)
qed

lemma meta_write_index:
  assumes "meta_write E b s = (r, s')" "\<forall>w \<in> set b. \<not> index_key (wop_key w)" "index_inv (view (st_meta s))"
  shows "index_inv (view (st_meta s'))"
proof (cases r)
  case None
  have "apply_batch E (view (st_meta s)) b k = view (st_meta s) k" if "index_key k" for k
    using assms(2) that by (intro apply_batch_same) auto
  then show ?thesis using meta_write_ok(2) [OF assms(1) None] index_inv_cong [OF assms(3)] by simp
qed (use meta_write_ok(3) [OF assms(1)] assms(3) in simp)

lemma reclaim_index:
  assumes "index_inv (view (st_meta s))"
  shows "index_inv (view (st_meta (reclaimReplacedValue E now p s)))"
proof -
  obtain r s1 where w: "meta_write E [WMerge (MakeDeleteIndexKey (SegmentPath p)) (MakeDeleteIndexOperand 1 (ValueLength p))] s = (r, s1)"
    by fastforce
  have "index_inv (view (st_meta s1))" using meta_write_index [OF w] assms by (simp add: side_not_index)
  then show ?thesis using assms w stage_frame(4) [OF refl] by (simp add: reclaimReplacedValue_def)
qed

lemma backref_index_key:
  assumes "index_inv m" "m (eviction_backref s key) = Some x"
  shows "index_key x"
proof -
  have "\<exists>t. x = MakeFifoIndexKey key t \<or> x = MakeBucketedAccessKey key t"
    using index_invD [OF assms(1), of key x] assms(2) unfolding eviction_backref_def by (metis (full_types))
  then show ?thesis using index_key_make by blast
qed

lemma drop_kept:
  assumes "s' = dropDeadEvictionGeneration E key cutoff dead s" "index_inv (view (st_meta s))"
    and "case dead of None \<Rightarrow> True | Some d \<Rightarrow> index_key d"
  shows "meta_only s s'" "rows_kept (view (st_meta s)) (view (st_meta s'))"
proof -
  let ?br = "eviction_backref s key"
  obtain cur s1 where g: "meta_get E ?br s = (cur, s1)" by fastforce
  note g_ok = meta_get_ok [OF g]
  define b where "b = (case dead of None \<Rightarrow> [] | Some d \<Rightarrow> [WDelete d]) @ (case cur of Inr (Some c) \<Rightarrow>
      (case evictionEntryTime c of Some written \<Rightarrow> if written < cutoff then [WDelete c, WDelete ?br] else [] | None \<Rightarrow> []) | _ \<Rightarrow> [])"
  obtain r s2 where w: "meta_write E b s1 = (r, s2)" by fastforce
  have s': "s' = (if b = [] then s1 else s2)"
    using assms(1) g w unfolding dropDeadEvictionGeneration_def b_def Let_def by auto
  have "index_key ?br" by (simp add: eviction_backref_def)
  moreover have "index_key c" if "cur = Inr (Some c)" for c
    by (rule backref_index_key [OF assms(2) g_ok(3) [OF that, symmetric]])
  ultimately have "\<forall>w \<in> set b. side_key (wop_key w) \<or> index_key (wop_key w)"
    using assms(3) by (auto simp: b_def split: option.splits sum.splits if_splits)
  then have "rows_kept (view (st_meta s1)) (view (st_meta s2))" by (rule meta_write_other [OF w])
  then show "meta_only s s'" "rows_kept (view (st_meta s)) (view (st_meta s'))"
    using s' g_ok(1,2) meta_write_ok(1) [OF w] meta_only_trans by auto
qed

lemma delete_outcome_ok:
  assumes out: "delete_outcome E e key v prev dead s = (r, s')" and inv: "index_inv (view (st_meta s))"
    and row: "row_of E (view (st_meta s)) key = Some got" "Version got = v"
    and dead: "case dead of None \<Rightarrow> True | Some d \<Rightarrow> index_key d"
  shows "st_disk s' = st_disk s" "st_segs s' = st_segs s" "rows_kept (view (st_meta s)) (view (st_meta s'))"
    "r = Some err \<Longrightarrow> \<not> mismatch_error err"
proof -
  obtain g s1 where g: "readRowForCASRetry E (MakeMetadataKey key) s = (g, s1)" by fastforce
  note g_ok = readRowForCASRetry_ok [OF g]
  have s1: "st_disk s1 = st_disk s" "st_segs s1 = st_segs s" "index_inv (view (st_meta s1))"
    using g_ok meta_only_fields(1,2) inv by auto
  have goal: "(st_disk s' = st_disk s \<and> st_segs s' = st_segs s) \<and> rows_kept (view (st_meta s)) (view (st_meta s'))
    \<and> (\<forall>err. r = Some err \<longrightarrow> \<not> mismatch_error err)"
  proof (cases g)
    case (Inl err)
    then have "r = Some (mapRocksDBError ''DeleteIfVersion'' key err)" "s' = reclaim_prev E (now_nano e 4) prev s1"
      using out g by (auto simp: delete_outcome_def)
    then show ?thesis
      using s1 g_ok reclaim_prev_kept [of s1 "now_nano e 4" prev] meta_only_fields(1,2) [of s1 s'] by simp
  next
    case (Inr x)
    define s2 where "s2 = (case prev of None \<Rightarrow> s1 | Some p \<Rightarrow> notifyDelete (ValueLength p) (reclaimReplacedValue E (now_nano e 4) p s1))"
    have res: "r = None" "s' = dropDeadEvictionGeneration E key (now_nano e 2) dead s2"
      using out g g_ok row Inr by (auto simp: delete_outcome_def s2_def Let_def)
    have s2: "st_disk s2 = st_disk s1" "st_segs s2 = st_segs s1" "rows_kept (view (st_meta s1)) (view (st_meta s2))"
      "index_inv (view (st_meta s2))"
      using reclaim_kept [of s1] meta_only_fields(1,2) [OF reclaim_kept(1)] reclaim_index [OF s1(3)] s1(3)
      by (auto simp: s2_def split: option.splits)
    note d = drop_kept [OF res(2) s2(4) dead]
    show ?thesis
      using res(1) s1 s2 g_ok meta_only_fields(1,2) [OF d(1)] rows_kept_trans [OF s2(3) d(2)] by simp
  qed
  then show "st_disk s' = st_disk s" "st_segs s' = st_segs s" "rows_kept (view (st_meta s)) (view (st_meta s'))"
    "r = Some err \<Longrightarrow> \<not> mismatch_error err" by blast+
qed

lemma DeleteIfVersion_alone:
  assumes del: "DeleteIfVersion E e (\<lambda>i s. s) key expected s = (r, s')" and inv: "index_inv (view (st_meta s))"
    and row: "view (st_meta s) (MakeMetadataKey key) \<noteq> Some []"
  defines "dead \<equiv> (abs_store E (view (st_meta s)) s)(key \<mapsto> ([], tombstoneExpiry))"
    and "adm \<equiv> delete_admits (fst (casClassify (now_unix e 0) (row_of E (view (st_meta s)) key)))
                  (snd (casClassify (now_unix e 0) (row_of E (view (st_meta s)) key))) expected"
  shows "abs_store E (view (st_meta s')) s' \<in> {abs_store E (view (st_meta s)) s, dead}"
    "r = None \<Longrightarrow> abs_store E (view (st_meta s')) s' = dead \<and> adm
       \<and> row_of E (view (st_meta s')) key = Some (tombstone_vm (candidate (now_nano e 1) (lastVersion s)))"
    "r = Some err \<Longrightarrow> mismatch_error err \<Longrightarrow> abs_store E (view (st_meta s')) s' = abs_store E (view (st_meta s)) s \<and> \<not> adm
       \<and> err = NewVersionMismatchError ''DeleteIfVersion'' key (snd (casClassify (now_unix e 0) (row_of E (view (st_meta s)) key)))"
proof -
  let ?mk = "MakeMetadataKey key" and ?m = "view (st_meta s)" and ?abs = "abs_store E (view (st_meta s)) s"
  obtain g s1 where g: "readRowForCAS E ?mk s = (g, s1)" by fastforce
  note g_ok = readRowForCAS_ok [OF g]
  obtain state cur where cl: "casClassify (now_unix e 0) (row_of E ?m key) = (state, cur)" by fastforce
  note s1 = meta_only_fields(1,2,9) [OF g_ok(1)]
  define goal where "goal = (abs_store E (view (st_meta s')) s' \<in> {?abs, dead} \<and> (case r of
      None \<Rightarrow> abs_store E (view (st_meta s')) s' = dead \<and> adm
        \<and> row_of E (view (st_meta s')) key = Some (tombstone_vm (candidate (now_nano e 1) (lastVersion s)))
    | Some err \<Rightarrow> mismatch_error err \<longrightarrow> abs_store E (view (st_meta s')) s' = ?abs \<and> \<not> adm
        \<and> err = NewVersionMismatchError ''DeleteIfVersion'' key cur))"
  have unchanged: goal if u: "r = Some err" "st_disk s' = st_disk s" "st_segs s' = st_segs s"
    "\<And>k. view (st_meta s') (MakeMetadataKey k) = ?m (MakeMetadataKey k)"
    "mismatch_error err \<Longrightarrow> \<not> adm \<and> err = NewVersionMismatchError ''DeleteIfVersion'' key cur" for err
  proof -
    have "abs_store E (view (st_meta s')) s' = ?abs"
      unfolding abs_store_cong [OF u(2,3)] by (rule ext) (simp add: abs_store_def row_of_def u(4))
    then show ?thesis using u(1,5) by (simp add: goal_def)
  qed
  have goal
  proof (cases "\<exists>prev. g = Inr prev \<and> adm")
    case False
    then obtain err where "r = Some err" "s' = s1" "mismatch_error err \<longrightarrow> \<not> adm \<and> err = NewVersionMismatchError ''DeleteIfVersion'' key cur"
      using del g g_ok(3) cl by (cases g) (auto simp: DeleteIfVersion_def adm_def split: prod.splits if_splits)
    then show ?thesis using s1 g_ok(2) by (intro unchanged [of err]) auto
  next
    case True
    then obtain prev where prev: "g = Inr prev" and ad: "delete_admits state cur expected" using cl by (auto simp: adm_def)
    have rowv: "row_of E ?m key = prev" using g_ok(3) [OF prev] by simp
    obtain dead_e s2 where ev: "evictionEntryFor E key s1 = (dead_e, s2)" by fastforce
    obtain b s2' where b: "meta_get E (eviction_backref s1 key) s1 = (b, s2')" by fastforce
    note b_ok = meta_get_ok [OF b]
    have s2: "s2 = s2'" "dead_e = (case b of Inr (Some x) \<Rightarrow> if x = [] then None else Some x | _ \<Rightarrow> None)"
      using ev b by (auto simp: evictionEntryFor_def split: sum.splits option.splits)
    have inv1: "index_inv (view (st_meta s1))" using inv g_ok(2) by simp
    have dead_ok: "case dead_e of None \<Rightarrow> True | Some d \<Rightarrow> index_key d"
      using s2(2) backref_index_key [OF inv1, of s1 key] b_ok(3) by (auto split: option.splits sum.splits)
    obtain nv s3 where nv: "nextVersion E (now_nano e 1) s2 = (nv, s3)" by fastforce
    note nvf = nextVersion_frame [OF nv]
    have s3: "st_disk s3 = st_disk s" "st_segs s3 = st_segs s"
      using nvf(1,2) s2(1) meta_only_fields(1,2) [OF b_ok(1)] s1 by simp_all
    have rows3: "view (st_meta s3) k = ?m k" if "k \<noteq> VersionHWMKey" for k
      using nvf(10) [OF that] s2(1) b_ok(2) g_ok(2) by simp
    show ?thesis
    proof (cases nv)
      case (Inl err)
      then have "r = Some (NewInternalError ''DeleteIfVersion'' (ErrText err))" "s' = s3"
        using del g prev rowv cl ad ev nv by (simp_all add: DeleteIfVersion_def)
      then show ?thesis using s3 rows3 by (intro unchanged) auto
    next
      case stamp: (Inr v)
      have v: "v = candidate (now_nano e 1) (lastVersion s)"
        using nv stamp s2(1) meta_only_fields(9) [OF b_ok(1)] s1(3)
        by (auto simp: nextVersion_def Let_def split: prod.splits option.splits)
      let ?op = "vm0\<lparr>Version := v, OpType := META_OP_CAS_DELETE, CasExpectedVersion := expected\<rparr>"
      have rest: "(r, s') = (case marshal E (cas_translate state prev ?op) of
          None \<Rightarrow> (Some (NewInternalError ''DeleteIfVersion'' (ErrText ''marshal'')), s3)
        | Some ob \<Rightarrow> (case meta_write E [WMerge ?mk ob] s3 of
             (Some err, s4) \<Rightarrow> (Some (mapRocksDBError ''DeleteIfVersion'' key err), s4)
           | (None, s4) \<Rightarrow> delete_outcome E e key v prev dead_e s4))"
        using del g prev rowv cl ad ev nv stamp by (simp add: DeleteIfVersion_def)
      show ?thesis
      proof (cases "marshal E (cas_translate state prev ?op)")
        case None
        then show ?thesis using rest s3 rows3 by (intro unchanged) auto
      next
        case (Some ob)
        obtain wr s4 where w: "meta_write E [WMerge ?mk ob] s3 = (wr, s4)" by fastforce
        have s4: "st_disk s4 = st_disk s" "st_segs s4 = st_segs s"
          using meta_only_fields(1,2) [OF meta_write_ok(1) [OF w]] s3 by simp_all
        show ?thesis
        proof (cases wr)
          case err: (Some err)
          then show ?thesis
            using rest Some w s4 rows3 meta_write_ok(3) [OF w err] by (intro unchanged) auto
        next
          case None
          have base: "view (st_meta s3) ?mk = None \<or> row_of E (view (st_meta s3)) key \<noteq> None"
            using g_ok(3) [OF prev] rows3 [of ?mk] by (auto simp: row_of_def)
          note mr = merge_row [OF w [unfolded None] unmarshal_marshal [OF Some] base]
          have "cas_holds (load_row E (bytes_or_nil (view (st_meta s3) ?mk))) (cas_translate state prev ?op)"
          proof (cases prev)
            case None
            then have "?m ?mk = None" using g_ok(3) [OF prev] by auto
            then show ?thesis using rows3 [of ?mk] None ad cl rowv
              by (auto simp: load_row_def bytes_or_nil_def cas_holds_def cas_translate_def casClassify_def delete_admits_def)
          next
            case (Some vm)
            have "cas_holds (vm, True) (cas_translate state (Some vm) ?op)"
              by (rule delete_admitted [where now = "now_unix e 0"]) (use cl ad rowv Some in auto)
            moreover obtain x where x: "?m ?mk = Some x" "unmarshal E x = Some vm"
              using rowv by (auto simp: Some row_of_def bind_eq_Some_conv)
            then have "x \<noteq> []" "view (st_meta s3) ?mk = Some x" using row rows3 [of ?mk] by auto
            ultimately show ?thesis using x(2) Some by (simp add: load_row_def bytes_or_nil_def)
          qed
          then have "apply_op (load_row E (bytes_or_nil (view (st_meta s3) ?mk))) (cas_translate state prev ?op) = (tombstone_vm v, True)"
            using applied_delete by simp
          then have row4: "row_of E (view (st_meta s4)) key = Some (tombstone_vm v)" using mr(1) by simp
          have inv4: "index_inv (view (st_meta s4))"
          proof (rule meta_write_index [OF w])
            show "index_inv (view (st_meta s3))" using inv by (rule index_inv_cong) (rule rows3, auto)
          qed simp
          have out: "delete_outcome E e key v prev dead_e s4 = (r, s')" using rest Some w None by simp
          note d = delete_outcome_ok [OF out inv4 row4 _ dead_ok]
          have row': "row_of E (view (st_meta s')) key = Some (tombstone_vm v)"
            using d(3) row4 by (simp add: rows_kept_def row_of_def)
          have "abs_store E (view (st_meta s')) s' = dead"
          proof
            fix k show "abs_store E (view (st_meta s')) s' k = dead k"
            proof (cases "k = key")
              case True
              then show ?thesis using row' by (simp add: abs_store_def dead_def open_value_def)
            next
              case False
              have "view (st_meta s') (MakeMetadataKey k) = ?m (MakeMetadataKey k)"
                using d(3) mr(2) [OF False] rows3 [of "MakeMetadataKey k"] by (simp add: rows_kept_def)
              then show ?thesis
                using False d(1,2) s4 abs_store_cong [of s' s] by (simp add: abs_store_def [of E _ s] row_of_def dead_def)
            qed
          qed
          then show ?thesis
            using row' v d(4) ad cl by (cases r) (auto simp: goal_def adm_def)
        qed
      qed
    qed
  qed
  then show "abs_store E (view (st_meta s')) s' \<in> {?abs, dead}"
    "r = None \<Longrightarrow> abs_store E (view (st_meta s')) s' = dead \<and> adm
       \<and> row_of E (view (st_meta s')) key = Some (tombstone_vm (candidate (now_nano e 1) (lastVersion s)))"
    "r = Some err \<Longrightarrow> mismatch_error err \<Longrightarrow> abs_store E (view (st_meta s')) s' = ?abs \<and> \<not> adm
       \<and> err = NewVersionMismatchError ''DeleteIfVersion'' key (snd (casClassify (now_unix e 0) (row_of E ?m key)))"
    using cl by (auto simp: goal_def)
qed

end

end
