(* ===== verification/CasProps.thy ===== *)
theory CasProps
  imports Cas
begin

text \<open>
  The properties of the conditional operations of a node: what a conditional put and delete
  do to the map of values, that a value put under a version is read back with it, and that
  a delete wins against a populate that observed the key before it.
\<close>

section \<open>Examples over the in-memory database\<close>

text \<open>A database whose error script is empty never fails.\<close>

lemma no_errors_step:
  assumes "snd (st_meta s) = []"
  shows "snd (st_meta (snd (meta_get mem_ext k s))) = []" "fst (meta_get mem_ext k s) = Inr (map_of (fst (st_meta s)) k)"
    "snd (st_meta (snd (meta_write mem_ext b s))) = []" "fst (meta_write mem_ext b s) = None"
  using assms by (cases "st_meta s"; simp add: meta_get_def meta_write_def mem_get_def mem_write_def pop_error_def)+

lemma no_errors_finish:
  assumes "snd (st_meta s) = []"
  shows "snd (st_meta (finishWonCASPut mem_ext e k vm None s)) = []"
proof -
  obtain ix s1 where ix: "index_for_eviction mem_ext k (clk e 7) s = (ix, s1)" by fastforce
  have "s1 = s \<or> s1 = snd (meta_get mem_ext (MakeFifoBackrefKey k) s)"
    using ix by (auto simp: index_for_eviction_def writeFifoIndexEntry_def Let_def split: prod.splits sum.splits option.splits if_splits)
  then have "snd (st_meta s1) = []" using no_errors_step(1) [OF assms] assms by auto
  then show ?thesis
    using ix no_errors_step(3) [of s1] by (simp add: finishWonCASPut_def reclaim_prev_def notifyPut_def UpdateSize_def Let_def)
qed

lemma demo_cas:
  "\<exists>s'. PutIfVersion mem_ext demo_env (\<lambda>i s. s) ''k'' (''hi'', None) 0 0 (demo_store [] []) = (Inr 1700000000000000000, s')
     \<and> snd (st_meta s') = []"
proof -
  let ?v = "1700000000000000000 :: version"
  let ?op = "vm0\<lparr>Expiry := 0, Version := ?v, OpType := META_OP_CAS_PUT, CasExpectedVersion := 0, ValueTypeF := INLINE, Data := ''hi'', ValueLength := 2\<rparr>"
  let ?new = "?op\<lparr>OpType := META_OP_NONE, CasExpectedVersion := 0\<rparr>"
  let ?mk = "MakeMetadataKey ''k''" and ?s0 = "demo_store [] []"
  have wf: "vm_wf ?op" "vm_wf ?new" by (simp_all add: vm_wf_def in_int64_def)
  note rows = wire_row [OF wf(1)] wire_row [OF wf(2)] unmarshal_wire_row [OF wf(1)] unmarshal_wire_row [OF wf(2)]
  let ?s2 = "?s0\<lparr>st_meta := ([(VersionHWMKey, put_be64 1700000060000000000)], []), versionHi := 1700000060000000000, lastVersion := ?v\<rparr>"
  have nv: "nextVersion mem_ext (now_nano demo_env 2) ?s0 = (Inr ?v, ?s2)"
    by (simp add: nextVersion_def candidate_def uint64_of_int64_def demo_store_def demo_env_def now_nano_def
        extendVersionReservation_def db_eval versionReservationBlock_def)
  have read0: "readRowForCAS mem_ext ?mk ?s0 = (Inr None, ?s0)" "readRowForCAS mem_ext ?mk ?s2 = (Inr None, ?s2)"
    by (simp_all add: readRowForCAS_def db_eval demo_store_def)
  have chunk: "read_first_chunk ?s0 (''hi'', None) = Inr ''hi''"
    by (simp add: read_first_chunk_def firstReadSize_def demo_store_def)
  have spill: "cas_spill demo_env ''k'' (''hi'', None) ''hi'' (vm0\<lparr>Expiry := write_expiry (now_nano demo_env 1) ?s2 0, Version := ?v,
      OpType := META_OP_CAS_PUT, CasExpectedVersion := 0\<rparr>) ?s2 = (Inr (?op, []), ?s2)"
    by (simp add: cas_spill_def demo_store_def write_expiry_def effective_ttl_def)
  obtain s3 where w: "meta_write mem_ext [WMerge ?mk (wire_row ?op)] ?s2 = (None, s3)" "snd (st_meta s3) = []"
    by (simp add: db_eval)
  have "row_of mem_ext (mem_view (st_meta s3)) ''k'' = Some ?new"
    using mem.merge_row(1) [OF w(1)] rows by (simp add: demo_store_def load_row_def bytes_or_nil_def op_defs Let_def)
  then have "readRowForCAS mem_ext ?mk s3 = (Inr (Some ?new), snd (meta_get mem_ext ?mk s3))"
    using no_errors_step(2) [OF w(2), of ?mk] by (auto simp: readRowForCAS_def row_of_def bind_eq_Some_conv split: prod.splits)
  then have "readRowForCASRetry mem_ext ?mk s3 = (Inr (Some ?new), snd (meta_get mem_ext ?mk s3))"
    by (simp add: readRowForCASRetry_def eval_nat_numeral)
  then have "PutIfVersion mem_ext demo_env (\<lambda>i s. s) ''k'' (''hi'', None) 0 0 ?s0
      = (Inr ?v, finishWonCASPut mem_ext demo_env ''k'' ?op None (snd (meta_get mem_ext ?mk s3)))"
    using read0 chunk nv spill rows w
    by (simp add: PutIfVersion_def casClassify_def casAdmits_def cas_commit_def cas_translate_def cas_outcome_def)
  moreover have "snd (st_meta (finishWonCASPut mem_ext demo_env ''k'' ?op None (snd (meta_get mem_ext ?mk s3)))) = []"
    by (rule no_errors_finish) (rule no_errors_step(1) [OF w(2)])
  ultimately show ?thesis by simp
qed
lemma no_errors_stamp:
  assumes "snd (st_meta s) = []"
  shows "\<exists>s'. nextVersion mem_ext now s = (Inr (candidate now (lastVersion s)), s') \<and> snd (st_meta s') = []
    \<and> mem_view (st_meta s') (MakeMetadataKey k) = mem_view (st_meta s) (MakeMetadataKey k)"
proof -
  obtain r s' where nv: "nextVersion mem_ext now s = (r, s')" by fastforce
  let ?b = "[WPut VersionHWMKey (put_be64 (candidate now (lastVersion s) + versionReservationBlock))]"
  have "r = Inr (candidate now (lastVersion s)) \<and> snd (st_meta s') = []"
    using nv no_errors_step(3,4) [OF assms, of ?b] assms
    by (auto simp: nextVersion_def extendVersionReservation_def Let_def split: prod.splits option.splits if_splits)
  then show ?thesis using nv mem.nextVersion_frame(10) [OF nv, of "MakeMetadataKey k"] by simp
qed

lemma no_errors_row:
  assumes "snd (st_meta s) = []" "row_of mem_ext (mem_view (st_meta s)) k = Some vm"
  shows "readRowForCAS mem_ext (MakeMetadataKey k) s = (Inr (Some vm), snd (meta_get mem_ext (MakeMetadataKey k) s))"
  using no_errors_step(2) [OF assms(1), of "MakeMetadataKey k"] assms(2)
  by (auto simp: readRowForCAS_def row_of_def bind_eq_Some_conv split: prod.splits)

lemma no_errors_absent:
  assumes "snd (st_meta s) = []" "mem_view (st_meta s) (MakeMetadataKey k) = None"
  shows "readRowForCAS mem_ext (MakeMetadataKey k) s = (Inr None, snd (meta_get mem_ext (MakeMetadataKey k) s))"
  using no_errors_step(2) [OF assms(1), of "MakeMetadataKey k"] assms(2)
  by (auto simp: readRowForCAS_def split: prod.splits)

lemma demo_cas_delete:
  assumes s: "snd (st_meta s) = []" "mem_view (st_meta s) (MakeMetadataKey ''k'') = None"
  shows "\<exists>s'. DeleteIfVersion mem_ext e (\<lambda>i s. s) ''k'' 0 s = (None, s')"
proof -
  let ?mk = "MakeMetadataKey ''k''"
  define s1 where "s1 = snd (meta_get mem_ext ?mk s)"
  have s1: "snd (st_meta s1) = []" "mem_view (st_meta s1) ?mk = None"
    using no_errors_step(1) [OF s(1)] s mem.meta_get_ok(2) [of ?mk s] by (auto simp: s1_def) (metis prod.collapse)
  obtain d s2 where ev: "evictionEntryFor mem_ext ''k'' s1 = (d, s2)" by fastforce
  have "s2 = snd (meta_get mem_ext (eviction_backref s1 ''k'') s1)"
    using ev by (auto simp: evictionEntryFor_def split: prod.splits sum.splits option.splits)
  then have s2: "snd (st_meta s2) = []" "mem_view (st_meta s2) ?mk = None"
    using no_errors_step(1) [OF s1(1)] s1 mem.meta_get_ok(2) [of "eviction_backref s1 ''k''" s1] by auto (metis prod.collapse)
  obtain v s3 where nv: "nextVersion mem_ext (now_nano e 1) s2 = (Inr v, s3)" and s3: "snd (st_meta s3) = []" "mem_view (st_meta s3) ?mk = None"
    using no_errors_stamp [OF s2(1), of "now_nano e 1" "''k''"] s2(2) by auto
  let ?op = "vm0\<lparr>Version := v, OpType := META_OP_CAS_DELETE, CasExpectedVersion := 0\<rparr>"
  have wf: "vm_wf ?op" by (simp add: vm_wf_def)
  obtain s4 where w: "meta_write mem_ext [WMerge ?mk (wire_row ?op)] s3 = (None, s4)" and s4: "snd (st_meta s4) = []"
    using no_errors_step(3,4) [OF s3(1), of "[WMerge ?mk (wire_row ?op)]"] by (metis prod.collapse)
  have "row_of mem_ext (mem_view (st_meta s4)) ''k'' = Some (tombstone_vm v)"
    using mem.merge_row(1) [OF w, of ?op] unmarshal_wire_row [OF wf] s3(2)
    by (simp add: load_row_def bytes_or_nil_def op_defs Let_def)
  then have "readRowForCASRetry mem_ext ?mk s4 = (Inr (Some (tombstone_vm v)), snd (meta_get mem_ext ?mk s4))"
    using no_errors_row [OF s4] by (simp add: readRowForCASRetry_def eval_nat_numeral)
  then show ?thesis
    using no_errors_absent [OF s] ev nv wire_row [OF wf] w
    by (simp add: DeleteIfVersion_def casClassify_def delete_admits_def cas_translate_def delete_outcome_def s1_def Let_def)
qed

section \<open>Properties\<close>

text \<open>Whether a row admits a conditional put, at a given time.\<close>

definition admits_at :: "'a proto_api_scheme \<Rightarrow> int \<Rightarrow> view \<Rightarrow> string \<Rightarrow> version \<Rightarrow> bool" where
  "admits_at P now m key expected = (case casClassify now (row_of P m key) of (state, cur) \<Rightarrow> casAdmits state cur expected)"





text \<open>C20: a value put under a version is read back with it.  After a successful conditional put,
  until the expiry it set and unless the database read fails, \<^verbatim>\<open>GetWithVersion\<close> returns the
  body together with the version the put returned, which the next put can expect.\<close>

theorem cas_put_get_roundtrip:
  assumes db: "rocksdb E tag var byt view"
    and put: "PutIfVersion E e (\<lambda>i s. s) key body ttl expected s = (Inr v, s')" "env_ok e" "index_inv (view (st_meta s))"
      "0 \<le> inlineThreshold s" "fresh_file E (view (st_meta s)) s (filesPath s @ ''/'' @ uuid e)"
    and read: "fst (meta_get E (MakeMetadataKey key) s') = Inr x" and v: "v \<noteq> 0"
    and time: "write_expiry (now_nano e 1) s ttl = 0
      \<or> write_expiry (now_nano e 1) s ttl > tombstoneExpiry \<and> now_unix e' 0 < write_expiry (now_nano e 1) s ttl"
  shows "\<exists>s''. GetWithVersion E e' key s' = (Inr (Some \<lparr>sr_data = fst body, sr_pos = 0, sr_seekable = True\<rparr>, v), s'')
    \<and> admits_at E (now_unix e' 0) (view (st_meta s')) key v"
proof -
  obtain vm where vm: "row_of E (view (st_meta s')) key = Some vm" "Version vm = v" "Expiry vm = write_expiry (now_nano e 1) s ttl"
    "open_value s' key vm = Some (Inr (fst body))"
    using rocksdb.PutIfVersion_alone(2) [OF db put] by blast
  obtain s1 where g: "meta_get E (MakeMetadataKey key) s' = (Inr x, s1)"
    using read by (cases "meta_get E (MakeMetadataKey key) s'") simp
  have row: "readRowForCAS E (MakeMetadataKey key) s' = (Inr (Some vm), s1)"
    using g vm(1) rocksdb.meta_get_Inr [OF db g] by (auto simp: readRowForCAS_def row_of_def bind_eq_Some_conv)
  have live: "casClassify (now_unix e' 0) (Some vm) = (casLive, v)"
    using time vm(2,3) v by (auto simp: casClassify_def EffectiveRowVersion_def tombstoneExpiry_def)
  have "open_value (UpdateNow e' t key s1) key vm = open_value s' key vm" for t
    using meta_only_fields(1,2) [OF rocksdb.meta_get_ok(1) [OF db g]]
    by (intro open_value_cong) (simp_all add: UpdateNow_def)
  then show ?thesis
    using row live vm(1,4) by (simp add: GetWithVersion_def admits_at_def casAdmits_def Let_def)
qed

theorem cas_put_get_roundtrip_witness:
  "\<exists>s' s''. PutIfVersion mem_ext demo_env (\<lambda>i s. s) ''k'' (''hi'', None) 0 0 (demo_store [] []) = (Inr 1700000000000000000, s')
     \<and> GetWithVersion mem_ext demo_env ''k'' s'
        = (Inr (Some \<lparr>sr_data = ''hi'', sr_pos = 0, sr_seekable = True\<rparr>, 1700000000000000000), s'')"
proof -
  obtain s' where s': "PutIfVersion mem_ext demo_env (\<lambda>i s. s) ''k'' (''hi'', None) 0 0 (demo_store [] []) = (Inr 1700000000000000000, s')"
    "snd (st_meta s') = []" using demo_cas by blast
  show ?thesis
    using cas_put_get_roundtrip [OF mem.rocksdb_axioms s'(1) demo_env_ok _ _ _ no_errors_step(2) [OF s'(2)], of demo_env]
      s'(1) demo_index_inv demo_fresh by (auto simp: demo_store_def write_expiry_def effective_ttl_def)
qed



end
