(* ===== verification/MemoryCache.thy ===== *)
theory MemoryCache
  imports Cas "HOL-Library.AList"
begin

text \<open>
  The in-memory client (\<^verbatim>\<open>src/client/memory.go\<close>), a double that stands in for a cache server.
  Its map of entries is an association list, since Go's iteration order over a map is
  arbitrary and the listings sort what they collect; stamps and fences are maps.  Every
  reading of the clock is an argument, in nanoseconds, and so is the error of the
  caller's context.  The operations that take the lock once are functions of the state;
  \<^verbatim>\<open>Get\<close> and \<^verbatim>\<open>GetRange\<close>, which release it in between, take what other callers do there.
\<close>

section \<open>State\<close>

record cacheEntry =
  ce_value :: bytes
  expiresAt :: "int option"

record memory_cache =
  mc_data :: "(string \<times> cacheEntry) list"
  versions :: "string \<rightharpoonup> version"
  versionCounter :: version
  fences :: "string \<rightharpoonup> version"

datatype memory_error =
    CtxError goerr
  | ReaderError goerr
  | WriterError goerr
  | StatusNotFound string
  | StatusInvalidArgument string
  | MemoryMismatch string version

definition memoryLegacyVersion :: version where
  "memoryLegacyVersion = 1"

definition NewMemoryCache :: memory_cache where
  "NewMemoryCache = \<lparr>mc_data = [], versions = Map.empty, versionCounter = memoryLegacyVersion, fences = Map.empty\<rparr>"

text \<open>\<^verbatim>\<open>Before\<close> and \<^verbatim>\<open>After\<close> an expiry that may be the zero time.\<close>

definition unexpired :: "int \<Rightarrow> cacheEntry \<Rightarrow> bool" where
  "unexpired now entry = (case expiresAt entry of None \<Rightarrow> True | Some t \<Rightarrow> now < t)"

definition past_expiry :: "int \<Rightarrow> cacheEntry \<Rightarrow> bool" where
  "past_expiry now entry = (case expiresAt entry of None \<Rightarrow> False | Some t \<Rightarrow> t < now)"

definition liveLocked :: "int \<Rightarrow> memory_cache \<Rightarrow> string \<Rightarrow> bool" where
  "liveLocked now m key = (case map_of (mc_data m) key of None \<Rightarrow> False | Some entry \<Rightarrow> unexpired now entry)"

definition effectiveVersionLocked :: "int \<Rightarrow> memory_cache \<Rightarrow> string \<Rightarrow> version" where
  "effectiveVersionLocked now m key =
    (if \<not> liveLocked now m key then 0
     else case versions m key of Some v \<Rightarrow> if v \<noteq> 0 then v else memoryLegacyVersion | None \<Rightarrow> memoryLegacyVersion)"

definition dropLocked :: "string \<Rightarrow> memory_cache \<Rightarrow> memory_cache" where
  "dropLocked key m = m\<lparr>mc_data := AList.delete key (mc_data m), versions := (versions m)(key := None),
     fences := (fences m)(key := None)\<rparr>"

definition expireLocked :: "int \<Rightarrow> string \<Rightarrow> memory_cache \<Rightarrow> memory_cache" where
  "expireLocked now key m = (case map_of (mc_data m) key of None \<Rightarrow> m
     | Some entry \<Rightarrow> if unexpired now entry then m
         else m\<lparr>mc_data := AList.delete key (mc_data m), versions := (versions m)(key := None)\<rparr>)"

definition absenceTokenLocked :: "string \<Rightarrow> memory_cache \<Rightarrow> version \<times> memory_cache" where
  "absenceTokenLocked key m = (case fences m key of Some f \<Rightarrow> (f, m)
     | None \<Rightarrow> (versionCounter m + 1, m\<lparr>versionCounter := versionCounter m + 1\<rparr>))"

definition admitsLocked :: "int \<Rightarrow> int \<Rightarrow> memory_cache \<Rightarrow> string \<Rightarrow> version \<Rightarrow> bool \<times> version" where
  "admitsLocked t0 t1 m key expected =
    (if liveLocked t0 m key then (let cur = effectiveVersionLocked t1 m key in (cur = expected, cur))
     else case fences m key of Some f \<Rightarrow> (expected = 0 \<or> expected \<ge> f, f) | None \<Rightarrow> (True, 0))"

section \<open>Conditional operations\<close>

definition new_entry :: "int \<Rightarrow> bytes \<Rightarrow> int \<Rightarrow> cacheEntry" where
  "new_entry now data ttlSeconds = \<lparr>ce_value = data,
     expiresAt = (if ttlSeconds > 0 then Some (now + wrap_int64 (ttlSeconds * 1000000000)) else None)\<rparr>"

definition Memory_GetWithVersion :: "goerr option \<Rightarrow> int \<Rightarrow> int \<Rightarrow> string \<Rightarrow> memory_cache
    \<Rightarrow> (memory_error + bytes \<times> version \<times> bool) \<times> memory_cache" where
  "Memory_GetWithVersion cerr t0 t1 key m = (case cerr of Some err \<Rightarrow> (Inl (CtxError err), m)
   | None \<Rightarrow>
      if \<not> liveLocked t0 m key
      then (case absenceTokenLocked key m of (token, m') \<Rightarrow> (Inr ([], token, False), m'))
      else (Inr (ce_value (the (map_of (mc_data m) key)), effectiveVersionLocked t1 m key, True), m))"

definition Memory_PutIfVersion :: "goerr option \<Rightarrow> int \<Rightarrow> int \<Rightarrow> int \<Rightarrow> string \<Rightarrow> bytes \<Rightarrow> int \<Rightarrow> version \<Rightarrow> memory_cache
    \<Rightarrow> (memory_error + version) \<times> memory_cache" where
  "Memory_PutIfVersion cerr t0 t1 t2 key data ttlSeconds expected m = (case cerr of Some err \<Rightarrow> (Inl (CtxError err), m)
   | None \<Rightarrow>
      (case admitsLocked t0 t1 m key expected of (ok, cur) \<Rightarrow>
        if \<not> ok then (Inl (MemoryMismatch key cur), m)
        else let v = versionCounter m + 1 in
          (Inr v, m\<lparr>mc_data := AList.update key (new_entry t2 data ttlSeconds) (mc_data m),
                    versions := (versions m)(key \<mapsto> v), versionCounter := v, fences := (fences m)(key := None)\<rparr>)))"

text \<open>The version that refuses a delete, if one does.\<close>

definition delete_refusal :: "int \<Rightarrow> int \<Rightarrow> memory_cache \<Rightarrow> string \<Rightarrow> version \<Rightarrow> version option" where
  "delete_refusal t0 t1 m key expected =
    (if liveLocked t0 m key
     then (let cur = effectiveVersionLocked t1 m key in if cur \<noteq> expected then Some cur else None)
     else case fences m key of
         Some f \<Rightarrow> if \<not> (expected = 0 \<or> expected \<ge> f) then Some f else None
       | None \<Rightarrow> if expected \<noteq> 0 then Some 0 else None)"

definition Memory_DeleteIfVersion :: "goerr option \<Rightarrow> int \<Rightarrow> int \<Rightarrow> string \<Rightarrow> version \<Rightarrow> memory_cache
    \<Rightarrow> memory_error option \<times> memory_cache" where
  "Memory_DeleteIfVersion cerr t0 t1 key expected m = (case cerr of Some err \<Rightarrow> (Some (CtxError err), m)
   | None \<Rightarrow> (case delete_refusal t0 t1 m key expected of
         Some cur \<Rightarrow> (Some (MemoryMismatch key cur), m)
       | None \<Rightarrow> let v = versionCounter m + 1 in
          (None, m\<lparr>mc_data := AList.delete key (mc_data m), versions := (versions m)(key := None),
                   versionCounter := v, fences := (fences m)(key \<mapsto> v)\<rparr>)))"

definition Memory_PutStreamIfVersion :: "goerr option \<Rightarrow> goerr option \<Rightarrow> int \<Rightarrow> int \<Rightarrow> int \<Rightarrow> string \<Rightarrow> reader \<Rightarrow> int \<Rightarrow> version
    \<Rightarrow> memory_cache \<Rightarrow> (memory_error + version) \<times> memory_cache" where
  "Memory_PutStreamIfVersion cerr cerr' t0 t1 t2 key r ttlSeconds expected m = (case cerr of Some err \<Rightarrow> (Inl (CtxError err), m)
   | None \<Rightarrow> (case snd r of Some err \<Rightarrow> (Inl (ReaderError err), m)
       | None \<Rightarrow> Memory_PutIfVersion cerr' t0 t1 t2 key (fst r) ttlSeconds expected m))"

definition Memory_GetStreamWithVersion :: "goerr option \<Rightarrow> (bytes \<Rightarrow> goerr option) \<Rightarrow> int \<Rightarrow> int \<Rightarrow> string \<Rightarrow> memory_cache
    \<Rightarrow> (memory_error + version \<times> bool) \<times> memory_cache" where
  "Memory_GetStreamWithVersion cerr w t0 t1 key m = (case Memory_GetWithVersion cerr t0 t1 key m of
     (Inl err, m') \<Rightarrow> (Inl err, m')
   | (Inr (data, version, found), m') \<Rightarrow>
       if \<not> found then (Inr (version, found), m')
       else case w data of Some err \<Rightarrow> (Inl (WriterError err), m') | None \<Rightarrow> (Inr (version, True), m'))"

section \<open>Plain operations\<close>

definition Memory_Put :: "goerr option \<Rightarrow> int \<Rightarrow> string \<Rightarrow> bytes \<Rightarrow> int \<Rightarrow> memory_cache \<Rightarrow> memory_error option \<times> memory_cache" where
  "Memory_Put cerr now key data ttlSeconds m = (case cerr of Some err \<Rightarrow> (Some (CtxError err), m)
   | None \<Rightarrow> (None, m\<lparr>mc_data := AList.update key (new_entry now data ttlSeconds) (mc_data m),
       versions := (versions m)(key := None), fences := (fences m)(key := None)\<rparr>))"

definition Memory_PutStream :: "goerr option \<Rightarrow> goerr option \<Rightarrow> int \<Rightarrow> string \<Rightarrow> reader \<Rightarrow> int \<Rightarrow> memory_cache
    \<Rightarrow> memory_error option \<times> memory_cache" where
  "Memory_PutStream cerr cerr' now key r ttlSeconds m = (case cerr of Some err \<Rightarrow> (Some (CtxError err), m)
   | None \<Rightarrow> (case snd r of Some err \<Rightarrow> (Some (ReaderError err), m)
       | None \<Rightarrow> Memory_Put cerr' now key (fst r) ttlSeconds m))"

text \<open>The lookup that \<^verbatim>\<open>Get\<close> and \<^verbatim>\<open>GetRange\<close> begin with.\<close>

definition lookup_entry :: "goerr option \<Rightarrow> int \<Rightarrow> int \<Rightarrow> (memory_cache \<Rightarrow> memory_cache) \<Rightarrow> string \<Rightarrow> memory_cache
    \<Rightarrow> (memory_error + cacheEntry) \<times> memory_cache" where
  "lookup_entry cerr t0 t1 oth key m = (case cerr of Some err \<Rightarrow> (Inl (CtxError err), m)
   | None \<Rightarrow> (case map_of (mc_data m) key of None \<Rightarrow> (Inl (StatusNotFound ''key not found''), m)
       | Some entry \<Rightarrow> if past_expiry t0 entry
           then (Inl (StatusNotFound ''key not found''), expireLocked t1 key (oth m)) else (Inr entry, m)))"

definition Memory_Get :: "goerr option \<Rightarrow> int \<Rightarrow> int \<Rightarrow> (memory_cache \<Rightarrow> memory_cache) \<Rightarrow> string \<Rightarrow> memory_cache
    \<Rightarrow> (memory_error + bytes) \<times> memory_cache" where
  "Memory_Get cerr t0 t1 oth key m = (case lookup_entry cerr t0 t1 oth key m of
     (Inl err, m') \<Rightarrow> (Inl err, m') | (Inr entry, m') \<Rightarrow> (Inr (ce_value entry), m'))"

definition Memory_GetStream :: "goerr option \<Rightarrow> (bytes \<Rightarrow> goerr option) \<Rightarrow> int \<Rightarrow> int \<Rightarrow> (memory_cache \<Rightarrow> memory_cache) \<Rightarrow> string
    \<Rightarrow> memory_cache \<Rightarrow> memory_error option \<times> memory_cache" where
  "Memory_GetStream cerr w t0 t1 oth key m = (case Memory_Get cerr t0 t1 oth key m of
     (Inl err, m') \<Rightarrow> (Some err, m') | (Inr data, m') \<Rightarrow> (map_option WriterError (w data), m'))"

definition range_end :: "int \<Rightarrow> int \<Rightarrow> int" where
  "range_end dataLen end = (if end \<le> 0 then dataLen - 1 else if end \<ge> dataLen then dataLen - 1 else end)"

definition Memory_GetRange :: "goerr option \<Rightarrow> int \<Rightarrow> int \<Rightarrow> (memory_cache \<Rightarrow> memory_cache) \<Rightarrow> string \<Rightarrow> int \<Rightarrow> int \<Rightarrow> memory_cache
    \<Rightarrow> (memory_error + bytes) \<times> memory_cache" where
  "Memory_GetRange cerr t0 t1 oth key start end m = (case lookup_entry cerr t0 t1 oth key m of
     (Inl err, m') \<Rightarrow> (Inl err, m')
   | (Inr entry, m') \<Rightarrow>
      let dataLen = int (length (ce_value entry)); start = max start 0; end = range_end dataLen end in
      if start \<ge> dataLen \<or> start > end then (Inl (StatusInvalidArgument ''invalid range''), m')
      else (Inr (take (nat (end - start + 1)) (drop (nat start) (ce_value entry))), m'))"

definition Memory_GetRangeStream :: "goerr option \<Rightarrow> (bytes \<Rightarrow> goerr option) \<Rightarrow> int \<Rightarrow> int \<Rightarrow> (memory_cache \<Rightarrow> memory_cache) \<Rightarrow> string
    \<Rightarrow> int \<Rightarrow> int \<Rightarrow> memory_cache \<Rightarrow> memory_error option \<times> memory_cache" where
  "Memory_GetRangeStream cerr w t0 t1 oth key start end m = (case Memory_GetRange cerr t0 t1 oth key start end m of
     (Inl err, m') \<Rightarrow> (Some err, m') | (Inr data, m') \<Rightarrow> (map_option WriterError (w data), m'))"

definition Memory_Delete :: "goerr option \<Rightarrow> string \<Rightarrow> memory_cache \<Rightarrow> memory_error option \<times> memory_cache" where
  "Memory_Delete cerr key m = (case cerr of Some err \<Rightarrow> (Some (CtxError err), m)
   | None \<Rightarrow> (case map_of (mc_data m) key of None \<Rightarrow> (Some (StatusNotFound ''key not found''), m)
       | Some _ \<Rightarrow> (None, dropLocked key m)))"

definition Memory_Close :: "memory_cache \<Rightarrow> memory_cache" where
  "Memory_Close m = m\<lparr>mc_data := [], versions := Map.empty, fences := Map.empty\<rparr>"

section \<open>Listings\<close>

definition listed_keys :: "int \<Rightarrow> string \<Rightarrow> memory_cache \<Rightarrow> string list" where
  "listed_keys now pre m =
    sort (map fst (filter (\<lambda>(key, entry). \<not> past_expiry now entry \<and> (pre = [] \<or> prefix pre key)) (mc_data m)))"

definition Memory_List :: "goerr option \<Rightarrow> int \<Rightarrow> string \<Rightarrow> memory_cache \<Rightarrow> memory_error + string list" where
  "Memory_List cerr now pre m = (case cerr of Some err \<Rightarrow> Inl (CtxError err) | None \<Rightarrow> Inr (listed_keys now pre m))"

definition page_limit :: "int \<Rightarrow> int" where
  "page_limit limit = (let limit = (if limit \<le> 0 then 1000 else limit) in if limit > 1000 then 1000 else limit)"

text \<open>The position of the first key after the token, 0 if there is none.\<close>

fun first_after :: "string \<Rightarrow> nat \<Rightarrow> string list \<Rightarrow> nat" where
  "first_after token i [] = 0"
| "first_after token i (k # ks) = (if k > token then i else first_after token (Suc i) ks)"

definition page_of :: "string list \<Rightarrow> int \<Rightarrow> string \<Rightarrow> string list \<times> string \<times> bool" where
  "page_of allKeys limit token =
    (let limit = nat (page_limit limit);
         startIdx = (if token \<noteq> [] then first_after token 0 allKeys else 0)
     in if token \<noteq> [] \<and> startIdx = 0 \<and> allKeys \<noteq> [] \<and> token \<ge> last allKeys then ([], [], False)
        else let endIdx = min (startIdx + limit) (length allKeys);
                 keys = take (endIdx - startIdx) (drop startIdx allKeys);
                 hasMore = (endIdx < length allKeys)
             in (keys, if hasMore \<and> keys \<noteq> [] then last keys else [], hasMore))"

definition Memory_ListPage :: "goerr option \<Rightarrow> goerr option \<Rightarrow> int \<Rightarrow> string \<Rightarrow> int \<Rightarrow> string \<Rightarrow> memory_cache
    \<Rightarrow> memory_error + string list \<times> string \<times> bool" where
  "Memory_ListPage cerr cerr' now pre limit token m = (case cerr of Some err \<Rightarrow> Inl (CtxError err)
   | None \<Rightarrow> (case Memory_List cerr' now pre m of Inl err \<Rightarrow> Inl err | Inr allKeys \<Rightarrow> Inr (page_of allKeys limit token)))"

definition Memory_ListPageWithValues :: "goerr option \<Rightarrow> int \<Rightarrow> string \<Rightarrow> int \<Rightarrow> string \<Rightarrow> memory_cache
    \<Rightarrow> memory_error + (string \<times> bytes) list \<times> string \<times> bool" where
  "Memory_ListPageWithValues cerr now pre limit token m = (case cerr of Some err \<Rightarrow> Inl (CtxError err)
   | None \<Rightarrow> (case page_of (listed_keys now pre m) limit token of (keys, nextToken, hasMore) \<Rightarrow>
       Inr (map (\<lambda>key. (key, ce_value (the (map_of (mc_data m) key)))) keys, nextToken, hasMore)))"

section \<open>Stamps\<close>

text \<open>The stamp a key carries: of its value or of the delete that fences it.\<close>

definition stamp_of :: "memory_cache \<Rightarrow> string \<rightharpoonup> version" where
  "stamp_of m = fences m ++ versions m"

definition stamps_ok :: "version \<Rightarrow> (string \<rightharpoonup> version) \<Rightarrow> bool" where
  "stamps_ok c f \<longleftrightarrow> 1 \<le> c \<and> inj_on f (dom f) \<and> (\<forall>v \<in> ran f. 1 < v \<and> v \<le> c)"

text \<open>The invariant: no key is stored twice, a stamped key has an entry, a fenced key has
  none, and no two keys share a stamp.\<close>

definition mc_inv :: "memory_cache \<Rightarrow> bool" where
  "mc_inv m \<longleftrightarrow> distinct (map fst (mc_data m))
     \<and> (\<forall>k v. versions m k = Some v \<longrightarrow> map_of (mc_data m) k \<noteq> None)
     \<and> (\<forall>k v. fences m k = Some v \<longrightarrow> map_of (mc_data m) k = None) \<and> stamps_ok (versionCounter m) (stamp_of m)"

lemma stamps_ok_sub:
  assumes "stamps_ok c f" "g \<subseteq>\<^sub>m f"
  shows "stamps_ok c g"
  unfolding stamps_ok_def
proof (intro conjI)
  have g: "g k = Some v \<Longrightarrow> f k = Some v" for k v using assms(2) by (auto simp: map_le_def dom_def)
  then show "inj_on g (dom g)" using assms(1) by (auto simp: stamps_ok_def inj_on_def dom_def)
  show "\<forall>v\<in>ran g. 1 < v \<and> v \<le> c" using assms(1) g by (auto simp: stamps_ok_def ran_def)
qed (use assms(1) in \<open>simp add: stamps_ok_def\<close>)

lemma stamps_ok_new:
  assumes "stamps_ok c f" "unat c + 1 < 2 ^ 64"
  shows "stamps_ok (c + 1) (f(key \<mapsto> c + 1))" "stamps_ok (c + 1) f"
proof -
  have c: "c < c + 1" using assms(2) by (simp add: word_less_nat_alt unat_plus_if')
  have old: "1 < v \<and> v < c + 1" if "f k = Some v" for k v
    using assms(1) that c by (auto simp: stamps_ok_def ran_def)
  show "stamps_ok (c + 1) f"
    using assms(1) c old by (auto simp: stamps_ok_def ran_def dest: less_imp_le)
  show "stamps_ok (c + 1) (f(key \<mapsto> c + 1))"
    unfolding stamps_ok_def
  proof (intro conjI)
    show "inj_on (f(key \<mapsto> c + 1)) (dom (f(key \<mapsto> c + 1)))"
      using assms(1) old [of _ "c + 1"] by (auto simp: stamps_ok_def inj_on_def dom_def split: if_splits)
    show "\<forall>v\<in>ran (f(key \<mapsto> c + 1)). 1 < v \<and> v \<le> c + 1"
      using assms(1) c old by (auto simp: stamps_ok_def ran_def dest: less_imp_le)
  qed (use assms(1) c in \<open>auto simp: stamps_ok_def\<close>)
qed

text \<open>The sections that hold the lock, one step each.\<close>

inductive mc_step :: "memory_cache \<Rightarrow> memory_cache \<Rightarrow> bool" where
  GetWithVersion: "mc_step m (snd (Memory_GetWithVersion cerr t0 t1 key m))"
| PutIfVersion: "mc_step m (snd (Memory_PutIfVersion cerr t0 t1 t2 key data ttl expected m))"
| DeleteIfVersion: "mc_step m (snd (Memory_DeleteIfVersion cerr t0 t1 key expected m))"
| Put: "mc_step m (snd (Memory_Put cerr now key data ttl m))"
| Expire: "mc_step m (expireLocked now key m)"
| Delete: "mc_step m (snd (Memory_Delete cerr key m))"
| Close: "mc_step m (Memory_Close m)"

inductive mc_run :: "nat \<Rightarrow> memory_cache \<Rightarrow> bool" where
  start: "mc_run 0 NewMemoryCache"
| step: "mc_run n m \<Longrightarrow> mc_step m m' \<Longrightarrow> mc_run (Suc n) m'"

lemma mc_invD:
  assumes "mc_inv m"
  shows "distinct (map fst (mc_data m))" "versions m k = Some v \<Longrightarrow> map_of (mc_data m) k \<noteq> None"
    "fences m k = Some v \<Longrightarrow> map_of (mc_data m) k = None" "stamps_ok (versionCounter m) (stamp_of m)"
  using assms unfolding mc_inv_def by blast+

lemma mc_invI:
  assumes "distinct (map fst (mc_data m))" "\<And>k v. versions m k = Some v \<Longrightarrow> map_of (mc_data m) k \<noteq> None"
    "\<And>k v. fences m k = Some v \<Longrightarrow> map_of (mc_data m) k = None" "stamps_ok (versionCounter m) (stamp_of m)"
  shows "mc_inv m"
  using assms unfolding mc_inv_def by blast

lemma stamp_of_le:
  assumes "\<And>k v. versions m' k = Some v \<Longrightarrow> versions m k = Some v"
    "\<And>k v. fences m' k = Some v \<Longrightarrow> versions m' k = None \<Longrightarrow> fences m k = Some v \<and> versions m k = None"
  shows "stamp_of m' \<subseteq>\<^sub>m stamp_of m"
  using assms by (auto simp: stamp_of_def map_le_def map_add_def split: option.splits)

lemma mc_inv_start: "mc_inv NewMemoryCache"
  by (rule mc_invI) (simp_all add: NewMemoryCache_def memoryLegacyVersion_def stamp_of_def stamps_ok_def)

lemma mc_inv_remove:
  assumes inv: "mc_inv m"
  shows "mc_inv (dropLocked key m)" "mc_inv (expireLocked now key m)" "mc_inv (Memory_Close m)"
proof -
  note D = mc_invD [OF inv]
  have F: "versions m k = None" if "fences m k = Some v" for k v
    using D(3) [OF that] D(2) [of k] by (cases "versions m k") auto
  show drop: "mc_inv (dropLocked key m)"
    by (rule mc_invI, goal_cases) (use D F in \<open>auto simp: dropLocked_def delete_conv' distinct_delete
      intro: stamps_ok_sub [OF D(4) stamp_of_le] split: if_splits\<close>)
  have "fences m key = None" if "map_of (mc_data m) key = Some e" for e
    using D(3) [of key] that by (cases "fences m key") auto
  then have "expireLocked now key m = m \<or> expireLocked now key m = dropLocked key m"
    by (auto simp: expireLocked_def dropLocked_def fun_upd_idem split: option.splits)
  then show "mc_inv (expireLocked now key m)" using inv drop by auto
  show "mc_inv (Memory_Close m)"
    by (rule mc_invI) (use D(4) in \<open>auto simp: Memory_Close_def stamp_of_def stamps_ok_def\<close>)
qed

lemma mc_inv_write:
  assumes inv: "mc_inv m" and c: "unat (versionCounter m) + 1 < 2 ^ 64"
  shows "mc_inv (snd (Memory_Put cerr now key data ttl m))"
    "mc_inv (snd (Memory_PutIfVersion cerr t0 t1 t2 key data ttl expected m))"
    "mc_inv (snd (Memory_DeleteIfVersion cerr t0 t1 key expected m))"
    "mc_inv (snd (Memory_GetWithVersion cerr t0 t1 key m))"
proof -
  note D = mc_invD [OF inv]
  have F: "versions m k = None" if "fences m k = Some v" for k v
    using D(3) [OF that] D(2) [of k] by (cases "versions m k") auto
  note new = stamps_ok_new [OF D(4) c]
  let ?v = "versionCounter m + 1"
  show "mc_inv (snd (Memory_Put cerr now key data ttl m))"
    using inv by (cases cerr, simp_all add: Memory_Put_def, intro mc_invI)
      (use D F in \<open>auto simp: update_conv' distinct_update intro: stamps_ok_sub [OF D(4) stamp_of_le] split: if_splits\<close>)
  let ?p = "m\<lparr>mc_data := AList.update key (new_entry t2 data ttl) (mc_data m),
     versions := (versions m)(key \<mapsto> ?v), versionCounter := ?v, fences := (fences m)(key := None)\<rparr>"
  have "stamp_of ?p \<subseteq>\<^sub>m (stamp_of m)(key \<mapsto> ?v)"
    by (auto simp: stamp_of_def map_le_def map_add_def split: option.splits if_splits)
  then have "mc_inv ?p"
    by (intro mc_invI) (use D F in \<open>auto simp: update_conv' distinct_update intro: stamps_ok_sub [OF new(1)] split: if_splits\<close>)
  then show "mc_inv (snd (Memory_PutIfVersion cerr t0 t1 t2 key data ttl expected m))"
    using inv by (simp add: Memory_PutIfVersion_def Let_def split: option.split prod.split)
  let ?d = "m\<lparr>mc_data := AList.delete key (mc_data m), versions := (versions m)(key := None),
     versionCounter := ?v, fences := (fences m)(key \<mapsto> ?v)\<rparr>"
  have "stamp_of ?d \<subseteq>\<^sub>m (stamp_of m)(key \<mapsto> ?v)"
    by (auto simp: stamp_of_def map_le_def map_add_def split: option.splits if_splits)
  then have "mc_inv ?d"
    by (intro mc_invI) (use D F in \<open>auto simp: delete_conv' distinct_delete intro: stamps_ok_sub [OF new(1)] split: if_splits\<close>)
  moreover have "snd (Memory_DeleteIfVersion cerr t0 t1 key expected m) \<in> {m, ?d}"
    unfolding Memory_DeleteIfVersion_def Let_def by (auto split: option.splits simp del: memory_cache.simps)
  ultimately show "mc_inv (snd (Memory_DeleteIfVersion cerr t0 t1 key expected m))" using inv by auto
  have "mc_inv (m\<lparr>versionCounter := ?v\<rparr>)"
    by (rule mc_invI) (use D new(2) in \<open>auto simp: stamp_of_def\<close>)
  then show "mc_inv (snd (Memory_GetWithVersion cerr t0 t1 key m))"
    using inv by (simp add: Memory_GetWithVersion_def absenceTokenLocked_def split: option.split)
qed

lemma mc_step_ok:
  assumes "mc_step m m'" "mc_inv m" "unat (versionCounter m) + 1 < 2 ^ 64"
  shows "mc_inv m'" "unat (versionCounter m') \<le> unat (versionCounter m) + 1" "versionCounter m \<le> versionCounter m'"
proof -
  show "mc_inv m'"
    using assms by (cases rule: mc_step.cases)
      (auto simp: mc_inv_write mc_inv_remove, simp add: Memory_Delete_def mc_inv_remove split: option.split)
  have "versionCounter m' \<in> {versionCounter m, versionCounter m + 1}"
    using assms(1) by (cases rule: mc_step.cases)
      (auto simp: Memory_GetWithVersion_def Memory_PutIfVersion_def Memory_DeleteIfVersion_def Memory_Put_def Memory_Delete_def
        Memory_Close_def expireLocked_def dropLocked_def absenceTokenLocked_def Let_def split: option.split prod.split)
  moreover have "unat (versionCounter m + 1) = unat (versionCounter m) + 1"
    using assms(3) by (simp add: unat_plus_if')
  ultimately show "unat (versionCounter m') \<le> unat (versionCounter m) + 1" "versionCounter m \<le> versionCounter m'"
    by (auto simp: word_le_nat_alt)
qed

lemma mc_run_ok:
  assumes "mc_run n m" "n < 2 ^ 64 - 2"
  shows "mc_inv m \<and> unat (versionCounter m) \<le> n + 1"
  using assms
proof (induction rule: mc_run.induct)
  case start
  then show ?case using mc_inv_start by (simp add: NewMemoryCache_def memoryLegacyVersion_def)
next
  case (step n m m')
  then show ?case using mc_step_ok(1,2) [of m m'] by simp
qed

section \<open>Pages\<close>

text \<open>A caller that follows the continuation tokens until no page is left.\<close>

fun follow_pages :: "nat \<Rightarrow> int \<Rightarrow> string \<Rightarrow> int \<Rightarrow> string \<Rightarrow> memory_cache \<Rightarrow> string list option" where
  "follow_pages 0 now pre limit token m = None"
| "follow_pages (Suc n) now pre limit token m = (case Memory_ListPage None None now pre limit token m of
     Inl err \<Rightarrow> None
   | Inr (keys, nextToken, hasMore) \<Rightarrow>
       if hasMore then map_option (append keys) (follow_pages n now pre limit nextToken m) else Some keys)"

lemma first_after_pos:
  assumes "sorted ks" "\<exists>k \<in> set ks. token < k"
  shows "drop (first_after token i ks - i) ks = filter ((<) token) ks \<and> i \<le> first_after token i ks
    \<and> first_after token i ks - i = length ks - length (filter ((<) token) ks)"
  using assms
proof (induction ks arbitrary: i)
  case (Cons k ks)
  show ?case
  proof (cases "token < k")
    case True
    then have "filter ((<) token) (k # ks) = k # ks" using Cons.prems(1) by (auto simp: filter_id_conv)
    then show ?thesis using True by simp
  next
    case False
    then show ?thesis using Cons.IH [of "Suc i"] Cons.prems
      by (auto simp: Suc_diff_le Suc_diff_Suc [symmetric] Suc_le_eq drop_Cons' split: if_splits)
  qed
qed simp

lemma first_after_none: "\<forall>k \<in> set ks. \<not> token < k \<Longrightarrow> first_after token i ks = 0"
  by (induction ks arbitrary: i) auto

lemma page_of_rest:
  assumes ks: "sorted ks" "[] \<notin> set ks"
    and rest: "rest = filter ((<) token) ks" and n: "n = nat (page_limit limit)"
  shows "page_of ks limit token
    = (take n rest, if n < length rest then last (take n rest) else [], n < length rest)"
proof -
  have pos: "0 < n" by (simp add: n page_limit_def Let_def)
  obtain i where i: "i = (if token \<noteq> [] then first_after token 0 ks else 0)" by simp
  show ?thesis
  proof (cases "\<exists>k \<in> set ks. token < k")
    case True
    have "[] < k" if "k \<in> set ks" for k using ks(2) that by (cases k) auto
    then have "drop i ks = rest \<and> i = length ks - length rest"
      using first_after_pos [OF ks(1) True, of 0] by (cases "token = []") (auto simp: i rest filter_id_conv)
    moreover have "length rest \<le> length ks" "rest \<noteq> []" using True by (auto simp: rest filter_empty_conv)
    moreover have "token < last ks"
      using True sorted_last [OF ks(1)] by (auto intro: less_le_trans)
    ultimately show ?thesis
      using pos i by (simp add: page_of_def Let_def n [symmetric] min_def not_less [symmetric]) (auto simp: take_all)
  next
    case False
    then have "rest = []" "first_after token 0 ks = 0" by (auto simp: rest first_after_none)
    moreover have "token \<noteq> [] \<and> token \<ge> last ks" if "ks \<noteq> []"
      using False ks(2) that last_in_set [OF that] by (cases "last ks") (auto simp: not_less)
    ultimately show ?thesis by (cases "ks = []") (simp_all add: page_of_def Let_def)
  qed
qed

lemma listed_keys_ok:
  "sorted (listed_keys now pre m)" "distinct (map fst (mc_data m)) \<Longrightarrow> distinct (listed_keys now pre m)"
  "distinct (map fst (mc_data m)) \<Longrightarrow> set (listed_keys now pre m)
     = {k. \<exists>e. map_of (mc_data m) k = Some e \<and> \<not> past_expiry now e \<and> prefix pre k}"
  by (auto simp: listed_keys_def distinct_map inj_on_def intro: image_eqI rev_image_eqI)

lemma follow_pages_rest:
  assumes "[] \<notin> set (listed_keys now pre m)" "distinct (map fst (mc_data m))"
    "length (filter ((<) token) (listed_keys now pre m)) < fuel"
  shows "follow_pages fuel now pre limit token m = Some (filter ((<) token) (listed_keys now pre m))"
  using assms(3)
proof (induction fuel arbitrary: token)
  case (Suc fuel)
  let ?ks = "listed_keys now pre m" and ?n = "nat (page_limit limit)"
  obtain rest where rest: "rest = filter ((<) token) ?ks" by simp
  note page = page_of_rest [OF listed_keys_ok(1) assms(1) rest refl, of limit]
  show ?case
  proof (cases "?n < length rest")
    case True
    obtain l where l: "l = last (take ?n rest)" by simp
    have n: "0 < ?n" by (simp add: page_limit_def Let_def)
    have srt: "sorted rest" "distinct rest" using listed_keys_ok(1) [of now pre m] listed_keys_ok(2) [OF assms(2), of now pre] by (simp_all add: rest sorted_wrt_filter)
    have "l \<in> set (take ?n rest)" using n True by (auto simp: l intro!: last_in_set)
    then have "token < l" by (auto simp: rest dest: in_set_takeD)
    have "filter ((<) l) ?ks = filter ((<) l) rest"
      using \<open>token < l\<close> by (auto simp: rest intro!: filter_cong)
    also have "\<dots> = drop ?n rest" unfolding l by (rule filter_after_take) (use srt n True in simp_all)
    finally have "filter ((<) l) ?ks = drop ?n rest" .
    then show ?thesis using Suc.IH [of l] Suc.prems True page n
      by (simp add: Memory_ListPage_def Memory_List_def l [symmetric] rest [symmetric])
  next
    case False
    then show ?thesis using page by (simp add: Memory_ListPage_def Memory_List_def rest [symmetric])
  qed
qed simp

section \<open>Properties\<close>

text \<open>The state of a key, in the terms of the node's conditional operations.\<close>

definition key_state :: "int \<Rightarrow> memory_cache \<Rightarrow> string \<Rightarrow> casRowState \<times> version" where
  "key_state now m key =
    (if liveLocked now m key then (casLive, effectiveVersionLocked now m key)
     else case fences m key of Some f \<Rightarrow> (casFenced, f) | None \<Rightarrow> (casAbsent, 0))"

lemma key_state_put:
  assumes "v \<noteq> 0" "ttl \<le> 0 \<or> 0 < wrap_int64 (ttl * 1000000000)"
  shows "key_state t (m\<lparr>mc_data := AList.update key (new_entry t data ttl) (mc_data m), versions := (versions m)(key \<mapsto> v),
      versionCounter := c, fences := (fences m)(key := None)\<rparr>) = (key_state t m)(key := (casLive, v))"
  using assms by (auto simp: fun_eq_iff key_state_def liveLocked_def effectiveVersionLocked_def update_conv' new_entry_def unexpired_def)

lemma key_state_delete:
  "key_state t (m\<lparr>mc_data := AList.delete key (mc_data m), versions := (versions m)(key := None),
      versionCounter := c, fences := (fences m)(key \<mapsto> v)\<rparr>) = (key_state t m)(key := (casFenced, v))"
  by (auto simp: fun_eq_iff key_state_def liveLocked_def effectiveVersionLocked_def delete_conv')

lemma admits_state: "key_state t m key = (st, cur) \<Longrightarrow> admitsLocked t t m key expected = (casAdmits st cur expected, cur)"
  by (auto simp: key_state_def admitsLocked_def casAdmits_def Let_def split: if_splits option.splits)

lemma delete_refusal_state: "key_state t m key = (st, cur)
    \<Longrightarrow> delete_refusal t t m key expected = (if delete_admits st cur expected then None else Some cur)"
  by (auto simp: key_state_def delete_refusal_def delete_admits_def casAdmits_def Let_def split: if_splits option.splits)

text \<open>C26: the in-memory client decides conditional operations as a node does.  When the clock
  reads the same throughout an operation, a put is admitted exactly if the node's
  \<^verbatim>\<open>casAdmits\<close> admits the key's state, a delete exactly if the node's rule for deletes
  does; a refusal reports the key's version and changes nothing; success changes the
  state of that key only, to live or fenced under a stamp above every stamp in use.\<close>

theorem memory_matches_node:
  assumes inv: "mc_inv m" and c: "unat (versionCounter m) + 1 < 2 ^ 64" and st: "key_state t m key = (st, cur)"
    and ttl: "ttl \<le> 0 \<or> 0 < wrap_int64 (ttl * 1000000000)"
  defines "v \<equiv> versionCounter m + 1"
  shows "(case Memory_PutIfVersion None t t t key data ttl expected m of
      (Inr w, m') \<Rightarrow> casAdmits st cur expected \<and> w = v \<and> (\<forall>x \<in> ran (stamp_of m). x < v)
        \<and> key_state t m' = (key_state t m)(key := (casLive, v))
    | (Inl err, m') \<Rightarrow> \<not> casAdmits st cur expected \<and> err = MemoryMismatch key cur \<and> m' = m)
  \<and> (case Memory_DeleteIfVersion None t t key expected m of
      (None, m') \<Rightarrow> delete_admits st cur expected \<and> (\<forall>x \<in> ran (stamp_of m). x < v)
        \<and> key_state t m' = (key_state t m)(key := (casFenced, v))
    | (Some err, m') \<Rightarrow> \<not> delete_admits st cur expected \<and> err = MemoryMismatch key cur \<and> m' = m)"
proof -
  have lt: "versionCounter m < v" using c by (simp add: v_def word_less_nat_alt unat_plus_if')
  then have v: "v \<noteq> 0" by auto
  have above: "\<forall>x \<in> ran (stamp_of m). x < v"
    using mc_invD(4) [OF inv] lt by (auto simp: stamps_ok_def intro: le_less_trans)
  show ?thesis (is "?put \<and> ?del")
  proof
    show ?put
      using key_state_put [OF v ttl] above admits_state [OF st] by (simp add: Memory_PutIfVersion_def v_def Let_def)
    show ?del
      using key_state_delete above delete_refusal_state [OF st] by (simp add: Memory_DeleteIfVersion_def v_def Let_def)
  qed
qed

theorem memory_matches_node_witness:
  "case Memory_PutIfVersion None 5 5 5 ''k'' ''v'' 10 0 NewMemoryCache of
     (Inr w, m') \<Rightarrow> w = 2 \<and> key_state 5 m' ''k'' = (casLive, 2) | (Inl err, m') \<Rightarrow> False"
proof -
  have st: "key_state 5 NewMemoryCache ''k'' = (casAbsent, 0)"
    by (simp add: key_state_def liveLocked_def NewMemoryCache_def)
  show ?thesis
    using memory_matches_node [OF mc_inv_start _ st, where ttl = 10 and data = "''v''" and expected = 0]
    by (auto simp: wrap_int64_def casAdmits_def NewMemoryCache_def memoryLegacyVersion_def split: sum.splits prod.splits)
qed

text \<open>C31: the in-memory client keeps its invariant.  From a new cache, whatever locked sections run
  in whatever order, fewer than \<open>2 ^ 64 - 2\<close> of them: no key is stored twice, a stamped
  key has an entry, a fenced key has none, no two keys share a stamp, and every stamp
  lies above the version of unstamped entries.\<close>

theorem memory_invariant:
  assumes "mc_run n m" "n < 2 ^ 64 - 2"
  shows "mc_inv m"
  using mc_run_ok [OF assms] by simp

theorem memory_invariant_witness: "mc_inv (snd (Memory_Put None 0 ''k'' ''v'' 0 NewMemoryCache))"
  by (rule memory_invariant [OF mc_run.step [OF mc_run.start mc_step.Put]]) simp

text \<open>Following the pages lists every key once.  If the empty key is not listed, a caller that
  follows the continuation tokens reaches the last page within as many calls as there are
  keys, plus one, for every page size; the pages together are, in order, the keys that
  have the prefix and are not past their expiry.\<close>

theorem memory_pages_complete:
  assumes "mc_inv m" "[] \<notin> set (listed_keys now pre m)"
  shows "follow_pages (Suc (length (mc_data m))) now pre limit [] m = Some (listed_keys now pre m)
    \<and> sorted (listed_keys now pre m) \<and> distinct (listed_keys now pre m)
    \<and> set (listed_keys now pre m) = {k. \<exists>e. map_of (mc_data m) k = Some e \<and> \<not> past_expiry now e \<and> prefix pre k}"
proof -
  note d = mc_invD(1) [OF assms(1)]
  have "[] < k" if "k \<in> set (listed_keys now pre m)" for k using assms(2) that by (cases k) auto
  then have all: "filter ((<) []) (listed_keys now pre m) = listed_keys now pre m" by (auto simp: filter_id_conv)
  have "length (listed_keys now pre m) \<le> length (mc_data m)" by (simp add: listed_keys_def)
  then show ?thesis
    using follow_pages_rest [OF assms(2) d, of "[]" "Suc (length (mc_data m))" limit] all listed_keys_ok(1) listed_keys_ok(2,3) [OF d]
    by simp
qed

theorem memory_pages_complete_witness:
  "follow_pages 3 0 [] 1 [] (snd (Memory_Put None 0 ''b'' ''y'' 0 (snd (Memory_Put None 0 ''a'' ''x'' 0 NewMemoryCache))))
    = Some [''a'', ''b'']"
proof -
  let ?m = "snd (Memory_Put None 0 ''b'' ''y'' 0 (snd (Memory_Put None 0 ''a'' ''x'' 0 NewMemoryCache)))"
  have inv: "mc_inv ?m" using mc_run_ok [OF mc_run.step [OF mc_run.step [OF mc_run.start mc_step.Put] mc_step.Put]] by simp
  have ks: "listed_keys 0 [] ?m = [''a'', ''b'']" "length (mc_data ?m) = 2"
    by (simp_all add: listed_keys_def Memory_Put_def NewMemoryCache_def new_entry_def past_expiry_def)
  then show ?thesis using memory_pages_complete [OF inv, of 0 "[]" 1] by (simp add: eval_nat_numeral)
qed

end
