(* ===== verification/TokenRing.thy ===== *)
theory TokenRing
  imports Prelude
begin

text \<open>
  Placement of keys on nodes: the client's token ring (\<^verbatim>\<open>src/client/tokenring.go\<close>) and the
  ring epoch a node computes (\<^verbatim>\<open>src/coordinator/ring/epoch.go\<close>), with the hash both use.
  A Go map that is iterated is a list of pairs in the order of the iteration, which is
  arbitrary.  \<^verbatim>\<open>sort.Slice\<close> leaves the order of equal tokens open; the model keeps them in
  the order they came, and the statements about owners ask that no token has two owners.
\<close>

section \<open>FNV-1a\<close>

definition fnv32a :: "string \<Rightarrow> 32 word" where
  "fnv32a s = foldl (\<lambda>h c. (xor h (word_of_nat (of_char c))) * 16777619) 2166136261 s"

definition fnv64a :: "string \<Rightarrow> 64 word" where
  "fnv64a s = foldl (\<lambda>h c. (xor h (word_of_nat (of_char c))) * 1099511628211) 14695981039346656037 s"

section \<open>The token ring\<close>

record tokenEntry =
  te_token :: "32 word"
  te_nodeID :: string

record ringState =
  rs_tokens :: "tokenEntry list"
  rs_nodes :: "string \<rightharpoonup> string"

definition NewTokenRing :: ringState where
  "NewTokenRing = \<lparr>rs_tokens = [], rs_nodes = Map.empty\<rparr>"

definition ring_entries :: "(string \<times> 32 word list) list \<Rightarrow> tokenEntry list" where
  "ring_entries nodeTokens = concat (map (\<lambda>(nodeID, tokens). map (\<lambda>token. \<lparr>te_token = token, te_nodeID = nodeID\<rparr>) tokens) nodeTokens)"

definition TokenRing_Update :: "(string \<times> 32 word list) list \<Rightarrow> (string \<rightharpoonup> string) \<Rightarrow> ringState" where
  "TokenRing_Update nodeTokens nodeAddresses =
    \<lparr>rs_tokens = sort_key te_token (ring_entries nodeTokens), rs_nodes = nodeAddresses\<rparr>"

text \<open>\<^verbatim>\<open>sort.Search\<close>: the loop of the standard library, from the bounds \<open>i\<close> and \<open>j\<close>.\<close>

function sort_search :: "(nat \<Rightarrow> bool) \<Rightarrow> nat \<Rightarrow> nat \<Rightarrow> nat" where
  "sort_search f i j = (if i < j then let h = (i + j) div 2 in if \<not> f h then sort_search f (h + 1) j else sort_search f i h else i)"
  by pat_completeness auto
termination by (relation "measure (\<lambda>(f, i, j). j - i)") auto

declare sort_search.simps [simp del]

definition ring_index :: "tokenEntry list \<Rightarrow> 32 word \<Rightarrow> nat" where
  "ring_index tokens token =
    (let idx = sort_search (\<lambda>i. te_token (tokens ! i) \<ge> token) 0 (length tokens) in if idx = length tokens then 0 else idx)"

definition GetNodeIDForKey :: "ringState \<Rightarrow> string \<Rightarrow> string result" where
  "GetNodeIDForKey state key =
    (if rs_tokens state = [] then Inl ''ring is empty''
     else Inr (te_nodeID (rs_tokens state ! ring_index (rs_tokens state) (fnv32a key))))"

definition GetNodeInfoForKey :: "ringState \<Rightarrow> string \<Rightarrow> (string \<times> string) result" where
  "GetNodeInfoForKey state key =
    (if rs_tokens state = [] then Inl ''ring is empty''
     else let nodeID = te_nodeID (rs_tokens state ! ring_index (rs_tokens state) (fnv32a key)) in
       case rs_nodes state nodeID of None \<Rightarrow> Inl (''node '' @ nodeID @ '' not found in address map'')
       | Some address \<Rightarrow> Inr (nodeID, address))"

definition GetNodeForKey :: "ringState \<Rightarrow> string \<Rightarrow> string result" where
  "GetNodeForKey state key =
    (if rs_tokens state = [] then Inl ''ring is empty''
     else let nodeID = te_nodeID (rs_tokens state ! ring_index (rs_tokens state) (fnv32a key)) in
       case rs_nodes state nodeID of None \<Rightarrow> Inl (''node '' @ nodeID @ '' not found in address map'')
       | Some addr \<Rightarrow> Inr addr)"

definition TokenRing_IsEmpty :: "ringState \<Rightarrow> bool" where
  "TokenRing_IsEmpty state = (length (rs_tokens state) = 0)"

definition TokenCount :: "ringState \<Rightarrow> nat" where
  "TokenCount state = length (rs_tokens state)"

section \<open>The ring epoch\<close>

record instance_desc =
  inst_state :: nat
  inst_tokens :: "32 word list"

definition epoch_text :: "(string \<times> instance_desc) list \<Rightarrow> string" where
  "epoch_text ingesters = concat (map (\<lambda>id. let inst = the (map_of ingesters id) in
     id @ '':'' @ dec (inst_state inst) @ '':'' @ dec (length (inst_tokens inst)) @ '';'') (sort (map fst ingesters)))"

definition ComputeRingEpoch :: "(string \<times> instance_desc) list option \<Rightarrow> 64 word" where
  "ComputeRingEpoch ringDesc = (case ringDesc of None \<Rightarrow> 0
     | Some ingesters \<Rightarrow> if ingesters = [] then 0 else fnv64a (epoch_text ingesters))"

definition Epoch_Set :: "(string \<times> instance_desc) list option \<Rightarrow> 64 word \<Rightarrow> 64 word \<times> 64 word" where
  "Epoch_Set ringDesc stored = (case ringDesc of None \<Rightarrow> (0, stored)
     | Some d \<Rightarrow> let newEpoch = ComputeRingEpoch (Some d) in (newEpoch, newEpoch))"

section \<open>Search\<close>

text \<open>The position \<^verbatim>\<open>sort.Search\<close> looks for: the first that satisfies a predicate that is
  false up to some point and true from there on.\<close>

lemma sort_search_first:
  assumes "i \<le> p" "p \<le> j" "\<And>k. i \<le> k \<Longrightarrow> k < j \<Longrightarrow> f k \<longleftrightarrow> p \<le> k"
  shows "sort_search f i j = p"
  using assms
proof (induction f i j rule: sort_search.induct)
  case (1 f i j)
  show ?case
  proof (cases "i < j")
    case True
    let ?h = "(i + j) div 2"
    have h: "i \<le> ?h" "?h < j" using True by auto
    then have fh: "f ?h \<longleftrightarrow> p \<le> ?h" using 1(5) by blast
    show ?thesis
    proof (cases "f ?h")
      case False
      then have "sort_search f (?h + 1) j = p" using 1 True fh h by (intro 1(1)) auto
      then show ?thesis using True False by (subst sort_search.simps) (simp add: Let_def)
    next
      case t: True
      then have "sort_search f i ?h = p" using 1 True fh h by (intro 1(2)) auto
      then show ?thesis using True t by (subst sort_search.simps) (simp add: Let_def)
    qed
  next
    case False
    then show ?thesis using 1(3,4) by (subst sort_search.simps) simp
  qed
qed

text \<open>The token that owns a hash: the least at or above it, else the least of all.\<close>

definition owner_token :: "32 word set \<Rightarrow> 32 word \<Rightarrow> 32 word" where
  "owner_token T h = (if \<exists>t \<in> T. h \<le> t then Min {t \<in> T. h \<le> t} else Min T)"

lemma ring_index_owner:
  assumes "sorted (map te_token ts)" "ts \<noteq> []"
  shows "ring_index ts h < length ts" "te_token (ts ! ring_index ts h) = owner_token (te_token ` set ts) h"
proof -
  let ?T = "map te_token ts"
  obtain p where p: "p = length (takeWhile (\<lambda>t. \<not> h \<le> t) ?T)" by simp
  have le: "p \<le> length ts" by (metis p length_takeWhile_le length_map)
  have mono: "h \<le> ?T ! k \<longleftrightarrow> p \<le> k" if "k < length ts" for k
  proof
    show "p \<le> k" if "h \<le> ?T ! k"
      using that takeWhile_nth [of k "\<lambda>t. \<not> h \<le> t" ?T] nth_mem [of k "takeWhile (\<lambda>t. \<not> h \<le> t) ?T"]
      by (metis p not_less set_takeWhileD)
    assume "p \<le> k"
    then have "p < length ts" using \<open>k < length ts\<close> by simp
    then have "h \<le> ?T ! p" using nth_length_takeWhile [of "\<lambda>t. \<not> h \<le> t" ?T] p by simp
    then show "h \<le> ?T ! k" using assms(1) \<open>p \<le> k\<close> \<open>k < length ts\<close> by (metis length_map order.trans sorted_nth_mono)
  qed
  have "sort_search (\<lambda>i. te_token (ts ! i) \<ge> h) 0 (length ts) = p"
    by (rule sort_search_first) (use le mono in auto)
  then have idx: "ring_index ts h = (if p = length ts then 0 else p)" by (simp add: ring_index_def)
  then show lt: "ring_index ts h < length ts" using le assms(2) by auto
  have set: "te_token ` set ts = set ?T" by simp
  show "te_token (ts ! ring_index ts h) = owner_token (te_token ` set ts) h"
  proof (cases "p = length ts")
    case True
    then have "\<not> (\<exists>t \<in> set ?T. h \<le> t)" using mono by (auto simp: in_set_conv_nth)
    moreover have "?T ! 0 = Min (set ?T)"
    proof (rule Min_eqI [symmetric])
      show "?T ! 0 \<in> set ?T" using assms(2) by (intro nth_mem) simp
      show "?T ! 0 \<le> t" if "t \<in> set ?T" for t using that sorted_nth_mono [OF assms(1), of 0] by (metis in_set_conv_nth le0)
    qed simp
    ultimately show ?thesis using idx True assms(2) lt unfolding owner_token_def set by simp
  next
    case False
    then have pl: "p < length ts" using le by simp
    then have hp: "h \<le> ?T ! p" "?T ! p \<in> set ?T" using mono by simp_all
    have "Min {t \<in> set ?T. h \<le> t} = ?T ! p"
    proof (rule Min_eqI)
      fix t assume "t \<in> {t \<in> set ?T. h \<le> t}"
      then obtain k where "k < length ts" "t = ?T ! k" "p \<le> k" using mono by (auto simp: in_set_conv_nth)
      then show "?T ! p \<le> t" using sorted_nth_mono [OF assms(1)] by simp
    qed (use hp in auto)
    then show ?thesis using idx False hp pl unfolding owner_token_def set by auto
  qed
qed

lemma owner_token_sub:
  assumes "finite T" "S \<subseteq> T" "owner_token T h \<in> S"
  shows "owner_token S h = owner_token T h"
proof (cases "\<exists>t \<in> T. h \<le> t")
  case True
  then have "Min {t \<in> T. h \<le> t} \<in> {t \<in> T. h \<le> t}" using assms(1) by (intro Min_in) auto
  then have "owner_token T h \<in> {t \<in> T. h \<le> t}" using True unfolding owner_token_def by simp
  then have ex: "\<exists>t \<in> S. h \<le> t" using assms(3) by auto
  have "Min {t \<in> S. h \<le> t} = Min {t \<in> T. h \<le> t}"
  proof (rule Min_eqI)
    show "finite {t \<in> S. h \<le> t}" using assms(1,2) by (auto intro: finite_subset)
    show "Min {t \<in> T. h \<le> t} \<in> {t \<in> S. h \<le> t}"
      using True assms(3) \<open>owner_token T h \<in> {t \<in> T. h \<le> t}\<close> by (auto simp: owner_token_def)
  qed (use assms(1,2) in auto)
  then show ?thesis using True ex by (simp add: owner_token_def)
next
  case False
  then have "Min S = Min T"
    using assms by (intro Min_eqI) (auto simp: owner_token_def intro: finite_subset)
  then show ?thesis using False assms(2) by (auto simp: owner_token_def)
qed

section \<open>Properties\<close>

definition all_tokens :: "(string \<times> 32 word list) list \<Rightarrow> 32 word set" where
  "all_tokens nodeTokens = (\<Union>(n, ts) \<in> set nodeTokens. set ts)"

lemma set_ring_entries: "set (ring_entries nt) = {\<lparr>te_token = t, te_nodeID = n\<rparr> | t n ts. (n, ts) \<in> set nt \<and> t \<in> set ts}"
  by (auto simp: ring_entries_def)

lemma tokens_ring_entries: "te_token ` set (ring_entries nt) = all_tokens nt"
  by (force simp: set_ring_entries all_tokens_def)

text \<open>The entry a lookup picks.\<close>

lemma owner_lookup:
  assumes "ring_entries nt \<noteq> []"
  obtains n ts where "(n, ts) \<in> set nt" "owner_token (all_tokens nt) (fnv32a key) \<in> set ts"
    "GetNodeIDForKey (TokenRing_Update nt addr) key = Inr n"
proof -
  let ?ts = "sort_key te_token (ring_entries nt)"
  have ne: "?ts \<noteq> []" using assms by (metis set_empty set_sort)
  note idx = ring_index_owner [OF sorted_sort_key ne, of "fnv32a key"]
  let ?e = "?ts ! ring_index ?ts (fnv32a key)"
  have "?e \<in> set (ring_entries nt)" using nth_mem [OF idx(1)] by simp
  then obtain t n ts where e: "?e = \<lparr>te_token = t, te_nodeID = n\<rparr>" "(n, ts) \<in> set nt" "t \<in> set ts"
    by (auto simp: set_ring_entries)
  then show thesis
    using that idx(2) ne by (simp add: tokens_ring_entries GetNodeIDForKey_def TokenRing_Update_def)
qed

lemma token_owner_unique:
  assumes "distinct (map te_token (ring_entries nt))" "(n, ts) \<in> set nt" "t \<in> set ts" "(n', ts') \<in> set nt" "t \<in> set ts'"
  shows "n = n'"
proof -
  have "\<lparr>te_token = t, te_nodeID = n\<rparr> \<in> set (ring_entries nt)" "\<lparr>te_token = t, te_nodeID = n'\<rparr> \<in> set (ring_entries nt)"
    using assms(2-) by (auto simp: set_ring_entries)
  then have "\<lparr>te_token = t, te_nodeID = n\<rparr> = \<lparr>te_token = t, te_nodeID = n'\<rparr>"
    using assms(1) by (intro inj_onD [of te_token "set (ring_entries nt)"]) (auto simp: distinct_map)
  then show ?thesis by simp
qed

text \<open>C27: the binary search finds the ring's successor.  On a ring that is not empty and in which no
  token has two owners, a lookup always returns a node, namely the one that owns the least
  token at or above the key's hash or, past the last token, the least token of all; it
  does so for every order in which the tokens were supplied.\<close>

theorem ring_owner_successor:
  assumes "distinct (map te_token (ring_entries nt))" "ring_entries nt \<noteq> []"
  shows "(GetNodeIDForKey (TokenRing_Update nt addr) key = Inr n)
    \<longleftrightarrow> (\<exists>ts. (n, ts) \<in> set nt \<and> owner_token (all_tokens nt) (fnv32a key) \<in> set ts)"
  by (rule owner_lookup [OF assms(2), of key addr]) (auto dest: token_owner_unique [OF assms(1)])

theorem ring_owner_successor_witness:
  "GetNodeIDForKey (TokenRing_Update [(''a'', [100, 4000000000]), (''b'', [3000000000])] Map.empty) ''x'' = Inr ''a''"
proof -
  let ?nt = "[(''a'', [100, 4000000000]), (''b'', [3000000000])] :: (string \<times> 32 word list) list"
  have h: "fnv32a ''x'' = 4245442695" by (simp add: fnv32a_def)
  have T: "all_tokens ?nt = {100, 4000000000, 3000000000}" by (auto simp: all_tokens_def)
  have "owner_token (all_tokens ?nt) (fnv32a ''x'') = 100" by (simp add: owner_token_def T h)
  then show ?thesis using ring_owner_successor [of ?nt Map.empty "''x''" "''a''"] by (simp add: ring_entries_def)
qed

text \<open>C28: removing a node moves only its own keys.  When a node leaves a ring in which no token has
  two owners, every key that another node owned keeps its owner, whatever the addresses.\<close>

theorem ring_removal_stable:
  assumes "distinct (map te_token (ring_entries nt))"
    and "GetNodeIDForKey (TokenRing_Update nt addr) key = Inr n" "n \<noteq> gone"
  shows "GetNodeIDForKey (TokenRing_Update (filter (\<lambda>(m, ts). m \<noteq> gone) nt) addr') key = Inr n"
proof -
  let ?h = "fnv32a key" and ?nt = "filter (\<lambda>(m, ts). m \<noteq> gone) nt"
  have ne: "ring_entries nt \<noteq> []" using assms(2) by (auto simp: GetNodeIDForKey_def TokenRing_Update_def split: if_splits)
  obtain ts where ts: "(n, ts) \<in> set nt" "owner_token (all_tokens nt) ?h \<in> set ts"
    using owner_lookup [OF ne, of key addr] assms(2) by (metis sum.inject(2))
  then have mem: "(n, ts) \<in> set ?nt" using assms(3) by simp
  then have "owner_token (all_tokens nt) ?h \<in> all_tokens ?nt" using ts(2) by (auto simp: all_tokens_def)
  then have own: "owner_token (all_tokens ?nt) ?h = owner_token (all_tokens nt) ?h"
    by (intro owner_token_sub) (auto simp: all_tokens_def)
  have ne': "ring_entries ?nt \<noteq> []" using mem ts(2) set_ring_entries [of ?nt] by fastforce
  obtain m ts' where m: "(m, ts') \<in> set ?nt" "owner_token (all_tokens nt) ?h \<in> set ts'"
    "GetNodeIDForKey (TokenRing_Update ?nt addr') key = Inr m"
    using owner_lookup [OF ne', of key addr'] unfolding own by blast
  have "m = n" by (rule token_owner_unique [OF assms(1) _ m(2) ts]) (use m(1) in auto)
  then show ?thesis using m(3) by simp
qed

theorem ring_removal_stable_witness:
  "GetNodeIDForKey (TokenRing_Update [(''a'', [100, 4000000000])] Map.empty) ''x'' = Inr ''a''"
  using ring_removal_stable [of "[(''a'', [100, 4000000000]), (''b'', [3000000000])]" Map.empty "''x''" "''a''" "''b''" Map.empty]
  by (simp add: ring_entries_def GetNodeIDForKey_def TokenRing_Update_def ring_index_def sort_search.simps fnv32a_def)

text \<open>The ring epoch depends on the membership only.  Two nodes that see the same instances
  compute the same epoch, in whatever order their maps enumerate them.\<close>

theorem epoch_order_free:
  assumes "distinct (map fst xs)" "distinct (map fst ys)" "set xs = set ys"
  shows "ComputeRingEpoch (Some xs) = ComputeRingEpoch (Some ys)"
proof -
  have "mset (map fst xs) = mset (map fst ys)"
    using assms by (subst set_eq_iff_mset_eq_distinct [symmetric]) simp_all
  then have "sort (map fst xs) = sort (map fst ys)" by (metis properties_for_sort sorted_sort mset_sort)
  moreover have "map_of xs = map_of ys" using assms by (simp add: map_of_inject_set)
  ultimately have "epoch_text xs = epoch_text ys" by (simp add: epoch_text_def)
  moreover have "xs = [] \<longleftrightarrow> ys = []" using assms(3) by auto
  ultimately show ?thesis by (simp add: ComputeRingEpoch_def)
qed

theorem epoch_order_free_witness:
  "ComputeRingEpoch (Some [(''a'', \<lparr>inst_state = 0, inst_tokens = []\<rparr>), (''b'', \<lparr>inst_state = 1, inst_tokens = [7]\<rparr>)])
     = ComputeRingEpoch (Some [(''b'', \<lparr>inst_state = 1, inst_tokens = [7]\<rparr>), (''a'', \<lparr>inst_state = 0, inst_tokens = []\<rparr>)])"
  by (rule epoch_order_free) auto

end
