(* ===== verification/Retry.thy ===== *)
theory Retry
  imports Errors Complex_Main
begin

text \<open>
  Retrying with backoff (\<^verbatim>\<open>src/storage/retry/retry.go\<close>).  The operation is a function of the
  caller's state; the context is consulted at numbered points; the draws of \<^verbatim>\<open>math/rand\<close>
  are arguments.  Durations are nanoseconds; the two floating-point factors are rationals,
  and a conversion to a duration cuts off towards zero.
\<close>

section \<open>Configuration and delays\<close>

record retry_config =
  InitialDelay :: int
  MaxDelay :: int
  MaxRetries :: int
  Multiplier :: rat
  JitterFactor :: rat

definition DefaultConfig :: retry_config where
  "DefaultConfig = \<lparr>InitialDelay = 100 * 10 ^ 6, MaxDelay = 10 * 10 ^ 9, MaxRetries = 5, Multiplier = 2, JitterFactor = 1 / 10\<rparr>"

definition FastConfig :: retry_config where
  "FastConfig = \<lparr>InitialDelay = 10 * 10 ^ 6, MaxDelay = 10 ^ 9, MaxRetries = 10, Multiplier = 3 / 2, JitterFactor = 1 / 5\<rparr>"

definition trunc :: "rat \<Rightarrow> int" where
  "trunc x = (if x \<ge> 0 then \<lfloor>x\<rfloor> else \<lceil>x\<rceil>)"

text \<open>One draw: a fraction in the unit interval and the coin that picks the sign.\<close>

type_synonym draw = "rat \<times> bool"

definition calculateDelay :: "draw \<Rightarrow> int \<Rightarrow> int \<Rightarrow> rat \<Rightarrow> rat \<Rightarrow> int" where
  "calculateDelay r currentDelay maxDelay multiplier jitterFactor =
    (let next = trunc (of_int currentDelay * multiplier);
         next = (if next > maxDelay then maxDelay else next)
     in if jitterFactor > 0 then
          let jitter = trunc (fst r * jitterFactor * of_int next);
              next = (if snd r then next + jitter else next - jitter)
          in if next < 0 then 1000000 else next
        else next)"

section \<open>The loop\<close>

text \<open>What a run leaves: the error, the state, and the delays it waited, oldest first.  The
  context is asked before attempt \<open>i\<close> at point \<open>2 * i\<close>, and while waiting after it at
  \<open>2 * i + 1\<close>.\<close>

fun retry_loop :: "nat \<Rightarrow> (nat \<Rightarrow> bool) \<Rightarrow> (nat \<Rightarrow> draw) \<Rightarrow> retry_config \<Rightarrow> string \<Rightarrow> string \<Rightarrow> ('s \<Rightarrow> goerr option \<times> 's)
    \<Rightarrow> nat \<Rightarrow> int \<Rightarrow> goerr option \<Rightarrow> 's \<Rightarrow> goerr option \<times> 's \<times> int list" where
  "retry_loop 0 ctx rnd cfg op key fn attempt delay lastErr s = (lastErr, s, [])"
| "retry_loop (Suc n) ctx rnd cfg op key fn attempt delay lastErr s =
    (if ctx (2 * attempt) then (Some (NewTimeoutError op key), s, [])
     else case fn s of
       (None, s') \<Rightarrow> (None, s', [])
     | (Some err, s') \<Rightarrow>
        if \<not> IsRetryable err then (Some err, s', [])
        else if int attempt = MaxRetries cfg then (Some err, s', [])
        else let nextDelay = calculateDelay (rnd attempt) delay (MaxDelay cfg) (Multiplier cfg) (JitterFactor cfg) in
          if ctx (2 * attempt + 1) then (Some (NewTimeoutError op key), s', [])
          else case retry_loop n ctx rnd cfg op key fn (Suc attempt) nextDelay (Some err) s' of
            (r, s'', waits) \<Rightarrow> (r, s'', nextDelay # waits))"

definition DoWithKey :: "(nat \<Rightarrow> bool) \<Rightarrow> (nat \<Rightarrow> draw) \<Rightarrow> retry_config \<Rightarrow> string \<Rightarrow> string \<Rightarrow> ('s \<Rightarrow> goerr option \<times> 's) \<Rightarrow> 's
    \<Rightarrow> goerr option \<times> 's \<times> int list" where
  "DoWithKey ctx rnd cfg op key fn s = retry_loop (nat (MaxRetries cfg + 1)) ctx rnd cfg op key fn 0 (InitialDelay cfg) None s"

definition Do :: "(nat \<Rightarrow> bool) \<Rightarrow> (nat \<Rightarrow> draw) \<Rightarrow> retry_config \<Rightarrow> string \<Rightarrow> ('s \<Rightarrow> goerr option \<times> 's) \<Rightarrow> 's
    \<Rightarrow> goerr option \<times> 's \<times> int list" where
  "Do ctx rnd cfg op fn s = DoWithKey ctx rnd cfg op [] fn s"

text \<open>\<^verbatim>\<open>RetryableReader.Read\<close> into a buffer of \<open>n\<close> bytes; the callback leaves its data in a
  variable of the caller.\<close>

definition RetryableReader_Read :: "(nat \<Rightarrow> bool) \<Rightarrow> (nat \<Rightarrow> draw) \<Rightarrow> retry_config \<Rightarrow> string \<Rightarrow> string
    \<Rightarrow> ('s \<Rightarrow> (bytes \<times> goerr option) \<times> 's) \<Rightarrow> nat \<Rightarrow> 's \<Rightarrow> (bytes \<times> goerr option) \<times> 's" where
  "RetryableReader_Read ctx rnd cfg op key rd n s =
    (case DoWithKey ctx rnd cfg op key (\<lambda>(d, s). case rd s of ((data, err), s') \<Rightarrow> (err, (data, s'))) ([], s) of
       (Some err, (d, s'), w) \<Rightarrow> (([], Some err), s') | (None, (d, s'), w) \<Rightarrow> ((take n d, None), s'))"

section \<open>The iterator\<close>

record backoff =
  bo_cfg :: retry_config
  bo_attempt :: int
  bo_delay :: int

definition NewBackoff :: "retry_config \<Rightarrow> backoff" where
  "NewBackoff cfg = \<lparr>bo_cfg = cfg, bo_attempt = 0, bo_delay = InitialDelay cfg\<rparr>"

definition Backoff_Next :: "draw \<Rightarrow> backoff \<Rightarrow> (int \<times> bool) \<times> backoff" where
  "Backoff_Next r b =
    (if bo_attempt b \<ge> MaxRetries (bo_cfg b) then ((0, False), b)
     else ((bo_delay b, True),
       b\<lparr>bo_delay := calculateDelay r (bo_delay b) (MaxDelay (bo_cfg b)) (Multiplier (bo_cfg b)) (JitterFactor (bo_cfg b)),
         bo_attempt := bo_attempt b + 1\<rparr>))"

definition Backoff_Reset :: "backoff \<Rightarrow> backoff" where
  "Backoff_Reset b = b\<lparr>bo_attempt := 0, bo_delay := InitialDelay (bo_cfg b)\<rparr>"

definition Backoff_Attempts :: "backoff \<Rightarrow> int" where
  "Backoff_Attempts b = bo_attempt b"

section \<open>Lemmas\<close>

definition draw_ok :: "draw \<Rightarrow> bool" where
  "draw_ok r \<longleftrightarrow> 0 \<le> fst r \<and> fst r < 1"

lemma trunc_mult_bounds:
  assumes "0 \<le> x" "x \<le> y"
  shows "0 \<le> trunc x" "of_int (trunc x) \<le> y"
  using assms order.trans [OF of_int_floor_le assms(2)] by (auto simp: trunc_def)

lemma calculateDelay_bounds:
  assumes "draw_ok r" "0 \<le> d" "0 \<le> maxD" "0 \<le> mu" "0 \<le> j" "j \<le> 1"
  shows "0 \<le> calculateDelay r d maxD mu j" "of_int (calculateDelay r d maxD mu j) \<le> of_int maxD * (1 + j)"
proof -
  obtain n where n: "n = min (trunc (of_int d * mu)) maxD" by simp
  have n0: "0 \<le> n" "n \<le> maxD" using assms trunc_mult_bounds(1) [of "of_int d * mu"] by (auto simp: n)
  obtain k where k: "k = trunc (fst r * j * of_int n)" by simp
  have x: "0 \<le> fst r * j * of_int n" "fst r * j * of_int n \<le> j * of_int n"
    using assms n0 by (auto simp: draw_ok_def mult_left_le_one_le mult.assoc)
  have k0: "0 \<le> k" "of_int k \<le> j * of_int n" using trunc_mult_bounds [OF x] by (simp_all add: k)
  have jn: "j * of_int n \<le> of_int n" "j * of_int n \<le> j * of_int maxD"
    using assms n0 by (simp_all add: mult_left_le_one_le mult_left_mono)
  then have "k \<le> n" using k0 by (metis of_int_le_iff order.trans)
  have val: "calculateDelay r d maxD mu j = (if j > 0 then if snd r then n + k else n - k else n)"
    using \<open>k \<le> n\<close> n0 k0(1) by (auto simp: calculateDelay_def Let_def n k min_def)
  show "0 \<le> calculateDelay r d maxD mu j" using val n0 k0 \<open>k \<le> n\<close> by simp
  have "of_int n + of_int k \<le> of_int maxD + j * (of_int maxD :: rat)" "(of_int n :: rat) \<le> of_int maxD"
    using n0 k0 jn by (auto intro: add_mono order.trans)
  then show "of_int (calculateDelay r d maxD mu j) \<le> of_int maxD * (1 + j)"
    using val k0(1) assms(3,5) by (auto simp: algebra_simps)
qed

text \<open>The caller's state after a number of calls.\<close>

primrec after_calls :: "('s \<Rightarrow> goerr option \<times> 's) \<Rightarrow> nat \<Rightarrow> 's \<Rightarrow> 's" where
  "after_calls fn 0 s = s"
| "after_calls fn (Suc k) s = after_calls fn k (snd (fn s))"

lemma retry_loop_outcome:
  assumes "int attempt + int n = MaxRetries cfg" "0 \<le> delay" "\<forall>i. draw_ok (rnd i)" "0 \<le> MaxDelay cfg" "0 \<le> Multiplier cfg"
    "0 \<le> JitterFactor cfg" "JitterFactor cfg \<le> 1"
    and run: "retry_loop (Suc n) (\<lambda>i. False) rnd cfg op key fn attempt delay lastErr s = (r, s', waits)"
  shows "\<exists>i \<le> n. (\<forall>k < i. \<exists>e. fst (fn (after_calls fn k s)) = Some e \<and> IsRetryable e)
    \<and> r = fst (fn (after_calls fn i s)) \<and> s' = after_calls fn (Suc i) s \<and> length waits = i
    \<and> (\<forall>w \<in> set waits. 0 \<le> w \<and> of_int w \<le> of_int (MaxDelay cfg) * (1 + JitterFactor cfg))
    \<and> (\<forall>e. r = Some e \<and> IsRetryable e \<longrightarrow> i = n)"
  using assms(1,2) run
proof (induction n arbitrary: attempt delay lastErr s r s' waits)
  case 0
  then show ?case by (auto simp: Let_def split: prod.splits option.splits if_splits)
next
  case (Suc n)
  obtain r0 s1 where fn: "fn s = (r0, s1)" by fastforce
  show ?case
  proof (cases "\<exists>e. r0 = Some e \<and> IsRetryable e")
    case False
    then have "r = r0 \<and> s' = s1 \<and> waits = []"
      using Suc.prems(3) fn by (cases r0) (auto simp del: retry_loop.simps simp: retry_loop.simps(2) [of "Suc n"])
    then show ?thesis using False fn by (intro exI [of _ 0]) auto
  next
    case True
    then obtain e where e: "r0 = Some e" "IsRetryable e" by blast
    obtain d where d: "d = calculateDelay (rnd attempt) delay (MaxDelay cfg) (Multiplier cfg) (JitterFactor cfg)" by simp
    have d0: "0 \<le> d" "of_int d \<le> of_int (MaxDelay cfg) * (1 + JitterFactor cfg)"
      using calculateDelay_bounds [of "rnd attempt" delay "MaxDelay cfg" "Multiplier cfg" "JitterFactor cfg"] assms(3-7) Suc.prems(2)
      by (simp_all add: d)
    have "int attempt \<noteq> MaxRetries cfg" using Suc.prems(1) by simp
    moreover obtain r2 s2 waits' where rest: "retry_loop (Suc n) (\<lambda>i. False) rnd cfg op key fn (Suc attempt) d (Some e) s1 = (r2, s2, waits')"
      by (metis prod_cases3)
    moreover have "retry_loop (Suc (Suc n)) (\<lambda>i. False) rnd cfg op key fn attempt delay lastErr s = (r2, s2, d # waits')"
      using calculation fn e by (subst retry_loop.simps(2)) (simp add: d [symmetric] del: retry_loop.simps)
    ultimately have eq: "r2 = r" "s2 = s'" "waits = d # waits'" using Suc.prems(3) by simp_all
    have a: "int (Suc attempt) + int n = MaxRetries cfg" using Suc.prems(1) by simp
    obtain i where i: "i \<le> n" "\<forall>k < i. \<exists>e. fst (fn (after_calls fn k s1)) = Some e \<and> IsRetryable e"
      "r = fst (fn (after_calls fn i s1))" "s' = after_calls fn (Suc i) s1" "length waits' = i"
      "\<forall>w \<in> set waits'. 0 \<le> w \<and> of_int w \<le> of_int (MaxDelay cfg) * (1 + JitterFactor cfg)"
      "\<forall>e. r = Some e \<and> IsRetryable e \<longrightarrow> i = n"
      using Suc.IH [OF a d0(1) rest [unfolded eq(1,2)]] by blast
    have "\<exists>e. fst (fn (after_calls fn k s)) = Some e \<and> IsRetryable e" if "k < Suc i" for k
      using that fn e i(2) by (cases k) simp_all
    then show ?thesis
      using i(1,3-7) eq(3) d0 fn by (intro exI [of _ "Suc i"] conjI allI impI ballI) auto
  qed
qed

text \<open>A run that succeeds ends with a call that succeeds, made in a state that earlier calls
  left; what every call keeps holds at the end of every run.\<close>

lemma retry_loop_kept:
  assumes "retry_loop n ctx rnd cfg op key fn attempt delay lastErr s = (r, s', waits)" "P s" "\<And>s. P s \<Longrightarrow> P (snd (fn s))"
  shows "P s' \<and> (r = None \<longrightarrow> lastErr = None \<and> n = 0 \<or> (\<exists>s0. P s0 \<and> fn s0 = (None, s')))"
  using assms(1,2)
proof (induction n arbitrary: attempt delay lastErr s r s' waits)
  case (Suc n)
  obtain r0 s1 where fn: "fn s = (r0, s1)" by fastforce
  have s1: "P s1" using assms(3) [OF Suc.prems(2)] fn by simp
  show ?case
  proof (cases "\<exists>d e r1 s2 w. r0 = Some e \<and> retry_loop n ctx rnd cfg op key fn (Suc attempt) d (Some e) s1 = (r1, s2, w) \<and> r = r1 \<and> s' = s2")
    case True
    then show ?thesis using Suc.IH [OF _ s1] by blast
  next
    case False
    obtain d where d: "d = calculateDelay (rnd attempt) delay (MaxDelay cfg) (Multiplier cfg) (JitterFactor cfg)" by simp
    have "(\<exists>e. r = Some e) \<and> (s' = s \<or> s' = s1) \<or> r0 = None \<and> r = None \<and> s' = s1"
      using Suc.prems(1) False fn by (cases r0) (auto simp: Let_def d [symmetric] split: if_splits prod.splits)
    then show ?thesis using Suc.prems(2) s1 fn by auto
  qed
qed auto

section \<open>Properties\<close>

text \<open>A retried operation runs until it succeeds, fails for good, or has failed one time more
  than the configured number of retries, and its last outcome is the result.  If the
  context is never cancelled, every call before the last failed with a retryable error,
  there is one wait between two calls, and no wait is negative or exceeds the maximal
  delay by more than the jitter factor.\<close>

theorem retry_runs_bounded:
  assumes "DoWithKey (\<lambda>i. False) rnd cfg op key fn s = (r, s', waits)" "0 \<le> MaxRetries cfg" "\<forall>i. draw_ok (rnd i)"
    "0 \<le> InitialDelay cfg" "0 \<le> MaxDelay cfg" "0 \<le> Multiplier cfg" "0 \<le> JitterFactor cfg" "JitterFactor cfg \<le> 1"
  shows "\<exists>i \<le> nat (MaxRetries cfg). (\<forall>k < i. \<exists>e. fst (fn (after_calls fn k s)) = Some e \<and> IsRetryable e)
    \<and> r = fst (fn (after_calls fn i s)) \<and> s' = after_calls fn (Suc i) s \<and> length waits = i
    \<and> (\<forall>w \<in> set waits. 0 \<le> w \<and> of_int w \<le> of_int (MaxDelay cfg) * (1 + JitterFactor cfg))
    \<and> (\<forall>e. r = Some e \<and> IsRetryable e \<longrightarrow> i = nat (MaxRetries cfg))"
proof -
  have n: "nat (MaxRetries cfg + 1) = Suc (nat (MaxRetries cfg))" "int 0 + int (nat (MaxRetries cfg)) = MaxRetries cfg"
    using assms(2) by simp_all
  show ?thesis
    by (rule retry_loop_outcome [OF n(2) assms(4,3,5-8) assms(1) [unfolded DoWithKey_def n(1)]])
qed

definition flaky :: "nat \<Rightarrow> goerr option \<times> nat" where
  "flaky n = (if n = 0 then Some (NewIORetryableError ''op'' ''k'' (ErrText ''x'')) else None, n + 1)"

theorem retry_runs_bounded_witness:
  "DoWithKey (\<lambda>i. False) (\<lambda>i. (0, True)) DefaultConfig ''op'' ''k'' flaky 0 = (None, 2, [200000000])
   \<and> (\<exists>i \<le> 5. fst (flaky (after_calls flaky i 0)) = None \<and> length [200000000 :: int] = i)"
proof -
  have run: "DoWithKey (\<lambda>i. False) (\<lambda>i. (0, True)) DefaultConfig ''op'' ''k'' flaky 0 = (None, 2, [200000000])"
    by (simp add: DoWithKey_def DefaultConfig_def flaky_def calculateDelay_def trunc_def Let_def eval_nat_numeral
        NewIORetryableError_def IsRetryable_def)
  show ?thesis
    using run retry_runs_bounded [OF run] by (auto simp: draw_ok_def DefaultConfig_def)
qed

text \<open>Jitter is added after the cap: a delay can exceed the configured maximum.  With the default
  configuration a delay at the cap grows to almost eleven seconds, though the maximum is
  ten.\<close>

theorem jitter_exceeds_cap:
  "MaxDelay DefaultConfig = 10000000000
   \<and> calculateDelay (9 / 10, True) 10000000000 (MaxDelay DefaultConfig) (Multiplier DefaultConfig) (JitterFactor DefaultConfig) = 10900000000
   \<and> draw_ok (9 / 10, True)"
  by (simp add: calculateDelay_def DefaultConfig_def trunc_def draw_ok_def Let_def)

end
