(* ===== verification/Listing.thy ===== *)
theory Listing
  imports Storage Retry
begin

text \<open>
  Listing the keys of one node: the scans of \<^verbatim>\<open>src/storage/storage.go\<close>
  (\<^verbatim>\<open>ListKeysWithPagination\<close>, \<^verbatim>\<open>ListKeyValuesWithPagination\<close>) and the node-local part of
  \<^verbatim>\<open>src/server/operations/list.go\<close> (\<^verbatim>\<open>ListLocal\<close>, and \<^verbatim>\<open>List\<close> on a node without a cluster).
  An iterator is the list of rows it has yet to show; \<^verbatim>\<open>now i\<close> is the clock at the \<open>i\<close>-th
  row a scan looks at.
\<close>

section \<open>Scans\<close>

definition meta_seek :: "'db ext_api \<Rightarrow> bytes \<Rightarrow> 'db storage \<Rightarrow> ((bytes \<times> bytes) list \<times> string option) \<times> 'db storage" where
  "meta_seek E k s = (case db_seek E (st_meta s) k of (r, d) \<Rightarrow> (r, s\<lparr>st_meta := d\<rparr>))"

definition valid_for_prefix :: "bytes \<Rightarrow> (bytes \<times> bytes) list \<Rightarrow> bool" where
  "valid_for_prefix b rows = (case rows of [] \<Rightarrow> False | r # rs \<Rightarrow> prefix b (fst r))"

definition seek_key :: "string \<Rightarrow> string \<Rightarrow> bytes" where
  "seek_key userPrefix startKey =
    (if startKey \<noteq> [] then MakeMetadataKey startKey
     else if userPrefix \<noteq> [] then MakeMetadataKey userPrefix else MetadataPrefix)"

definition prefix_boundary :: "string \<Rightarrow> bytes" where
  "prefix_boundary userPrefix = (if userPrefix \<noteq> [] then MakeMetadataKey userPrefix else MetadataPrefix)"

definition skip_start :: "string \<Rightarrow> (bytes \<times> bytes) list \<Rightarrow> (bytes \<times> bytes) list" where
  "skip_start startKey rows = (case rows of [] \<Rightarrow> []
     | r # rs \<Rightarrow> if startKey \<noteq> [] \<and> ExtractUserKey (fst r) = startKey then rs else rows)"

text \<open>The loop: \<open>item\<close> is what a row contributes, nothing if the row is skipped.\<close>

fun scan_page :: "(nat \<Rightarrow> bytes \<Rightarrow> bytes \<Rightarrow> 'e option) \<Rightarrow> bytes \<Rightarrow> int \<Rightarrow> nat \<Rightarrow> 'e list \<Rightarrow> string \<Rightarrow> (bytes \<times> bytes) list
    \<Rightarrow> 'e list \<times> string \<times> (bytes \<times> bytes) list" where
  "scan_page item b limit i acc lastKey [] = (acc, lastKey, [])"
| "scan_page item b limit i acc lastKey ((k, v) # rows) =
    (if \<not> prefix b k \<or> limit > 0 \<and> int (length acc) \<ge> limit then (acc, lastKey, (k, v) # rows)
     else case item i k v of None \<Rightarrow> scan_page item b limit (Suc i) acc lastKey rows
       | Some e \<Rightarrow> scan_page item b limit (Suc i) (acc @ [e]) (ExtractUserKey k) rows)"

definition paged_scan :: "(nat \<Rightarrow> bytes \<Rightarrow> bytes \<Rightarrow> 'e option) \<Rightarrow> string \<Rightarrow> 'db ext_api \<Rightarrow> string \<Rightarrow> string \<Rightarrow> int \<Rightarrow> 'db storage
    \<Rightarrow> (goerr + 'e list \<times> string \<times> bool) \<times> 'db storage" where
  "paged_scan item op E userPrefix startKey limit s =
    (case meta_seek E (seek_key userPrefix startKey) s of ((rows, iterErr), s') \<Rightarrow>
      (case scan_page item (prefix_boundary userPrefix) limit 0 [] [] (skip_start startKey rows) of (entries, lastKey, rest) \<Rightarrow>
        case iterErr of Some err \<Rightarrow> (Inl (mapRocksDBError op [] err), s')
        | None \<Rightarrow>
          let hasMore = (valid_for_prefix (prefix_boundary userPrefix) rest
                \<and> \<not> (userPrefix \<noteq> [] \<and> \<not> prefix userPrefix (ExtractUserKey (fst (hd rest)))))
          in (Inr (entries, if hasMore then lastKey else [], hasMore), s')))"

definition key_item :: "'a proto_api_scheme \<Rightarrow> (nat \<Rightarrow> int) \<Rightarrow> nat \<Rightarrow> bytes \<Rightarrow> bytes \<Rightarrow> string option" where
  "key_item P now i k v = (case valueMessageExpiry P v of
     Some expiry \<Rightarrow> if expiry > 0 \<and> now i \<ge> expiry then None else Some (ExtractUserKey k)
   | None \<Rightarrow> Some (ExtractUserKey k))"

definition ListKeysWithPagination :: "'db ext_api \<Rightarrow> (nat \<Rightarrow> int) \<Rightarrow> string \<Rightarrow> string \<Rightarrow> int \<Rightarrow> 'db storage
    \<Rightarrow> (goerr + string list \<times> string \<times> bool) \<times> 'db storage" where
  "ListKeysWithPagination E now userPrefix startKey limit s =
    paged_scan (key_item E now) ''ListKeysWithPagination'' E userPrefix startKey limit s"

definition ListKeys :: "'db ext_api \<Rightarrow> (nat \<Rightarrow> int) \<Rightarrow> string \<Rightarrow> 'db storage \<Rightarrow> (goerr + string list) \<times> 'db storage" where
  "ListKeys E now userPrefix s = (case ListKeysWithPagination E now userPrefix [] 0 s of
     (Inl err, s') \<Rightarrow> (Inl err, s') | (Inr (keyList, lastKey, hasMore), s') \<Rightarrow> (Inr keyList, s'))"

definition MaxListValueSize :: int where "MaxListValueSize = 2 ^ 20"

record KeyValue =
  kv_Key :: string
  kv_Value :: bytes
  kv_ValueLength :: int
  kv_ValueOmitted :: bool

text \<open>A value that cannot be read is listed without its bytes.\<close>

definition listed_value :: "'db storage \<Rightarrow> string \<Rightarrow> ValueMessage \<Rightarrow> bytes" where
  "listed_value s userKey vm = (case open_value s userKey vm of Some (Inr data) \<Rightarrow> data | _ \<Rightarrow> [])"

definition kv_item :: "'db ext_api \<Rightarrow> (nat \<Rightarrow> int) \<Rightarrow> 'db storage \<Rightarrow> nat \<Rightarrow> bytes \<Rightarrow> bytes \<Rightarrow> KeyValue option" where
  "kv_item E now s i k v = (case unmarshal E v of
     None \<Rightarrow> Some \<lparr>kv_Key = ExtractUserKey k, kv_Value = [], kv_ValueLength = 0, kv_ValueOmitted = False\<rparr>
   | Some vm \<Rightarrow>
       if Expiry vm > 0 \<and> now i \<ge> Expiry vm then None
       else let omitted = (ValueLength vm > MaxListValueSize) in
         Some \<lparr>kv_Key = ExtractUserKey k, kv_Value = (if omitted then [] else listed_value s (ExtractUserKey k) vm),
               kv_ValueLength = ValueLength vm, kv_ValueOmitted = omitted\<rparr>)"

definition ListKeyValuesWithPagination :: "'db ext_api \<Rightarrow> (nat \<Rightarrow> int) \<Rightarrow> string \<Rightarrow> string \<Rightarrow> int \<Rightarrow> 'db storage
    \<Rightarrow> (goerr + KeyValue list \<times> string \<times> bool) \<times> 'db storage" where
  "ListKeyValuesWithPagination E now userPrefix startKey limit s =
    paged_scan (kv_item E now s) ''ListKeyValuesWithPagination'' E userPrefix startKey limit s"

section \<open>The node's list operations\<close>

definition MaxListLimit :: int where "MaxListLimit = 1000"
definition DefaultListLimit :: int where "DefaultListLimit = 1000"

definition list_limit :: "int \<Rightarrow> int" where
  "list_limit limit = (let limit = (if limit \<le> 0 then DefaultListLimit else limit)
     in if limit > MaxListLimit then MaxListLimit else limit)"

definition ListLocal :: "'db ext_api \<Rightarrow> (nat \<Rightarrow> bool) \<Rightarrow> (nat \<Rightarrow> draw) \<Rightarrow> (nat \<Rightarrow> int) \<Rightarrow> string \<Rightarrow> int \<Rightarrow> string \<Rightarrow> 'db storage
    \<Rightarrow> (goerr + string list \<times> string \<times> bool) \<times> 'db storage" where
  "ListLocal E ctx rnd now pre limit continuationToken s =
    (case Do ctx rnd DefaultConfig ''ListKeysWithPagination''
        (\<lambda>(r, s). case ListKeysWithPagination E now pre continuationToken (list_limit limit) s of
           (Inl err, s') \<Rightarrow> (Some err, (([], [], False), s')) | (Inr page, s') \<Rightarrow> (None, (page, s')))
        (([], [], False), s) of
       (Some err, (r, s'), w) \<Rightarrow> (Inl err, s')
     | (None, ((keys, lastKey, hasMore), s'), w) \<Rightarrow>
         (Inr (keys, if hasMore \<and> lastKey \<noteq> [] then lastKey else [], hasMore), s'))"

text \<open>\<^verbatim>\<open>List\<close> on a node without a cluster, where \<^verbatim>\<open>ListPage\<close> is \<^verbatim>\<open>ListLocal\<close>; \<open>dead i\<close> is the error
  of the caller's context before page \<open>i\<close>, if it has ended.\<close>

fun list_loop :: "nat \<Rightarrow> 'db ext_api \<Rightarrow> (nat \<Rightarrow> goerr option) \<Rightarrow> (nat \<Rightarrow> nat \<Rightarrow> bool) \<Rightarrow> (nat \<Rightarrow> nat \<Rightarrow> draw) \<Rightarrow> (nat \<Rightarrow> nat \<Rightarrow> int) \<Rightarrow> string
    \<Rightarrow> nat \<Rightarrow> string list \<Rightarrow> string \<Rightarrow> 'db storage \<Rightarrow> ((goerr + string list) \<times> 'db storage) option" where
  "list_loop 0 E dead ctx rnd now pre i allKeys token s = None"
| "list_loop (Suc n) E dead ctx rnd now pre i allKeys token s = (case dead i of Some err \<Rightarrow> Some (Inl err, s)
   | None \<Rightarrow> (case ListLocal E (ctx i) (rnd i) (now i) pre (list_limit MaxListLimit) token s of
       (Inl err, s') \<Rightarrow> Some (Inl err, s')
     | (Inr (keys, nextToken, hasMore), s') \<Rightarrow>
         if \<not> hasMore \<or> nextToken = [] then Some (Inr (allKeys @ keys), s')
         else list_loop n E dead ctx rnd now pre (Suc i) (allKeys @ keys) nextToken s'))"

definition List_keys :: "nat \<Rightarrow> 'db ext_api \<Rightarrow> (nat \<Rightarrow> goerr option) \<Rightarrow> (nat \<Rightarrow> nat \<Rightarrow> bool) \<Rightarrow> (nat \<Rightarrow> nat \<Rightarrow> draw) \<Rightarrow> (nat \<Rightarrow> nat \<Rightarrow> int) \<Rightarrow> string
    \<Rightarrow> 'db storage \<Rightarrow> ((goerr + string list) \<times> 'db storage) option" where
  "List_keys fuel E dead ctx rnd now pre s = list_loop fuel E dead ctx rnd now pre 0 [] [] s"

section \<open>Order and prefixes\<close>

lemma append_less [simp]: "(p @ a < p @ b) = (a < b)" "(p @ a \<le> p @ b) = (a \<le> (b :: 'a :: linorder list))"
  by (induction p) auto

lemma prefix_convex:
  assumes "a \<le> b" "b \<le> c" "prefix p a" "prefix p (c :: 'a :: linorder list)"
  shows "prefix p b"
  using assms
proof (induction p arbitrary: a b c)
  case (Cons x p)
  obtain u w where "a = (x # p) @ u" "c = (x # p) @ w" using Cons.prems(3,4) by (elim prefixE)
  then obtain a' c' where ac: "a = x # a'" "prefix p a'" "c = x # c'" "prefix p c'" by simp
  obtain y b' where b: "b = y # b'" using Cons.prems(1) ac(1) by (cases b) simp_all
  have "x < y \<or> x = y \<and> a' \<le> b'" "y < x \<or> y = x \<and> b' \<le> c'"
    using Cons.prems(1,2) by (simp_all add: ac b)
  then have "x = y \<and> a' \<le> b' \<and> b' \<le> c'" using less_asym [of x y] by blast
  then show ?case using Cons.IH [OF _ _ ac(2,4)] by (simp add: b)
qed simp

lemma prefix_le: "prefix p k \<Longrightarrow> p \<le> (k :: 'a :: linorder list)"
  by (induction p k rule: list_induct2') auto

text \<open>The rows of a scan: from the seek position on, with the boundary as prefix.\<close>

lemma take_prefix_rows:
  assumes "sorted_wrt (<) (map fst rows)" "\<And>r. r \<in> set rows \<Longrightarrow> a \<le> fst r" "prefix p (a :: bytes)"
  shows "takeWhile (\<lambda>r. prefix p (fst r)) rows = filter (\<lambda>r. prefix p (fst r)) rows"
  using assms(1,2)
proof (induction rows)
  case (Cons r rows)
  show ?case
  proof (cases "prefix p (fst r)")
    case False
    have "\<not> prefix p (fst x)" if "x \<in> set rows" for x
    proof
      assume "prefix p (fst x)"
      moreover have "a \<le> fst r" "fst r \<le> fst x" using Cons.prems that by auto
      ultimately show False using prefix_convex [of a "fst r" "fst x" p] assms(3) False by simp
    qed
    then show ?thesis using False by (auto simp: filter_empty_conv)
  qed (use Cons in auto)
qed simp

text \<open>What the loop returns, when an item does not depend on the position of its row.\<close>

lemma scan_page_result:
  assumes item: "\<And>i k v. item i k v = f (k, v)" and "limit > 0 \<longrightarrow> int (length acc) \<le> limit"
    and "scan_page item b limit i acc lk rows = (acc', lk', rest)"
  shows "acc' = (let all = acc @ List.map_filter f (takeWhile (\<lambda>r. prefix b (fst r)) rows) in if limit > 0 then take (nat limit) all else all)
    \<and> (valid_for_prefix b rest \<longrightarrow> limit > 0 \<and> int (length acc') = limit)
    \<and> (\<not> valid_for_prefix b rest \<longrightarrow> acc' = acc @ List.map_filter f (takeWhile (\<lambda>r. prefix b (fst r)) rows))
    \<and> (lk' = lk \<and> acc' = acc \<or> (\<exists>r e. r \<in> set rows \<and> prefix b (fst r) \<and> f r = Some e \<and> acc' \<noteq> [] \<and> last acc' = e \<and> lk' = ExtractUserKey (fst r)))
    \<and> set rest \<subseteq> set rows"
  using assms(2,3)
proof (induction rows arbitrary: i acc lk)
  case Nil
  then show ?case by (auto simp: valid_for_prefix_def List.map_filter_simps)
next
  case (Cons r rows)
  obtain k v where r: "r = (k, v)" by fastforce
  show ?case
  proof (cases "\<not> prefix b k \<or> limit > 0 \<and> int (length acc) \<ge> limit")
    case True
    then have "acc' = acc" "lk' = lk" "rest = r # rows" using Cons.prems(2) by (auto simp: r split: if_splits)
    then show ?thesis using True Cons.prems(1) by (auto simp: r valid_for_prefix_def List.map_filter_simps Let_def)
  next
    case go: False
    show ?thesis
    proof (cases "f (k, v)")
      case None
      then have run: "scan_page item b limit (Suc i) acc lk rows = (acc', lk', rest)" using go Cons.prems(2) item [of i k v] by (simp add: r split: if_splits)
      show ?thesis using Cons.IH [OF Cons.prems(1) run] go None by (auto simp: r List.map_filter_simps)
    next
      case (Some e)
      then have run: "scan_page item b limit (Suc i) (acc @ [e]) (ExtractUserKey k) rows = (acc', lk', rest)"
        using go Cons.prems(2) item [of i k v] by (simp add: r split: if_splits)
      have len: "limit > 0 \<longrightarrow> int (length (acc @ [e])) \<le> limit" using go by auto
      note H = Cons.IH [OF len run]
      have R: "acc @ List.map_filter f (takeWhile (\<lambda>r. prefix b (fst r)) (r # rows))
          = (acc @ [e]) @ List.map_filter f (takeWhile (\<lambda>r. prefix b (fst r)) rows)"
        using go Some by (simp add: r List.map_filter_simps)
      have ex: "\<exists>x y. x \<in> set (r # rows) \<and> prefix b (fst x) \<and> f x = Some y \<and> acc' \<noteq> [] \<and> last acc' = y \<and> lk' = ExtractUserKey (fst x)"
        using H go Some by (metis append_is_Nil_conv fst_conv last_snoc list.set_intros not_Cons_self2 r)
      have sub: "set rest \<subseteq> set (r # rows)" using H by (simp add: subset_insertI2)
      show ?thesis
        unfolding R by (intro conjI disjI2 [OF ex] sub) (use H in \<open>blast intro: H [THEN conjunct1]\<close>)+
    qed
  qed
qed

lemma scan_page_map:
  assumes "\<And>i k v. (k, v) \<in> set rows \<Longrightarrow> prefix b k \<Longrightarrow> item' i k v = map_option g (item i k v)"
    and "scan_page item b limit i acc lk rows = (acc', lk', rest)"
  shows "scan_page item' b limit i (map g acc) lk rows = (map g acc', lk', rest)"
  using assms
proof (induction rows arbitrary: i acc lk)
  case (Cons r rows)
  obtain k v where r: "r = (k, v)" by fastforce
  have item: "item' i k v = map_option g (item i k v)" if "prefix b k" using Cons.prems(1) [of k v i] that by (simp add: r)
  have IH: "scan_page item b limit (Suc i) acc lk rows = (acc', lk', rest)
      \<Longrightarrow> scan_page item' b limit (Suc i) (map g acc) lk rows = (map g acc', lk', rest)" for acc lk
    by (rule Cons.IH) (use Cons.prems(1) in auto)
  show ?case
    using Cons.prems(2) item IH [of acc lk] IH [of "acc @ [the (item i k v)]" "ExtractUserKey k"]
    by (cases "item i k v") (auto simp: r split: if_splits)
qed simp

section \<open>Pages of keys\<close>

definition row_unexpired :: "'a proto_api_scheme \<Rightarrow> int \<Rightarrow> bytes \<Rightarrow> bool" where
  "row_unexpired P now v = (case valueMessageExpiry P v of Some expiry \<Rightarrow> \<not> (expiry > 0 \<and> now \<ge> expiry) | None \<Rightarrow> True)"

text \<open>The keys a listing from a start key on should show.\<close>

definition listable :: "'a proto_api_scheme \<Rightarrow> int \<Rightarrow> view \<Rightarrow> string \<Rightarrow> string \<Rightarrow> string set" where
  "listable P now m pre start = {k. prefix pre k \<and> (start = [] \<or> start < k)
     \<and> (\<exists>v. m (MakeMetadataKey k) = Some v \<and> row_unexpired P now v)}"

lemma boundary_simps: "prefix_boundary pre = MetadataPrefix @ pre"
  "seek_key pre start = MetadataPrefix @ (if start \<noteq> [] then start else pre)"
  by (simp_all add: prefix_boundary_def seek_key_def MakeMetadataKey_def)

lemma key_item_rows: "List.map_filter (\<lambda>(k, v). key_item P (\<lambda>i. now) 0 k v) R
    = map (\<lambda>r. ExtractUserKey (fst r)) (filter (\<lambda>r. row_unexpired P now (snd r)) R)"
  by (induction R) (auto simp: List.map_filter_simps key_item_def row_unexpired_def split: option.splits if_splits)

lemma skipped_rows:
  assumes "sorted_wrt (<) (map fst rows)" "\<And>r. r \<in> set rows \<Longrightarrow> seek_key pre start \<le> fst r"
  shows "filter (\<lambda>r. prefix (prefix_boundary pre) (fst r)) (skip_start start rows)
    = filter (\<lambda>r. prefix (prefix_boundary pre) (fst r) \<and> (start = [] \<or> fst r \<noteq> MakeMetadataKey start)) rows"
proof (cases rows)
  case (Cons r rs)
  show ?thesis
  proof (cases "start = []")
    case True
    then show ?thesis by (simp add: Cons skip_start_def)
  next
    case False
    have "fst x \<noteq> MakeMetadataKey start" if "x \<in> set rs" for x
    proof (rule less_imp_neq [THEN not_sym])
      have "MakeMetadataKey start \<le> fst r" using assms(2) [of r] False by (simp add: Cons boundary_simps MakeMetadataKey_def)
      also have "fst r < fst x" using assms(1) that by (simp add: Cons)
      finally show "MakeMetadataKey start < fst x" .
    qed
    then have rs: "filter (\<lambda>r. prefix (prefix_boundary pre) (fst r) \<and> (start = [] \<or> fst r \<noteq> MakeMetadataKey start)) rs
        = filter (\<lambda>r. prefix (prefix_boundary pre) (fst r)) rs"
      by (intro filter_cong refl) simp
    have "ExtractUserKey (fst r) = start \<longleftrightarrow> fst r = MakeMetadataKey start" if "prefix (prefix_boundary pre) (fst r)"
      using that by (auto simp: boundary_simps ExtractUserKey_def MakeMetadataKey_def prefix_def)
    then show ?thesis using rs False by (auto simp: Cons skip_start_def)
  qed
qed (simp add: skip_start_def)

lemma rows_listed:
  assumes rows: "rows_from m (seek_key pre start) rows" and start: "start = [] \<or> prefix pre start"
    and R: "R = takeWhile (\<lambda>r. prefix (prefix_boundary pre) (fst r)) (skip_start start rows)"
    and ks: "ks = map (\<lambda>r. ExtractUserKey (fst r)) (filter (\<lambda>r. row_unexpired P now (snd r)) R)"
  shows "sorted_wrt (<) ks" "set ks = listable P now m pre start"
proof -
  have srt: "sorted_wrt (<) (map fst rows)" and mem: "r \<in> set rows \<longleftrightarrow> seek_key pre start \<le> fst r \<and> m (fst r) = Some (snd r)" for r
    using rows by (auto simp: rows_from_def)
  have "skip_start start rows = rows \<or> skip_start start rows = tl rows" by (simp add: skip_start_def split: list.split)
  then have sk: "sorted_wrt (<) (map fst (skip_start start rows))" "set (skip_start start rows) \<subseteq> set rows"
    using srt by (cases rows; auto)+
  have "prefix (prefix_boundary pre) (seek_key pre start)" using start by (auto simp: boundary_simps)
  then have "R = filter (\<lambda>r. prefix (prefix_boundary pre) (fst r)) (skip_start start rows)"
    unfolding R using sk mem by (intro take_prefix_rows [where a = "seek_key pre start"]) blast+
  also have "\<dots> = filter (\<lambda>r. prefix (prefix_boundary pre) (fst r) \<and> (start = [] \<or> fst r \<noteq> MakeMetadataKey start)) rows"
    using mem by (intro skipped_rows [OF srt]) blast
  finally have R': "R = filter (\<lambda>r. prefix (prefix_boundary pre) (fst r) \<and> (start = [] \<or> fst r \<noteq> MakeMetadataKey start)) rows" .
  have key: "fst r = MakeMetadataKey (ExtractUserKey (fst r))" if "r \<in> set R" for r
    using that by (auto simp: R' boundary_simps ExtractUserKey_def MakeMetadataKey_def prefix_def)
  have lt: "ExtractUserKey (fst x) < ExtractUserKey (fst y)" if "x \<in> set R" "y \<in> set R" "fst x < fst y" for x y
    using that(3) unfolding arg_cong2 [OF key [OF that(1)] key [OF that(2)], of "(<)"] by (simp add: MakeMetadataKey_def)
  have "sorted_wrt (\<lambda>x y. fst x < fst y) (filter (\<lambda>r. row_unexpired P now (snd r)) R)"
    using srt by (simp add: R' sorted_wrt_map sorted_wrt_filter)
  then have "sorted_wrt (\<lambda>x y. ExtractUserKey (fst x) < ExtractUserKey (fst y)) (filter (\<lambda>r. row_unexpired P now (snd r)) R)"
    by (rule sorted_wrt_mono_rel [rotated]) (use lt in auto)
  then show "sorted_wrt (<) ks" by (simp add: ks sorted_wrt_map)
  show "set ks = listable P now m pre start"
  proof (intro set_eqI iffI)
    fix k assume "k \<in> set ks"
    then obtain r where r: "r \<in> set R" "row_unexpired P now (snd r)" "k = ExtractUserKey (fst r)" by (auto simp: ks)
    have "r = (MakeMetadataKey k, snd r)" using key [OF r(1)] r(3) by (metis prod.collapse)
    then obtain v where "(MakeMetadataKey k, v) \<in> set R" "row_unexpired P now v" using r by metis
    then show "k \<in> listable P now m pre start"
      using mem [of "(MakeMetadataKey k, v)"] by (auto simp: listable_def R' boundary_simps MakeMetadataKey_def split: if_splits)
  next
    fix k assume k: "k \<in> listable P now m pre start"
    then obtain v where v: "m (MakeMetadataKey k) = Some v" "row_unexpired P now v" by (auto simp: listable_def)
    then have "(MakeMetadataKey k, v) \<in> set R"
      using k mem [of "(MakeMetadataKey k, v)"] prefix_le [of pre k]
      by (auto simp: listable_def R' boundary_simps MakeMetadataKey_def)
    then show "k \<in> set ks" using v(2) by (force simp: ks ExtractUserKey_def MakeMetadataKey_def)
  qed
qed

context rocksdb
begin

lemma list_page_rows:
  assumes page: "ListKeysWithPagination E (\<lambda>i. now) pre start limit s = (Inr (keys, lk, hm), s')"
    and start: "start = [] \<or> prefix pre start"
  shows "\<exists>ks. sorted_wrt (<) ks \<and> set ks = listable E now (view (st_meta s)) pre start
    \<and> keys = (if limit > 0 then take (nat limit) ks else ks) \<and> (hm \<longrightarrow> limit > 0 \<and> int (length keys) = limit \<and> lk = last keys)
    \<and> (\<not> hm \<longrightarrow> keys = ks \<and> lk = [])" "meta_only s s'" "view (st_meta s') = view (st_meta s)"
proof -
  let ?b = "prefix_boundary pre" and ?k = "seek_key pre start" and ?item = "key_item E (\<lambda>i. now)"
  obtain rows err d where sk: "db_seek E (st_meta s) ?k = ((rows, err), d)" by (metis prod.collapse)
  obtain acc lk' rest where sc: "scan_page ?item ?b limit 0 [] [] (skip_start start rows) = (acc, lk', rest)" by (metis prod_cases3)
  note run = page [unfolded ListKeysWithPagination_def paged_scan_def meta_seek_def, simplified sk sc prod.case]
  have err: "err = None" using run by (cases err) auto
  note res = run [unfolded err, simplified Let_def option.case]
  show "meta_only s s'" "view (st_meta s') = view (st_meta s)"
    using res seek_view [of "st_meta s" ?k] by (auto simp: sk)
  have rows: "rows_from (view (st_meta s)) ?k rows" using seek_ok [of "st_meta s" ?k rows] by (simp add: sk err)
  let ?R = "takeWhile (\<lambda>r. prefix ?b (fst r)) (skip_start start rows)"
  obtain ks where ks: "ks = map (\<lambda>r. ExtractUserKey (fst r)) (filter (\<lambda>r. row_unexpired E now (snd r)) ?R)" by simp
  have item: "?item i k v = (\<lambda>(k, v). ?item 0 k v) (k, v)" for i k v by (simp add: key_item_def)
  note scan = scan_page_result [OF item _ sc, unfolded key_item_rows ks [symmetric], simplified]
  have hm: "hm \<longleftrightarrow> valid_for_prefix ?b rest" "keys = acc" "lk = (if hm then lk' else [])"
    using res by (auto simp: valid_for_prefix_def boundary_simps ExtractUserKey_def prefix_def split: list.splits)
  have "lk' = last acc" if "acc \<noteq> []"
    using scan that by (auto simp: key_item_def split: option.splits if_splits)
  then show "\<exists>ks. sorted_wrt (<) ks \<and> set ks = listable E now (view (st_meta s)) pre start
    \<and> keys = (if limit > 0 then take (nat limit) ks else ks) \<and> (hm \<longrightarrow> limit > 0 \<and> int (length keys) = limit \<and> lk = last keys)
    \<and> (\<not> hm \<longrightarrow> keys = ks \<and> lk = [])"
    using scan hm rows_listed [OF rows start refl ks]
    by (intro exI [of _ ks]) (auto simp: Let_def)
qed

lemma list_page_state:
  "meta_only s (snd (ListKeysWithPagination E now pre start limit s))"
  "view (st_meta (snd (ListKeysWithPagination E now pre start limit s))) = view (st_meta s)"
proof -
  have "snd (ListKeysWithPagination E now pre start limit s) = s\<lparr>st_meta := snd (db_seek E (st_meta s) (seek_key pre start))\<rparr>"
    by (simp add: ListKeysWithPagination_def paged_scan_def meta_seek_def Let_def split: prod.split option.split)
  then show "meta_only s (snd (ListKeysWithPagination E now pre start limit s))"
    "view (st_meta (snd (ListKeysWithPagination E now pre start limit s))) = view (st_meta s)"
    using seek_view by simp_all
qed

lemma ListLocal_page:
  assumes "ListLocal E ctx rnd now pre limit token s = (r, s')"
  shows "view (st_meta s') = view (st_meta s)"
    "r = Inr (keys, tok, hm) \<Longrightarrow> \<exists>s0 lk. ListKeysWithPagination E now pre token (list_limit limit) s0 = (Inr (keys, lk, hm), s')
      \<and> view (st_meta s0) = view (st_meta s) \<and> tok = (if hm \<and> lk \<noteq> [] then lk else [])"
proof -
  define fn where "fn = (\<lambda>(r :: string list \<times> string \<times> bool, s). case ListKeysWithPagination E now pre token (list_limit limit) s of
     (Inl err, s') \<Rightarrow> (Some err, (([], [], False), s')) | (Inr page, s') \<Rightarrow> (None, (page, s')))"
  let ?P = "\<lambda>x :: (string list \<times> string \<times> bool) \<times> _. view (st_meta (snd x)) = view (st_meta s)"
  obtain x where x: "Do ctx rnd DefaultConfig ''ListKeysWithPagination'' fn (([], [], False), s) = x" by simp
  obtain e p s2 w where run: "x = (e, (p, s2), w)" by (cases x) auto
  have step: "?P (snd (fn y))" if "?P y" for y
    using that list_page_state(2) [of now pre token "list_limit limit" "snd y"]
    by (cases y) (auto simp: fn_def split: prod.split sum.split)
  have kept: "?P (p, s2) \<and> (e = None \<longrightarrow> (\<exists>y. ?P y \<and> fn y = (None, (p, s2))))"
    using retry_loop_kept [where P = ?P, OF x [unfolded run Do_def DoWithKey_def] _ step] by (simp add: DefaultConfig_def)
  have res: "(r, s') = (case e of Some err \<Rightarrow> (Inl err, s2)
     | None \<Rightarrow> (case p of (keys, lk, hm) \<Rightarrow> (Inr (keys, if hm \<and> lk \<noteq> [] then lk else [], hm), s2)))"
    using assms unfolding ListLocal_def fn_def [symmetric] x run by (cases e; cases p) auto
  show "view (st_meta s') = view (st_meta s)"
    using res kept by (auto split: option.splits prod.splits)
  assume r: "r = Inr (keys, tok, hm)"
  then obtain lk where e: "e = None" "p = (keys, lk, hm)" "s2 = s'" "tok = (if hm \<and> lk \<noteq> [] then lk else [])"
    using res by (cases e; cases p) auto
  then obtain y where "?P y" "fn y = (None, ((keys, lk, hm), s'))" using kept by auto
  then have "ListKeysWithPagination E now pre token (list_limit limit) (snd y) = (Inr (keys, lk, hm), s')"
    by (auto simp: fn_def split: prod.splits sum.splits)
  then show "\<exists>s0 lk. ListKeysWithPagination E now pre token (list_limit limit) s0 = (Inr (keys, lk, hm), s')
      \<and> view (st_meta s0) = view (st_meta s) \<and> tok = (if hm \<and> lk \<noteq> [] then lk else [])"
    using \<open>?P y\<close> e(4) by blast
qed

lemma list_loop_exact:
  assumes "token = [] \<or> prefix pre token" "[] \<notin> listable E now (view (st_meta s)) pre []"
    "card (listable E now (view (st_meta s)) pre token) < fuel"
  shows "\<exists>r s'. list_loop fuel E dead ctx rnd (\<lambda>i j. now) pre i allKeys token s = Some (r, s')
    \<and> (\<forall>keys. r = Inr keys \<longrightarrow> (\<exists>ks. keys = allKeys @ ks \<and> sorted_wrt (<) ks \<and> set ks = listable E now (view (st_meta s)) pre token))"
  using assms
proof (induction fuel arbitrary: i allKeys token s)
  case (Suc fuel)
  let ?m = "view (st_meta s)"
  obtain r s1 where page: "ListLocal E (ctx i) (rnd i) (\<lambda>j. now) pre (list_limit MaxListLimit) token s = (r, s1)" by fastforce
  note s1 = ListLocal_page(1) [OF page]
  have lim: "list_limit (list_limit MaxListLimit) = 1000" by (simp add: list_limit_def MaxListLimit_def)
  consider err where "dead i = Some err" | err where "dead i = None" "r = Inl err"
    | keys tok hm where "dead i = None" "r = Inr (keys, tok, hm)" by (cases "dead i"; cases r) auto
  then show ?case
  proof cases
    case (3 keys tok hm)
    obtain s0 lk where lk: "ListKeysWithPagination E (\<lambda>j. now) pre token 1000 s0 = (Inr (keys, lk, hm), s1)"
      "view (st_meta s0) = ?m" "tok = (if hm \<and> lk \<noteq> [] then lk else [])"
      using ListLocal_page(2) [OF page 3(2)] lim by auto
    obtain ks where H: "sorted_wrt (<) ks \<and> set ks = listable E now (view (st_meta s0)) pre token
      \<and> keys = (if (1000 :: int) > 0 then take (nat 1000) ks else ks) \<and> (hm \<longrightarrow> (1000 :: int) > 0 \<and> int (length keys) = 1000 \<and> lk = last keys)
      \<and> (\<not> hm \<longrightarrow> keys = ks \<and> lk = [])"
      using list_page_rows(1) [OF lk(1) Suc.prems(1)] by blast
    have ks: "sorted_wrt (<) ks" "set ks = listable E now ?m pre token" "keys = take 1000 ks"
      "hm \<longrightarrow> length keys = 1000 \<and> lk = last keys" "\<not> hm \<longrightarrow> keys = ks"
      using H lk(2) by auto
    show ?thesis
    proof (cases hm)
      case False
      then show ?thesis using 3 page ks by auto
    next
      case True
      have len: "length keys = 1000" "lk = last keys" using ks(4) True by auto
      then have lkin: "lk \<in> set keys" using last_in_set [of keys] by (cases "keys = []") simp_all
      then have "lk \<in> listable E now ?m pre token" using ks(2,3) by (auto dest: in_set_takeD)
      then have lk0: "lk \<noteq> []" "prefix pre lk" "token = [] \<or> token < lk"
        using Suc.prems(2) by (auto simp: listable_def)
      have srt: "sorted ks" "distinct ks" using ks(1) strict_sorted_iff by auto
      have "filter ((<) lk) ks = drop 1000 ks"
      proof (cases "1000 < length ks")
        case True
        then show ?thesis using filter_after_take [OF srt, of 1000] len ks(3) by simp
      next
        case False
        then show ?thesis using sorted_last [OF srt(1)] len ks(3) by (auto simp: filter_empty_conv not_less)
      qed
      moreover have "listable E now ?m pre lk = {k \<in> listable E now ?m pre token. lk < k}"
        using lk0 by (auto simp: listable_def intro: less_trans)
      ultimately have rest: "set (drop 1000 ks) = listable E now ?m pre lk" using ks(2) by (metis set_filter)
      have "card (listable E now ?m pre lk) < fuel"
        using Suc.prems(3) len ks(3) unfolding rest [symmetric] ks(2) [symmetric] by (simp add: distinct_card [OF srt(2)] distinct_card [OF distinct_drop [OF srt(2)]])
      then obtain r' s' where IH: "list_loop fuel E dead ctx rnd (\<lambda>i j. now) pre (Suc i) (allKeys @ keys) lk s1 = Some (r', s')"
        "\<forall>keys'. r' = Inr keys' \<longrightarrow> (\<exists>ks. keys' = (allKeys @ keys) @ ks \<and> sorted_wrt (<) ks \<and> set ks = listable E now ?m pre lk)"
        using Suc.IH [of lk s1 "Suc i" "allKeys @ keys"] lk0 Suc.prems(2) s1 by auto
      have "\<exists>ks'. keys' = allKeys @ ks' \<and> sorted_wrt (<) ks' \<and> set ks' = listable E now ?m pre token" if r': "r' = Inr keys'" for keys'
      proof -
        obtain ks2 where ks2: "keys' = (allKeys @ keys) @ ks2" "sorted_wrt (<) ks2" "set ks2 = set (drop 1000 ks)"
          using IH(2) r' rest by auto
        then have "ks2 = drop 1000 ks" using ks(1)
          by (intro sorted_distinct_set_unique) (auto simp: strict_sorted_iff)
        then show ?thesis using ks2(1) ks by auto
      qed
      then show ?thesis using IH(1) 3 page True lk(3) lk0(1) by auto
    qed
  qed (use page in auto)
qed simp

end

section \<open>Properties\<close>

lemma demo_page:
  "ListKeysWithPagination mem_ext (\<lambda>i. now) [] [] 1000 (demo_store [(MakeMetadataKey ''k'', demo_row)] [])
    = (Inr ([''k''], [], False), demo_store [(MakeMetadataKey ''k'', demo_row)] [])"
  using mem.scanned_expiry [OF demo_row] prefix_le [of MetadataPrefix "MetadataPrefix @ ''k''"]
  by (simp add: ListKeysWithPagination_def paged_scan_def meta_seek_def boundary_simps demo_store_def mem_seek_def pop_error_def
      MakeMetadataKey_def skip_start_def key_item_def ExtractUserKey_def valid_for_prefix_def Let_def)

text \<open>C23: listing a node is complete and ends.  While no row expires and the rows do not change, and
  if the empty key is not among those to be listed, \<^verbatim>\<open>List\<close> returns within one page more
  than there are keys to list; unless it reports an error, what it returns is, in order
  and each once, the keys with the prefix whose rows are present and not expired.\<close>

theorem local_list_complete:
  assumes "rocksdb E tag var byt view" "[] \<notin> listable E now (view (st_meta s)) pre []"
  shows "\<exists>r s'. List_keys (Suc (card (listable E now (view (st_meta s)) pre []))) E dead ctx rnd (\<lambda>i j. now) pre s = Some (r, s')
    \<and> (\<forall>keys. r = Inr keys \<longrightarrow> sorted_wrt (<) keys \<and> set keys = listable E now (view (st_meta s)) pre [])"
  using rocksdb.list_loop_exact [OF assms(1) _ assms(2), of "[]" "Suc (card (listable E now (view (st_meta s)) pre []))"]
  unfolding List_keys_def by force

theorem local_list_complete_witness:
  "\<exists>s'. List_keys 2 mem_ext (\<lambda>i. None) (\<lambda>i j. False) (\<lambda>i j. (0, True)) (\<lambda>i j. 5) [] (demo_store [(MakeMetadataKey ''k'', demo_row)] [])
      = Some (Inr [''k''], s')"
proof -
  let ?s = "demo_store [(MakeMetadataKey ''k'', demo_row)] []"
  have L: "listable mem_ext 5 (mem_view (st_meta ?s)) [] [] = {''k''}"
    using mem.scanned_expiry [OF demo_row] by (auto simp: listable_def demo_store_def row_unexpired_def MakeMetadataKey_def)
  have page: "ListLocal mem_ext (\<lambda>j. False) (\<lambda>j. (0, True)) (\<lambda>j. 5) [] 1000 [] ?s = (Inr ([''k''], [], False), ?s)"
    using demo_page [of 5] by (simp add: eval_nat_numeral ListLocal_def Do_def DoWithKey_def DefaultConfig_def list_limit_def MaxListLimit_def DefaultListLimit_def)
  have "\<exists>s'. List_keys (Suc (card {''k''})) mem_ext (\<lambda>i. None) (\<lambda>i j. False) (\<lambda>i j. (0, True)) (\<lambda>i j. 5) [] ?s = Some (Inr [''k''], s')"
    using page by (simp add: List_keys_def list_limit_def MaxListLimit_def)
  then show ?thesis
    using local_list_complete [OF mem.rocksdb_axioms, of 5 ?s "[]" "\<lambda>i. None" "\<lambda>i j. False" "\<lambda>i j. (0, True)"] L
    by (auto simp: eval_nat_numeral)
qed

text \<open>C32: listing keys and listing values give the same pages.  On rows the program encoded, the
  listing with values shows, for every prefix, start and limit, the keys the listing of
  keys shows, with the same continuation, though the one scans a row for its expiry and
  the other decodes it; an entry without its bytes says so or could not be read.\<close>

theorem values_list_agrees:
  assumes "rocksdb E tag var byt view"
    and rows: "\<forall>k v. view (st_meta s) k = Some v \<and> prefix MetadataPrefix k \<longrightarrow> (\<exists>vm. marshal E vm = Some v)"
  shows "case (ListKeysWithPagination E now pre start limit s, ListKeyValuesWithPagination E now pre start limit s) of
      ((Inr (keys, lk, hm), s1), (Inr (entries, lk', hm'), s2)) \<Rightarrow>
        map kv_Key entries = keys \<and> lk' = lk \<and> hm' = hm \<and> s2 = s1
    | ((Inl e, s1), (Inl e', s2)) \<Rightarrow> s2 = s1 | _ \<Rightarrow> False"
proof -
  let ?b = "prefix_boundary pre" and ?k = "seek_key pre start"
  obtain rs err d where sk: "db_seek E (st_meta s) ?k = ((rs, err), d)" by (metis prod.collapse)
  obtain acc lk rest where sc: "scan_page (kv_item E now s) ?b limit 0 [] [] (skip_start start rs) = (acc, lk, rest)"
    by (metis prod_cases3)
  show ?thesis
  proof (cases err)
    case None
    have "key_item E now i k v = map_option kv_Key (kv_item E now s i k v)" if "(k, v) \<in> set (skip_start start rs)" "prefix ?b k" for i k v
    proof -
      have "(k, v) \<in> set rs" using that(1) by (auto simp: skip_start_def split: list.splits if_splits)
      then have "view (st_meta s) k = Some v"
        using rocksdb.seek_ok [OF assms(1), of "st_meta s" ?k rs] by (auto simp: sk None rows_from_def)
      moreover have "prefix MetadataPrefix k" using that(2) by (auto simp: boundary_simps prefix_def)
      ultimately obtain vm where vm: "marshal E vm = Some v" using rows by blast
      have "valueMessageExpiry E v = Some (Expiry vm)" "unmarshal E v = Some vm"
        using rocksdb.axioms(1) [OF assms(1)] vm protowire.scanned_expiry protobuf.unmarshal_marshal protowire.axioms(1) by blast+
      then show ?thesis by (simp add: key_item_def kv_item_def Let_def)
    qed
    then have "scan_page (key_item E now) ?b limit 0 [] [] (skip_start start rs) = (map kv_Key acc, lk, rest)"
      using scan_page_map [OF _ sc, of "key_item E now" kv_Key] by simp
    then show ?thesis
      by (simp add: ListKeysWithPagination_def ListKeyValuesWithPagination_def paged_scan_def meta_seek_def sk sc None Let_def)
  qed (simp add: ListKeysWithPagination_def ListKeyValuesWithPagination_def paged_scan_def meta_seek_def sk split: prod.split)
qed

theorem values_list_agrees_witness:
  "map_prod (map_sum id (\<lambda>(es, lk, hm). (map kv_Key es, lk, hm))) id
     (ListKeyValuesWithPagination mem_ext (\<lambda>i. 5) [] [] 1000 (demo_store [(MakeMetadataKey ''k'', demo_row)] []))
   = (Inr ([''k''], [], False), demo_store [(MakeMetadataKey ''k'', demo_row)] [])"
proof -
  let ?s = "demo_store [(MakeMetadataKey ''k'', demo_row)] []"
  have rows: "\<forall>k v. mem_view (st_meta ?s) k = Some v \<and> prefix MetadataPrefix k \<longrightarrow> (\<exists>vm. marshal mem_ext vm = Some v)"
    using demo_row by (auto simp: demo_store_def split: if_splits)
  show ?thesis
    using values_list_agrees [OF mem.rocksdb_axioms rows, of "\<lambda>i. 5" "[]" "[]" 1000] unfolding demo_page
    by (auto split: prod.splits sum.splits)
qed

end
