(* ===== verification/ClusterList.thy ===== *)
theory ClusterList
  imports Listing "HOL-Library.AList"
begin

text \<open>
  Listing a cluster (\<^verbatim>\<open>src/server/operations/list.go\<close>): \<^verbatim>\<open>fetchFromAllNodes\<close> asks every active
  node for its next keys, \<^verbatim>\<open>kWayMerge\<close> merges the sorted answers through a heap, and
  \<^verbatim>\<open>listClusterWide\<close> carries a cursor per node in the continuation token.  A map that is
  iterated is a list of pairs in the order of the iteration.  The heap is the list of its
  elements; \<open>Pop\<close> takes the first with the least key, one of those \<^verbatim>\<open>container/heap\<close> may
  return.  What a node answers is an argument: \<open>ask\<close> gives, for a node and a start key,
  the node's response, or nothing if the node is skipped because it failed.
\<close>

section \<open>Continuation tokens\<close>

type_synonym cursors = "(string \<times> string) list"

text \<open>A token as the program reads it: none, the base64 form of a JSON object with cursors and
  prefix, or any other text, which is a plain start key.\<close>

datatype continuation = NoToken | PlainKey string | ClusterToken cursors string

definition parseContinuationToken :: "continuation \<Rightarrow> string \<Rightarrow> (cursors \<times> bool) result" where
  "parseContinuationToken token pre = (case token of
     NoToken \<Rightarrow> Inr ([], False)
   | PlainKey k \<Rightarrow> Inr ([], True)
   | ClusterToken cs p \<Rightarrow>
       if p \<noteq> pre then Inl (''prefix mismatch: token has '' @ p @ '', request has '' @ pre) else Inr (cs, False))"

definition encodeContinuationToken :: "cursors \<Rightarrow> string \<Rightarrow> continuation" where
  "encodeContinuationToken nodeCursors pre = (if nodeCursors = [] then NoToken else ClusterToken nodeCursors pre)"

section \<open>Responses\<close>

record NodeResponse =
  nr_Keys :: "string list"
  nr_Entries :: "(string \<times> bytes) list"
  nr_ContinuationToken :: string
  nr_HasMore :: bool

definition itemCount :: "NodeResponse \<Rightarrow> nat" where
  "itemCount nr = (if length (nr_Entries nr) > 0 then length (nr_Entries nr) else length (nr_Keys nr))"

definition keyAt :: "NodeResponse \<Rightarrow> nat \<Rightarrow> string" where
  "keyAt nr i = (if length (nr_Entries nr) > 0 then fst (nr_Entries nr ! i) else nr_Keys nr ! i)"

definition start_key :: "cursors \<Rightarrow> string \<Rightarrow> string" where
  "start_key nodeCursors n = (case map_of nodeCursors n of Some cursor \<Rightarrow> cursor | None \<Rightarrow> [])"

definition fetchFromAllNodes :: "(string \<Rightarrow> string \<Rightarrow> NodeResponse option) \<Rightarrow> goerr option \<Rightarrow> string list \<Rightarrow> cursors
    \<Rightarrow> goerr + (string \<times> NodeResponse) list" where
  "fetchFromAllNodes ask cerr nodes nodeCursors =
    (let responses = List.map_filter (\<lambda>n. map_option (Pair n) (ask n (start_key nodeCursors n))) nodes
     in case cerr of Some err \<Rightarrow> Inl err | None \<Rightarrow> Inr responses)"

section \<open>The merge\<close>

record merge_state =
  ms_heap :: "(string \<times> string) list"
  ms_cursors :: cursors
  ms_indices :: "string \<Rightarrow> int"
  ms_Keys :: "string list"
  ms_Entries :: "(string \<times> bytes) list"
  ms_seen :: "string set"

fun heap_min :: "(string \<times> string) list \<Rightarrow> string \<times> string" where
  "heap_min [] = ([], [])"
| "heap_min [x] = x"
| "heap_min (x # y # h) = (let m = heap_min (y # h) in if fst m < fst x then m else x)"

text \<open>Priming the heap, and one iteration: pop, record the cursor, add the key unless it was
  seen, and push the node's next key.\<close>

definition prime :: "(string \<times> NodeResponse) list \<Rightarrow> merge_state" where
  "prime responses = \<lparr>ms_heap = map (\<lambda>(n, nr). (keyAt nr 0, n)) (filter (\<lambda>(n, nr). itemCount nr > 0) responses),
     ms_cursors = [], ms_indices = (\<lambda>n. case map_of responses n of Some nr \<Rightarrow> if itemCount nr > 0 then 0 else -1 | None \<Rightarrow> 0),
     ms_Keys = [], ms_Entries = [], ms_seen = {}\<rparr>"

definition merge_step :: "(string \<Rightarrow> NodeResponse) \<Rightarrow> bool \<Rightarrow> merge_state \<Rightarrow> merge_state" where
  "merge_step resp withValues st =
    (let (key, n) = heap_min (ms_heap st); h = remove1 (key, n) (ms_heap st);
         nr = resp n; idx = ms_indices st n; nextIndex = idx + 1;
         st = st\<lparr>ms_heap := h, ms_cursors := AList.update n key (ms_cursors st)\<rparr>;
         st = (if key \<notin> ms_seen st then st\<lparr>ms_Keys := ms_Keys st @ [key], ms_seen := insert key (ms_seen st),
                 ms_Entries := (if withValues then ms_Entries st @ [nr_Entries nr ! nat idx] else ms_Entries st)\<rparr> else st)
     in if nextIndex < int (itemCount nr)
        then st\<lparr>ms_heap := h @ [(keyAt nr (nat nextIndex), n)], ms_indices := (ms_indices st)(n := nextIndex)\<rparr>
        else st)"

lemma heap_min_in: "h \<noteq> [] \<Longrightarrow> heap_min h \<in> set h"
  by (induction h rule: heap_min.induct) (auto simp: Let_def)

lemma heap_min_le: "x \<in> set h \<Longrightarrow> fst (heap_min h) \<le> fst x"
  by (induction h rule: heap_min.induct) (auto simp: Let_def intro: order.trans order.strict_implies_order)

definition merge_measure :: "(string \<Rightarrow> NodeResponse) \<Rightarrow> merge_state \<Rightarrow> nat" where
  "merge_measure resp st = (\<Sum>x\<leftarrow>ms_heap st. Suc (nat (int (itemCount (resp (snd x))) - ms_indices st (snd x))))"

lemma sum_list_remove1: "x \<in> set xs \<Longrightarrow> (\<Sum>y\<leftarrow>xs. f y) = f x + (\<Sum>y\<leftarrow>remove1 x xs. f y :: nat)"
  by (induction xs) auto

lemma merge_step_fields:
  assumes "heap_min (ms_heap st) = (key, n)"
  defines "next \<equiv> ms_indices st n + 1"
  shows "ms_heap (merge_step resp wv st) = remove1 (key, n) (ms_heap st)
      @ (if next < int (itemCount (resp n)) then [(keyAt (resp n) (nat next), n)] else [])"
    "ms_indices (merge_step resp wv st) = (if next < int (itemCount (resp n)) then (ms_indices st)(n := next) else ms_indices st)"
    "ms_Keys (merge_step resp wv st) = ms_Keys st @ (if key \<in> ms_seen st then [] else [key])"
    "ms_seen (merge_step resp wv st) = insert key (ms_seen st)"
    "ms_cursors (merge_step resp wv st) = AList.update n key (ms_cursors st)"
  using assms by (auto simp: merge_step_def Let_def)

lemma merge_step_decreases:
  assumes "ms_heap st \<noteq> []"
  shows "merge_measure resp (merge_step resp wv st) < merge_measure resp st"
proof -
  obtain key n where m: "heap_min (ms_heap st) = (key, n)" by fastforce
  have mem: "(key, n) \<in> set (ms_heap st)" using heap_min_in [OF assms] m by simp
  let ?h = "remove1 (key, n) (ms_heap st)" and ?idx = "ms_indices st"
  let ?f = "\<lambda>ix x. Suc (nat (int (itemCount (resp (snd x))) - ix (snd x)))"
  have split: "merge_measure resp st = ?f ?idx (key, n) + (\<Sum>y\<leftarrow>?h. ?f ?idx y)"
    using sum_list_remove1 [OF mem, of "?f ?idx"] by (simp add: merge_measure_def)
  have mono: "(\<Sum>y\<leftarrow>?h. ?f (?idx(n := ?idx n + 1)) y) \<le> (\<Sum>y\<leftarrow>?h. ?f ?idx y)"
    by (rule sum_list_mono) auto
  have "merge_measure resp (merge_step resp wv st) =
      (if ?idx n + 1 < int (itemCount (resp n))
       then (\<Sum>y\<leftarrow>?h. ?f (?idx(n := ?idx n + 1)) y) + Suc (nat (int (itemCount (resp n)) - (?idx n + 1)))
       else (\<Sum>y\<leftarrow>?h. ?f ?idx y))"
    by (simp add: merge_step_fields [OF m] merge_measure_def)
  then show ?thesis using split mono by (simp split: if_splits)
qed

function merge_loop :: "(string \<Rightarrow> NodeResponse) \<Rightarrow> int \<Rightarrow> bool \<Rightarrow> (nat \<Rightarrow> goerr option) \<Rightarrow> nat \<Rightarrow> merge_state \<Rightarrow> goerr + merge_state" where
  "merge_loop resp limit withValues dead i st =
    (if ms_heap st \<noteq> [] \<and> int (length (ms_Keys st)) < limit
     then case dead i of Some err \<Rightarrow> Inl err
       | None \<Rightarrow> merge_loop resp limit withValues dead (Suc i) (merge_step resp withValues st)
     else Inr st)"
  by pat_completeness auto
termination
  by (relation "measure (\<lambda>(resp, limit, withValues, dead, i, st). merge_measure resp st)")
    (auto simp: merge_step_decreases)

declare merge_loop.simps [simp del]

text \<open>After the merge: a node that has more than it sent moves its cursor to its own token.\<close>

definition more_cursors :: "(string \<times> NodeResponse) list \<Rightarrow> (string \<Rightarrow> int) \<Rightarrow> cursors \<times> bool \<Rightarrow> cursors \<times> bool" where
  "more_cursors responses indices acc = foldl (\<lambda>(cs, hasMore) (n, nr).
      if nr_HasMore nr \<and> indices n \<ge> int (itemCount nr) - 1
      then (if nr_ContinuationToken nr \<noteq> [] then AList.update n (nr_ContinuationToken nr) cs else cs, True)
      else (cs, hasMore)) acc responses"

definition kWayMerge :: "(string \<times> NodeResponse) list \<Rightarrow> int \<Rightarrow> bool \<Rightarrow> (nat \<Rightarrow> goerr option)
    \<Rightarrow> goerr + (string list \<times> (string \<times> bytes) list) \<times> cursors \<times> bool" where
  "kWayMerge responses limit withValues dead =
    (case merge_loop (\<lambda>n. the (map_of responses n)) limit withValues dead 0 (prime responses) of
       Inl err \<Rightarrow> Inl err
     | Inr st \<Rightarrow>
        let (cs, hasMore) = (if ms_heap st \<noteq> [] then (ms_cursors st, True)
                             else more_cursors responses (ms_indices st) (ms_cursors st, False))
        in Inr ((ms_Keys st, ms_Entries st), cs, hasMore))"

definition listClusterWide :: "(string \<Rightarrow> string \<Rightarrow> NodeResponse option) \<Rightarrow> goerr option \<Rightarrow> (nat \<Rightarrow> goerr option) \<Rightarrow> string list
    \<Rightarrow> string \<Rightarrow> int \<Rightarrow> continuation \<Rightarrow> bool \<Rightarrow> goerr + (string list \<times> (string \<times> bytes) list) \<times> continuation \<times> bool" where
  "listClusterWide ask cerr dead nodes pre limit token withValues =
    (if nodes = [] then Inl (ErrText ''no active nodes in cluster'')
     else case parseContinuationToken token pre of
       Inl err \<Rightarrow> Inl (Wrapped ''invalid continuation token'' (ErrText err))
     | Inr (cs, isPlain) \<Rightarrow>
        let cs = (case token of PlainKey k \<Rightarrow> if isPlain \<and> k \<noteq> [] then map (\<lambda>n. (n, k)) nodes else cs | _ \<Rightarrow> cs)
        in case fetchFromAllNodes ask cerr nodes cs of
          Inl err \<Rightarrow> Inl err
        | Inr responses \<Rightarrow>
            if responses = [] then Inr (([], []), NoToken, False)
            else case kWayMerge responses limit withValues dead of
              Inl err \<Rightarrow> Inl err
            | Inr (merged, newCursors, hasMore) \<Rightarrow>
                Inr (merged, if hasMore then encodeContinuationToken newCursors pre else NoToken, hasMore))"

section \<open>What the merge returns\<close>

definition sorted_response :: "NodeResponse \<Rightarrow> bool" where
  "sorted_response nr \<longleftrightarrow> (\<forall>i j. i < j \<and> j < itemCount nr \<longrightarrow> keyAt nr i < keyAt nr j)"

definition response_keys :: "NodeResponse \<Rightarrow> string set" where
  "response_keys nr = keyAt nr ` {..<itemCount nr}"

text \<open>The keys not yet merged: for every node in the heap, those from its index on.\<close>

definition pending :: "(string \<Rightarrow> NodeResponse) \<Rightarrow> merge_state \<Rightarrow> string set" where
  "pending resp st = (\<Union>x \<in> set (ms_heap st). keyAt (resp (snd x)) ` {nat (ms_indices st (snd x))..<itemCount (resp (snd x))})"

definition heap_ok :: "(string \<Rightarrow> NodeResponse) \<Rightarrow> merge_state \<Rightarrow> bool" where
  "heap_ok resp st \<longleftrightarrow> distinct (map snd (ms_heap st)) \<and> (\<forall>(k, n) \<in> set (ms_heap st).
     sorted_response (resp n) \<and> 0 \<le> ms_indices st n \<and> nat (ms_indices st n) < itemCount (resp n)
     \<and> k = keyAt (resp n) (nat (ms_indices st n)))"

definition merge_inv :: "(string \<Rightarrow> NodeResponse) \<Rightarrow> string set \<Rightarrow> merge_state \<Rightarrow> bool" where
  "merge_inv resp A st \<longleftrightarrow> heap_ok resp st \<and> sorted_wrt (<) (ms_Keys st) \<and> ms_seen st = set (ms_Keys st)
     \<and> set (ms_Keys st) \<union> pending resp st = A \<and> (\<forall>x \<in> set (ms_Keys st). \<forall>y \<in> pending resp st. x \<le> y)"

lemma heap_okD:
  assumes "heap_ok resp st" "(k, n) \<in> set (ms_heap st)"
  shows "sorted_response (resp n)" "0 \<le> ms_indices st n" "nat (ms_indices st n) < itemCount (resp n)"
    "k = keyAt (resp n) (nat (ms_indices st n))"
  using assms unfolding heap_ok_def by blast+

lemma sorted_response_le: "sorted_response nr \<Longrightarrow> i \<le> j \<Longrightarrow> j < itemCount nr \<Longrightarrow> keyAt nr i \<le> keyAt nr j"
  unfolding sorted_response_def by (cases "i = j") (simp, rule less_imp_le, simp)

lemma heap_min_pending:
  assumes ok: "heap_ok resp st" and ne: "ms_heap st \<noteq> []" and y: "y \<in> pending resp st"
  shows "fst (heap_min (ms_heap st)) \<le> y"
proof -
  obtain k n j where kn: "(k, n) \<in> set (ms_heap st)" "nat (ms_indices st n) \<le> j" "j < itemCount (resp n)" "y = keyAt (resp n) j"
    using y by (auto simp: pending_def)
  have "fst (heap_min (ms_heap st)) \<le> k" using heap_min_le [OF kn(1)] by simp
  also have "k \<le> y" using heap_okD [OF ok kn(1)] kn sorted_response_le by simp
  finally show ?thesis .
qed

text \<open>One iteration moves the least pending key, and the heap stays in order.\<close>

lemma merge_step_pending:
  assumes ok: "heap_ok resp st" and ne: "ms_heap st \<noteq> []" and m: "heap_min (ms_heap st) = (key, n)"
  shows "heap_ok resp (merge_step resp wv st)" "pending resp st = insert key (pending resp (merge_step resp wv st))"
proof -
  let ?st = "merge_step resp wv st" and ?h = "remove1 (key, n) (ms_heap st)" and ?i = "ms_indices st"
  have mem: "(key, n) \<in> set (ms_heap st)" using heap_min_in [OF ne] m by simp
  note D = heap_okD [OF ok mem]
  have d: "distinct (map snd (ms_heap st))" using ok by (simp add: heap_ok_def)
  obtain us vs where uv: "ms_heap st = us @ (key, n) # vs" "(key, n) \<notin> set us" using split_list_first [OF mem] by blast
  then have h: "?h = us @ vs" by (simp add: remove1_append)
  have other: "snd x \<noteq> n" if "x \<in> set ?h" for x using d that unfolding h unfolding uv(1) by auto
  note f = merge_step_fields [OF m, of resp wv]
  have ix: "ms_indices ?st (snd x) = ?i (snd x)" if "x \<in> set ?h" for x using other [OF that] f(2) by simp
  let ?next = "?i n + 1" and ?c = "itemCount (resp n)"
  show "heap_ok resp ?st"
    unfolding heap_ok_def
  proof
    show "distinct (map snd (ms_heap ?st))" using d other unfolding f(1) h unfolding uv(1) by auto
    have "sorted_response (resp l) \<and> 0 \<le> ms_indices ?st l \<and> nat (ms_indices ?st l) < itemCount (resp l) \<and> k = keyAt (resp l) (nat (ms_indices ?st l))"
      if x: "(k, l) \<in> set (ms_heap ?st)" for k l
    proof (cases "(k, l) \<in> set ?h")
      case True
      then have "(k, l) \<in> set (ms_heap st)" using set_remove1_subset by fast
      then show ?thesis using heap_okD [OF ok] ix [OF True] by simp
    next
      case False
      then have "k = keyAt (resp n) (nat ?next)" "l = n" "?next < int ?c" using x by (auto simp: f(1) split: if_splits)
      then show ?thesis using D by (simp add: f(2))
    qed
    then show "\<forall>(k, n)\<in>set (ms_heap ?st). sorted_response (resp n) \<and> 0 \<le> ms_indices ?st n
        \<and> nat (ms_indices ?st n) < itemCount (resp n) \<and> k = keyAt (resp n) (nat (ms_indices ?st n))" by blast
  qed
  let ?P = "\<lambda>ix x. keyAt (resp (snd x)) ` {nat (ix (snd x))..<itemCount (resp (snd x))}"
  have n: "?P ?i (key, n) = insert key (keyAt (resp n) ` {nat ?next..<?c})"
  proof -
    have "{nat (?i n)..<?c} = insert (nat (?i n)) {nat ?next..<?c}" using D by auto
    then show ?thesis using D(4) by simp
  qed
  have rest: "(\<Union>x \<in> set ?h. ?P ?i x) = (\<Union>x \<in> set ?h. ?P (ms_indices ?st) x)" using ix by (intro SUP_cong) auto
  have "pending resp st = ?P ?i (key, n) \<union> (\<Union>x \<in> set ?h. ?P ?i x)" unfolding pending_def h unfolding uv(1) by auto
  also have "\<dots> = insert key (keyAt (resp n) ` {nat ?next..<?c} \<union> (\<Union>x \<in> set ?h. ?P (ms_indices ?st) x))"
    unfolding n rest by blast
  also have "keyAt (resp n) ` {nat ?next..<?c} \<union> (\<Union>x \<in> set ?h. ?P (ms_indices ?st) x) = pending resp ?st"
    using D(2) by (cases "?next < int ?c") (auto simp: pending_def f(1,2))
  finally show "pending resp st = insert key (pending resp ?st)" .
qed

lemma merge_step_inv:
  assumes inv: "merge_inv resp A st" and ne: "ms_heap st \<noteq> []"
  shows "merge_inv resp A (merge_step resp wv st)"
proof -
  obtain key n where m: "heap_min (ms_heap st) = (key, n)" by fastforce
  have ok: "heap_ok resp st" and srt: "sorted_wrt (<) (ms_Keys st)" and seen: "ms_seen st = set (ms_Keys st)"
    and all: "set (ms_Keys st) \<union> pending resp st = A" and le: "\<forall>x \<in> set (ms_Keys st). \<forall>y \<in> pending resp st. x \<le> y"
    using inv by (auto simp: merge_inv_def)
  note p = merge_step_pending [OF ok ne m, of wv]
  note f = merge_step_fields [OF m, of resp wv]
  have min: "\<forall>y \<in> pending resp st. key \<le> y" using heap_min_pending [OF ok ne] m by auto
  have key: "\<forall>x \<in> set (ms_Keys st). x \<le> key" using le p(2) by auto
  have keys: "set (ms_Keys (merge_step resp wv st)) = insert key (set (ms_Keys st))"
    using seen by (auto simp: f(3))
  have "sorted_wrt (<) (ms_Keys (merge_step resp wv st))"
    using srt key seen by (auto simp: f(3) sorted_wrt_append order.order_iff_strict)
  then show ?thesis
    using p keys all le min seen unfolding merge_inv_def f(4) by auto
qed

lemma sorted_prefix:
  assumes "sorted_wrt (<) xs" "set xs \<union> Y = A" "finite A" "\<forall>x \<in> set xs. \<forall>y \<in> Y. x \<le> (y :: string)"
  shows "xs = take (length xs) (sorted_list_of_set A)"
proof -
  let ?r = "sorted_list_of_set (Y - set xs)"
  have fin: "finite (Y - set xs)" using assms(2,3) by (auto intro: finite_subset)
  have "sorted_wrt (<) (xs @ ?r)"
    using assms(1,4) fin by (auto simp: sorted_wrt_append order.order_iff_strict)
  moreover have "set (xs @ ?r) = A" using assms(2) fin by auto
  ultimately have "xs @ ?r = sorted_list_of_set A"
    using assms(3) by (intro sorted_distinct_set_unique) (auto simp: strict_sorted_iff)
  then show ?thesis by (metis append_eq_conv_conj)
qed

lemma merge_loop_result:
  assumes "merge_inv resp A st" "finite A" "int (length (ms_Keys st)) \<le> limit"
    and "merge_loop resp limit wv dead i st = Inr st'"
  shows "ms_Keys st' = take (nat limit) (sorted_list_of_set A) \<and> (ms_heap st' = [] \<longrightarrow> ms_Keys st' = sorted_list_of_set A)"
  using assms
proof (induction resp limit wv dead i st rule: merge_loop.induct)
  case (1 resp limit wv dead i st)
  show ?case
  proof (cases "ms_heap st \<noteq> [] \<and> int (length (ms_Keys st)) < limit")
    case True
    obtain key n where m: "heap_min (ms_heap st) = (key, n)" by fastforce
    have "dead i = None" "merge_loop resp limit wv dead (Suc i) (merge_step resp wv st) = Inr st'"
      using 1(5) True by (subst (asm) merge_loop.simps; simp split: option.splits)+
    moreover have "int (length (ms_Keys (merge_step resp wv st))) \<le> limit"
      using True by (simp add: merge_step_fields(3) [OF m])
    ultimately show ?thesis using 1(1) [OF True _ merge_step_inv [OF 1(2)] 1(3)] True by blast
  next
    case False
    then have st': "st' = st" using 1(5) by (subst (asm) merge_loop.simps) (simp split: if_splits)
    have I: "sorted_wrt (<) (ms_Keys st)" "set (ms_Keys st) \<union> pending resp st = A"
      "\<forall>x \<in> set (ms_Keys st). \<forall>y \<in> pending resp st. x \<le> y" using 1(2) by (auto simp: merge_inv_def)
    note pre = sorted_prefix [OF I(1,2) 1(3) I(3)]
    show ?thesis
    proof (cases "ms_heap st = []")
      case True
      then have "pending resp st = {}" by (simp add: pending_def)
      then have "ms_Keys st = sorted_list_of_set A"
        using I(1,2) 1(3) by (intro sorted_distinct_set_unique) (auto simp: strict_sorted_iff)
      then show ?thesis using 1(4) st' by simp
    next
      case False
      then have "length (ms_Keys st) = nat limit" using \<open>\<not> (_ \<and> _)\<close> 1(4) by simp
      then show ?thesis using pre st' False by simp
    qed
  qed
qed

lemma merge_loop_alive: "\<exists>st'. merge_loop resp limit wv (\<lambda>i. None) i st = Inr st'"
  by (induction resp limit wv "\<lambda>i :: nat. None :: goerr option" i st rule: merge_loop.induct) (subst merge_loop.simps, auto)

lemma prime_inv:
  assumes "distinct (map fst rs)" "\<forall>(n, nr) \<in> set rs. sorted_response nr"
  shows "merge_inv (\<lambda>n. the (map_of rs n)) (\<Union>(n, nr) \<in> set rs. response_keys nr) (prime rs)"
proof -
  let ?resp = "\<lambda>n. the (map_of rs n)"
  have res: "map_of rs n = Some nr" if "(n, nr) \<in> set rs" for n nr using assms(1) that by simp
  have heap: "set (ms_heap (prime rs)) = {(keyAt nr 0, n) | n nr. (n, nr) \<in> set rs \<and> itemCount nr > 0}"
    by (force simp: prime_def)
  have ix: "ms_indices (prime rs) n = 0" if "(n, nr) \<in> set rs" "itemCount nr > 0" for n nr
    using res [OF that(1)] that(2) by (simp add: prime_def)
  have "map snd (ms_heap (prime rs)) = map fst (filter (\<lambda>(n, nr). itemCount nr > 0) rs)"
    by (auto simp: prime_def)
  then have "distinct (map snd (ms_heap (prime rs)))" using assms(1) by (simp add: distinct_map_filter)
  then have "heap_ok ?resp (prime rs)"
    using assms(2) res ix unfolding heap_ok_def heap by fastforce
  moreover have "pending ?resp (prime rs) = (\<Union>(n, nr) \<in> set rs. response_keys nr)"
    unfolding pending_def heap response_keys_def using res ix by (auto simp: lessThan_atLeast0) force+
  ultimately show ?thesis by (simp add: merge_inv_def) (simp add: prime_def)
qed

section \<open>Properties\<close>

text \<open>C24: the merge of sorted answers is the start of their union.  If every node's answer is sorted
  and the context stays alive, \<^verbatim>\<open>kWayMerge\<close> returns, and the keys it returns are the least
  of the union of all answers, in order and each once, as many as the limit admits; if it
  reports that there is no more, they are the whole union.\<close>

theorem merge_is_union:
  assumes "distinct (map fst rs)" "\<forall>(n, nr) \<in> set rs. sorted_response nr" "0 < limit"
  shows "\<exists>keys entries cs hm. kWayMerge rs limit wv (\<lambda>i. None) = Inr ((keys, entries), cs, hm)
    \<and> keys = take (nat limit) (sorted_list_of_set (\<Union>(n, nr) \<in> set rs. response_keys nr))
    \<and> (\<not> hm \<longrightarrow> keys = sorted_list_of_set (\<Union>(n, nr) \<in> set rs. response_keys nr))"
proof -
  obtain st where st: "merge_loop (\<lambda>n. the (map_of rs n)) limit wv (\<lambda>i. None) 0 (prime rs) = Inr st"
    using merge_loop_alive by blast
  have fin: "finite (\<Union>(n, nr) \<in> set rs. response_keys nr)" by (auto simp: response_keys_def)
  have len: "int (length (ms_Keys (prime rs))) \<le> limit" using assms(3) by (simp add: prime_def)
  have res: "ms_Keys st = take (nat limit) (sorted_list_of_set (\<Union>(n, nr) \<in> set rs. response_keys nr))"
    "ms_heap st = [] \<longrightarrow> ms_Keys st = sorted_list_of_set (\<Union>(n, nr) \<in> set rs. response_keys nr)"
    using merge_loop_result [OF prime_inv [OF assms(1,2)] fin len st] by blast+
  show ?thesis
    using res by (cases "ms_heap st = []") (auto simp: kWayMerge_def st Let_def split: prod.split)
qed

definition demo_response :: "string list \<Rightarrow> NodeResponse" where
  "demo_response ks = \<lparr>nr_Keys = ks, nr_Entries = [], nr_ContinuationToken = [], nr_HasMore = False\<rparr>"

theorem merge_is_union_witness:
  "\<exists>es cs hm. kWayMerge [(''A'', demo_response [''a'', ''c'']), (''B'', demo_response [''b''])] 2 False (\<lambda>i. None) = Inr (([''a'', ''b''], es), cs, hm)"
proof -
  let ?rs = "[(''A'', demo_response [''a'', ''c'']), (''B'', demo_response [''b''])]"
  have srt: "\<forall>(n, nr) \<in> set ?rs. sorted_response nr"
    by (auto simp: demo_response_def sorted_response_def itemCount_def keyAt_def less_Suc_eq)
  have U: "(\<Union>(n, nr) \<in> set ?rs. response_keys nr) = {''a'', ''b'', ''c''}"
    by (auto simp: demo_response_def response_keys_def itemCount_def keyAt_def lessThan_Suc)
  have "sorted_list_of_set {''a'', ''b'', ''c''} = [''a'', ''b'', ''c'']" by simp
  then show ?thesis using merge_is_union [OF _ srt, of 2 False] unfolding U by auto
qed

text \<open>A client that follows the tokens, page after page.\<close>

fun cluster_page :: "(string \<Rightarrow> string \<Rightarrow> NodeResponse option) \<Rightarrow> string list \<Rightarrow> string \<Rightarrow> int \<Rightarrow> nat
    \<Rightarrow> goerr + (string list \<times> (string \<times> bytes) list) \<times> continuation \<times> bool" where
  "cluster_page ask nodes pre limit 0 = listClusterWide ask None (\<lambda>i. None) nodes pre limit NoToken False"
| "cluster_page ask nodes pre limit (Suc n) = (case cluster_page ask nodes pre limit n of
     Inl err \<Rightarrow> Inl err
   | Inr (merged, token, hasMore) \<Rightarrow> listClusterWide ask None (\<lambda>i. None) nodes pre limit token False)"

text \<open>Two nodes with two keys each, answering one key at a time.\<close>

definition two_nodes :: "string \<Rightarrow> string \<Rightarrow> NodeResponse option" where
  "two_nodes n start = (let ks = filter (\<lambda>k. start < k) (if n = ''A'' then [''a'', ''c''] else [''b'', ''d'']) in
     Some \<lparr>nr_Keys = take 1 ks, nr_Entries = [], nr_ContinuationToken = (if length ks > 1 then hd ks else []), nr_HasMore = length ks > 1\<rparr>)"

lemma two_nodes_page:
  "listClusterWide two_nodes None (\<lambda>i. None) [''A'', ''B''] [] 1 NoToken False = Inr (([''a''], []), ClusterToken [(''A'', ''a'')] [], True)"
  "listClusterWide two_nodes None (\<lambda>i. None) [''A'', ''B''] [] 1 (ClusterToken [(''A'', ''a'')] []) False
    = Inr (([''b''], []), ClusterToken [(''B'', ''b'')] [], True)"
  "listClusterWide two_nodes None (\<lambda>i. None) [''A'', ''B''] [] 1 (ClusterToken [(''B'', ''b'')] []) False
    = Inr (([''a''], []), ClusterToken [(''A'', ''a'')] [], True)"
  by (simp_all add: listClusterWide_def parseContinuationToken_def fetchFromAllNodes_def start_key_def two_nodes_def List.map_filter_simps
      kWayMerge_def prime_def itemCount_def keyAt_def merge_loop.simps merge_step_def encodeContinuationToken_def)

text \<open>C25: a cluster listing can repeat its pages for ever.  The cursors of a page name only the nodes
  that contributed to it, so the next page asks every other node from the start again.
  With two nodes holding \<open>a\<close>, \<open>c\<close> and \<open>b\<close>, \<open>d\<close>, a client that lists one key at a time and
  follows the tokens gets \<open>a\<close>, \<open>b\<close>, \<open>a\<close>, \<open>b\<close>, and so on, always told that there is more, and
  never gets \<open>c\<close> or \<open>d\<close>.\<close>

theorem cluster_pages_cycle:
  "\<exists>token. cluster_page two_nodes [''A'', ''B''] [] 1 n = Inr ((if even n then [''a''] else [''b''], []), token, True)"
proof -
  have "cluster_page two_nodes [''A'', ''B''] [] 1 n
    = Inr ((if even n then [''a''] else [''b''], []), ClusterToken (if even n then [(''A'', ''a'')] else [(''B'', ''b'')]) [], True)"
    by (induction n) (simp_all add: two_nodes_page)
  then show ?thesis by blast
qed

end
