(* ===== verification/DeletionQueue.thy ===== *)
theory DeletionQueue
  imports Listing
begin

text \<open>
  The deletion queue (\<^verbatim>\<open>src/storage/deletion/queue.go\<close>), which removes raw files in the
  background.  An entry is a row whose key carries the time from which the deletion is
  due and the path.  The files and the rows are those of the node; the record \<open>dq_env\<close>
  supplies the clock, the readers that hold a file's lock, the failures of the operating
  system and the shutdown signal.  A batch tries the collected paths in the order of the
  scan; Go's iteration over its map may use any other.
\<close>

section \<open>Operations\<close>

record dq_config =
  BatchSize :: int
  PruneAge :: int
  RetryDelay :: int

record dq_env =
  dq_now :: int
  retry_now :: "string \<Rightarrow> int"
  read_locked :: "string \<Rightarrow> bool"
  remove_err :: "string \<Rightarrow> goerr option"
  stat_err :: "string \<Rightarrow> goerr option"
  dq_stop :: "nat \<Rightarrow> bool"

text \<open>The scan for due entries: at most one per path, the earliest.  \<open>None\<close> is a shutdown.\<close>

fun scan_due :: "dq_config \<Rightarrow> dq_env \<Rightarrow> nat \<Rightarrow> (string \<times> bytes) list \<Rightarrow> (bytes \<times> bytes) list \<Rightarrow> (string \<times> bytes) list option" where
  "scan_due cfg e i seen [] = Some seen"
| "scan_due cfg e i seen ((k, v) # rows) =
    (if \<not> prefix DeletionQueuePrefix k \<or> int (length seen) \<ge> BatchSize cfg then Some seen
     else if dq_stop e i then None
     else case ParseDeletionQueueKey k of
       Inl err \<Rightarrow> scan_due cfg e (Suc i) seen rows
     | Inr (ts, filepath) \<Rightarrow>
         if ts > dq_now e then Some seen
         else scan_due cfg e (Suc i) (if map_of seen filepath = None then seen @ [(filepath, k)] else seen) rows)"

text \<open>\<^verbatim>\<open>os.Remove\<close> of a path that does not exist fails with \<^verbatim>\<open>ENOENT\<close>.\<close>

definition tryDelete :: "dq_env \<Rightarrow> string \<Rightarrow> disk \<Rightarrow> bool \<times> disk" where
  "tryDelete e filepath d =
    (if read_locked e filepath then (False, d)
     else case (if d filepath = None then Some (PathError ENOENT) else remove_err e filepath) of
       None \<Rightarrow> (True, d(filepath := None))
     | Some err \<Rightarrow> if os_IsNotExist err then (True, d) else (False, d))"

fun delete_seen :: "dq_config \<Rightarrow> dq_env \<Rightarrow> (string \<times> bytes) list \<Rightarrow> disk \<Rightarrow> batch \<times> disk" where
  "delete_seen cfg e [] d = ([], d)"
| "delete_seen cfg e ((filepath, queueKey) # seen) d =
    (case tryDelete e filepath d of (ok, d1) \<Rightarrow>
      case delete_seen cfg e seen d1 of (b, d2) \<Rightarrow>
        ((if ok then [WDelete queueKey]
          else [WDelete queueKey, WPut (MakeDeletionQueueKey (wrap_int64 (retry_now e filepath + RetryDelay cfg)) filepath) [char_of (1 :: nat)]]) @ b, d2))"

definition ProcessBatch :: "'db ext_api \<Rightarrow> dq_config \<Rightarrow> dq_env \<Rightarrow> 'db storage \<Rightarrow> 'db storage" where
  "ProcessBatch E cfg e s =
    (case meta_seek E DeletionQueuePrefix s of ((rows, err), s1) \<Rightarrow>
      case scan_due cfg e 0 [] rows of
        None \<Rightarrow> s1
      | Some seen \<Rightarrow>
          if seen = [] then s1
          else case delete_seen cfg e seen (st_disk s1) of (b, d) \<Rightarrow>
            let s2 = s1\<lparr>st_disk := d\<rparr> in if b \<noteq> [] then snd (meta_write E b s2) else s2)"

text \<open>Pruning: an old entry goes only if its file is confirmed gone; the batch is written when it
  holds a hundred deletions and at the end, and a failed write is logged.\<close>

definition os_Stat :: "dq_env \<Rightarrow> disk \<Rightarrow> string \<Rightarrow> goerr option" where
  "os_Stat e d filepath = (case stat_err e filepath of Some err \<Rightarrow> Some err
     | None \<Rightarrow> if d filepath = None then Some (PathError ENOENT) else None)"

definition file_gone :: "dq_env \<Rightarrow> disk \<Rightarrow> string \<Rightarrow> bool" where
  "file_gone e d filepath = (case os_Stat e d filepath of Some statErr \<Rightarrow> os_IsNotExist statErr | None \<Rightarrow> False)"

fun prune_loop :: "'db ext_api \<Rightarrow> dq_env \<Rightarrow> int \<Rightarrow> nat \<Rightarrow> batch \<Rightarrow> (bytes \<times> bytes) list \<Rightarrow> 'db storage \<Rightarrow> 'db storage" where
  "prune_loop E e cutoff i b [] s = (if b \<noteq> [] then snd (meta_write E b s) else s)"
| "prune_loop E e cutoff i b ((k, v) # rows) s =
    (if \<not> prefix DeletionQueuePrefix k then (if b \<noteq> [] then snd (meta_write E b s) else s)
     else if dq_stop e i then s
     else let b' = (case ParseDeletionQueueKey k of
              Inr (timestamp, filepath) \<Rightarrow>
                if timestamp > 0 \<and> timestamp < cutoff \<and> file_gone e (st_disk s) filepath then b @ [WDelete k] else b
            | Inl err \<Rightarrow> b)
       in if length b' \<ge> 100 then prune_loop E e cutoff (Suc i) [] rows (snd (meta_write E b' s))
          else prune_loop E e cutoff (Suc i) b' rows s)"

definition pruneOldEntries :: "'db ext_api \<Rightarrow> dq_config \<Rightarrow> dq_env \<Rightarrow> 'db storage \<Rightarrow> 'db storage" where
  "pruneOldEntries E cfg e s =
    (case meta_seek E DeletionQueuePrefix s of ((rows, err), s1) \<Rightarrow>
      prune_loop E e (wrap_int64 (dq_now e - PruneAge cfg)) 0 [] rows s1)"

definition GetQueueDepth :: "'db ext_api \<Rightarrow> 'db storage \<Rightarrow> int \<times> 'db storage" where
  "GetQueueDepth E s = (case meta_seek E DeletionQueuePrefix s of ((rows, err), s1) \<Rightarrow>
     (int (length (takeWhile (\<lambda>r. prefix DeletionQueuePrefix (fst r)) rows)), s1))"

text \<open>The background loop handles one tick at a time; the tick that logs the depth reads only.\<close>

datatype dq_tick = ProcessTick dq_env | PruneTick dq_env | DepthTick

fun processing_tick :: "'db ext_api \<Rightarrow> dq_config \<Rightarrow> dq_tick \<Rightarrow> 'db storage \<Rightarrow> 'db storage" where
  "processing_tick E cfg (ProcessTick e) s = ProcessBatch E cfg e s"
| "processing_tick E cfg (PruneTick e) s = pruneOldEntries E cfg e s"
| "processing_tick E cfg DepthTick s = snd (GetQueueDepth E s)"

definition processingLoop :: "'db ext_api \<Rightarrow> dq_config \<Rightarrow> dq_tick list \<Rightarrow> 'db storage \<Rightarrow> 'db storage" where
  "processingLoop E cfg ticks s = foldl (\<lambda>s t. processing_tick E cfg t s) s ticks"

section \<open>No file is lost\<close>

text \<open>A path is queued if a row asks for its deletion.\<close>

definition queued :: "view \<Rightarrow> string \<Rightarrow> bool" where
  "queued m filepath \<longleftrightarrow> (\<exists>k ts. m k \<noteq> None \<and> ParseDeletionQueueKey k = Inr (ts, filepath))"

text \<open>What the operating system promises: only a path that does not exist gives \<^verbatim>\<open>ENOENT\<close>; and the
  clock and the retry delay stay in the range of \<^verbatim>\<open>UnixNano\<close>.\<close>

definition dq_env_ok :: "dq_config \<Rightarrow> dq_env \<Rightarrow> bool" where
  "dq_env_ok cfg e \<longleftrightarrow> (\<forall>p. remove_err e p \<noteq> Some (PathError ENOENT) \<and> stat_err e p \<noteq> Some (PathError ENOENT)
     \<and> 0 \<le> retry_now e p + RetryDelay cfg \<and> retry_now e p + RetryDelay cfg < 2 ^ 63)"

lemma queuedI: "m k = Some v \<Longrightarrow> ParseDeletionQueueKey k = Inr (ts, p) \<Longrightarrow> queued m p"
  by (auto simp: queued_def)

lemma scan_due_step:
  assumes "scan_due cfg e i seen (r # rows) = Some seen'"
  obtains "seen' = seen" | seen2 where "scan_due cfg e (Suc i) seen2 rows = Some seen'"
    "seen2 = seen \<or> (\<exists>ts p. ParseDeletionQueueKey (fst r) = Inr (ts, p) \<and> map_of seen p = None \<and> seen2 = seen @ [(p, fst r)])"
proof -
  obtain k v where r: "r = (k, v)" by fastforce
  show thesis
  proof (cases "ParseDeletionQueueKey k")
    case (Inl err)
    then have "seen' = seen \<or> scan_due cfg e (Suc i) seen rows = Some seen'" using assms by (simp add: r split: if_splits)
    then show ?thesis using that(1) that(2) [of seen] by blast
  next
    case (Inr x)
    then obtain ts p where p: "ParseDeletionQueueKey k = Inr (ts, p)" by (cases x) simp
    obtain s2 where s2: "s2 = (if map_of seen p = None then seen @ [(p, k)] else seen)" by simp
    have "seen' = seen \<or> scan_due cfg e (Suc i) s2 rows = Some seen'" using assms p by (auto simp: r s2 split: if_splits)
    moreover have "s2 = seen \<or> (\<exists>ts p. ParseDeletionQueueKey (fst r) = Inr (ts, p) \<and> map_of seen p = None \<and> s2 = seen @ [(p, fst r)])"
      using p by (auto simp: r s2)
    ultimately show ?thesis using that by blast
  qed
qed

lemma scan_due_seen:
  assumes "scan_due cfg e i seen rows = Some seen'" "distinct (map fst seen)"
    "\<forall>(p, k) \<in> set seen. \<exists>ts. ParseDeletionQueueKey k = Inr (ts, p)"
  shows "distinct (map fst seen') \<and> (\<forall>(p, k) \<in> set seen'. \<exists>ts. ParseDeletionQueueKey k = Inr (ts, p))"
  using assms
proof (induction rows arbitrary: i seen)
  case (Cons r rows)
  from Cons.prems(1) show ?case
  proof (cases rule: scan_due_step)
    case (2 seen2)
    then have "distinct (map fst seen2)" "\<forall>(p, k) \<in> set seen2. \<exists>ts. ParseDeletionQueueKey k = Inr (ts, p)"
      using Cons.prems(2,3) by (auto simp: map_of_eq_None_iff)
    then show ?thesis using Cons.IH [OF 2(1)] by blast
  qed (use Cons.prems in simp)
qed simp

lemma tryDelete_ok:
  assumes "tryDelete e p d = (ok, d')" "dq_env_ok cfg e"
  shows "ok \<Longrightarrow> d' p = None" "\<not> ok \<Longrightarrow> d' = d" "q \<noteq> p \<Longrightarrow> d' q = d q"
  using assms by (auto simp: tryDelete_def dq_env_ok_def os_IsNotExist_def split: if_splits option.splits)

lemma parse_requeued:
  assumes "dq_env_ok cfg e"
  shows "ParseDeletionQueueKey (MakeDeletionQueueKey (wrap_int64 (retry_now e p + RetryDelay cfg)) p)
    = Inr (retry_now e p + RetryDelay cfg, p)"
proof -
  have "in_int64 (retry_now e p + RetryDelay cfg)" "nonneg_int64 (retry_now e p + RetryDelay cfg)"
    using assms [unfolded dq_env_ok_def, rule_format, of p] by (simp_all add: in_int64_def nonneg_int64_def)
  then show ?thesis by (simp add: parse_deletion_make)
qed

text \<open>The batch of a run keeps every row that does not belong to one of its paths; each of its
  paths is removed from the disk or queued again.\<close>

lemma delete_seen_kept:
  assumes "delete_seen cfg e seen d = (b, d')" "dq_env_ok cfg e" "distinct (map fst seen)"
    "\<forall>(p, k) \<in> set seen. \<exists>ts. ParseDeletionQueueKey k = Inr (ts, p)"
  shows "(\<forall>k ts p. ParseDeletionQueueKey k = Inr (ts, p) \<and> p \<notin> fst ` set seen \<longrightarrow> apply_batch P m b k = m k)
    \<and> (\<forall>k. (\<forall>ts p. ParseDeletionQueueKey k \<noteq> Inr (ts, p)) \<longrightarrow> apply_batch P m b k = m k)
    \<and> (\<forall>p. p \<notin> fst ` set seen \<longrightarrow> d' p = d p) \<and> (\<forall>p. d' p \<noteq> None \<longrightarrow> d' p = d p)
    \<and> (\<forall>p \<in> fst ` set seen. d' p = None \<or> queued (apply_batch P m b) p)"
  using assms(1,3,4)
proof (induction seen arbitrary: d b d' m)
  case (Cons x seen)
  obtain p0 k0 where x: "x = (p0, k0)" by fastforce
  obtain ok d1 where t: "tryDelete e p0 d = (ok, d1)" by fastforce
  obtain b1 d2 where r: "delete_seen cfg e seen d1 = (b1, d2)" by fastforce
  obtain ts0 where ts0: "ParseDeletionQueueKey k0 = Inr (ts0, p0)" using Cons.prems(3) by (auto simp: x)
  let ?t = "retry_now e p0 + RetryDelay cfg"
  let ?new = "MakeDeletionQueueKey (wrap_int64 ?t) p0"
  let ?m1 = "if ok then m(k0 := None) else (m(k0 := None))(?new \<mapsto> [char_of (1 :: nat)])"
  note pnew = parse_requeued [OF assms(2), of p0]
  have run: "d' = d2" "apply_batch P m b = apply_batch P ?m1 b1"
    using Cons.prems(1) by (auto simp: x t r)
  have p0: "p0 \<notin> fst ` set seen" using Cons.prems(2) by (simp add: x)
  have d: "distinct (map fst seen)" "\<forall>(p, k) \<in> set seen. \<exists>ts. ParseDeletionQueueKey k = Inr (ts, p)"
    using Cons.prems(2,3) by auto
  note I = Cons.IH [OF r d, of ?m1, folded run] and T = tryDelete_ok [OF t assms(2)]
  note I1 = I [THEN conjunct1, rule_format] and I' = I [THEN conjunct2]
  note I2 = I' [THEN conjunct1, rule_format] and I'' = I' [THEN conjunct2]
  note I3 = I'' [THEN conjunct1, rule_format] and I4 = I'' [THEN conjunct2, THEN conjunct1, rule_format]
  note I5 = I'' [THEN conjunct2, THEN conjunct2, rule_format]
  have set: "fst ` set (x # seen) = insert p0 (fst ` set seen)" by (simp add: x)
  show ?case
    unfolding set
  proof (intro conjI allI impI ballI)
    fix k ts p assume k: "ParseDeletionQueueKey k = Inr (ts, p) \<and> p \<notin> insert p0 (fst ` set seen)"
    then have "k \<noteq> k0" "k \<noteq> ?new" using ts0 pnew by auto
    then show "apply_batch P m b k = m k" using I1 [of k ts p] k by simp
  next
    fix k assume "\<forall>ts p. ParseDeletionQueueKey k \<noteq> Inr (ts, p)"
    moreover from this have "k \<noteq> k0" "k \<noteq> ?new" using ts0 pnew by auto
    ultimately show "apply_batch P m b k = m k" using I2 [of k] by simp
  next
    fix p assume "p \<notin> insert p0 (fst ` set seen)"
    then show "d' p = d p" using I3 [of p] T(3) [of p] by simp
  next
    fix p assume p: "d' p \<noteq> None"
    then show "d' p = d p" using I4 [OF p] T by (cases "p = p0"; cases ok) auto
  next
    fix p assume "p \<in> insert p0 (fst ` set seen)"
    then consider "p \<in> fst ` set seen" | "p = p0" ok | "p = p0" "\<not> ok" by blast
    then show "d' p = None \<or> queued (apply_batch P m b) p"
    proof cases
      case 3
      have "apply_batch P m b ?new \<noteq> None" using I1 [of ?new ?t p0] 3 pnew p0 by simp
      then show ?thesis using 3 pnew unfolding queued_def by blast
    qed (use I5 I3 [OF p0] T(1) in auto)
  qed
qed (auto simp: queued_def)

text \<open>What every step of the background loop keeps: a row that is no queue entry, a file that no
  entry names, and the entry of every file that remains.\<close>

definition queue_safe :: "view \<Rightarrow> disk \<Rightarrow> view \<Rightarrow> disk \<Rightarrow> bool" where
  "queue_safe m d m' d' \<longleftrightarrow> (\<forall>k. (\<forall>ts p. ParseDeletionQueueKey k \<noteq> Inr (ts, p)) \<longrightarrow> m' k = m k)
     \<and> (\<forall>p. \<not> queued m p \<longrightarrow> d' p = d p \<and> \<not> queued m' p) \<and> (\<forall>p. d' p \<noteq> None \<longrightarrow> d' p = d p \<and> (queued m p \<longrightarrow> queued m' p))"

lemma queue_safe_refl: "queue_safe m d m d"
  by (simp add: queue_safe_def)

lemma queue_safe_trans: "queue_safe m d m' d' \<Longrightarrow> queue_safe m' d' m'' d'' \<Longrightarrow> queue_safe m d m'' d''"
  unfolding queue_safe_def by (metis (full_types))

lemma prune_batch_safe:
  assumes "\<forall>w \<in> set b. \<exists>k ts p. w = WDelete k \<and> ParseDeletionQueueKey k = Inr (ts, p) \<and> d p = None"
  shows "queue_safe m d (apply_batch P m b) d"
  using assms
proof (induction b arbitrary: m)
  case (Cons w b)
  then obtain k ts p where w: "w = WDelete k" "ParseDeletionQueueKey k = Inr (ts, p)" "d p = None" by auto
  have "queued (m(k := None)) q" if "queued m q" "q \<noteq> p" for q
  proof -
    obtain k' ts' where k': "m k' \<noteq> None" "ParseDeletionQueueKey k' = Inr (ts', q)" using \<open>queued m q\<close> by (auto simp: queued_def)
    then have "k' \<noteq> k" using w(2) \<open>q \<noteq> p\<close> by auto
    then show ?thesis using k' unfolding queued_def by (intro exI [of _ k']) auto
  qed
  moreover have "queued m q" if "queued (m(k := None)) q" for q using that by (auto simp: queued_def split: if_splits)
  ultimately have "queue_safe m d (m(k := None)) d"
    using w(2,3) unfolding queue_safe_def by (metis fun_upd_apply)
  then show ?case using Cons w(1) by (auto intro: queue_safe_trans)
qed (simp add: queue_safe_refl)

context rocksdb
begin

lemma seek_state:
  assumes "meta_seek E k s = ((rows, err), s1)"
  shows "view (st_meta s1) = view (st_meta s)" "st_disk s1 = st_disk s" "(k', v) \<in> set rows \<Longrightarrow> view (st_meta s) k' = Some v"
  using assms seek_view [of "st_meta s" k] seek_rows [of k' v "st_meta s" k] by (auto simp: meta_seek_def split: prod.splits)

lemma scan_due_queued:
  assumes "scan_due cfg e i seen rows = Some seen'" "\<forall>p \<in> fst ` set seen. queued m p" "\<And>k v. (k, v) \<in> set rows \<Longrightarrow> m k = Some v"
  shows "\<forall>p \<in> fst ` set seen'. queued m p"
  using assms
proof (induction rows arbitrary: i seen)
  case (Cons r rows)
  have "m (fst r) = Some (snd r)" using Cons.prems(3) [of "fst r" "snd r"] by simp
  from Cons.prems(1) show ?case
  proof (cases rule: scan_due_step)
    case (2 seen2)
    then have "\<forall>p \<in> fst ` set seen2. queued m p"
      using Cons.prems(2) queuedI [of m "fst r" "snd r"] \<open>m (fst r) = Some (snd r)\<close> by auto
    then show ?thesis by (rule Cons.IH [OF 2(1)]) (rule Cons.prems(3), simp)
  qed (use Cons.prems in simp)
qed simp

lemma ProcessBatch_safe:
  assumes "dq_env_ok cfg e"
  shows "queue_safe (view (st_meta s)) (st_disk s) (view (st_meta (ProcessBatch E cfg e s))) (st_disk (ProcessBatch E cfg e s))"
proof -
  let ?m = "view (st_meta s)" and ?d = "st_disk s" and ?s' = "ProcessBatch E cfg e s"
  obtain rows err s1 where sk: "meta_seek E DeletionQueuePrefix s = ((rows, err), s1)" by (metis prod.collapse)
  note K = seek_state [OF sk]
  show ?thesis
  proof (cases "\<exists>seen. scan_due cfg e 0 [] rows = Some seen \<and> seen \<noteq> []")
    case False
    then have "?s' = s1" by (auto simp: ProcessBatch_def sk split: option.split)
    then show ?thesis by (simp add: K queue_safe_refl)
  next
    case True
    then obtain seen where seen: "scan_due cfg e 0 [] rows = Some seen" "seen \<noteq> []" by blast
    obtain b d where del: "delete_seen cfg e seen ?d = (b, d)" by fastforce
    have D: "distinct (map fst seen)" "\<forall>(p, k) \<in> set seen. \<exists>ts. ParseDeletionQueueKey k = Inr (ts, p)"
      using scan_due_seen [OF seen(1)] by auto
    have Q: "\<forall>p \<in> fst ` set seen. queued ?m p" by (rule scan_due_queued [OF seen(1)]) (use K(3) in auto)
    note kept = delete_seen_kept [OF del assms D, of E ?m]
    obtain wr s3 where w: "(if b \<noteq> [] then meta_write E b (s1\<lparr>st_disk := d\<rparr>) else (None, s1\<lparr>st_disk := d\<rparr>)) = (wr, s3)" by fastforce
    have s': "?s' = s3" using w by (auto simp: ProcessBatch_def sk seen del K(2) Let_def split: if_splits)
    have m': "st_disk s3 = d \<and> (view (st_meta s3) = ?m \<or> view (st_meta s3) = apply_batch E ?m b)"
    proof (cases "b = []")
      case True
      then show ?thesis using w K(1) by auto
    next
      case False
      then have mw: "meta_write E b (s1\<lparr>st_disk := d\<rparr>) = (wr, s3)" using w by simp
      then show ?thesis
        using meta_only_fields(1) [OF meta_write_ok(1) [OF mw]] meta_write_ok(2,3) [OF mw] K(1) by (cases wr) simp_all
    qed
    note m' = m' [THEN conjunct1] m' [THEN conjunct2]
    show ?thesis
      unfolding s' m'(1) queue_safe_def
    proof (intro conjI allI impI)
      note K1 = kept [THEN conjunct1, rule_format] and K' = kept [THEN conjunct2]
      note K2 = K' [THEN conjunct1, rule_format] and K3 = K' [THEN conjunct2, THEN conjunct1, rule_format]
      note K4 = K' [THEN conjunct2, THEN conjunct2, THEN conjunct1, rule_format]
      note K5 = K' [THEN conjunct2, THEN conjunct2, THEN conjunct2, rule_format]
      have row: "view (st_meta s3) k = ?m k" if "ParseDeletionQueueKey k = Inr (ts, p)" "p \<notin> fst ` set seen" for k ts p
        using K1 [of k ts p] that m'(2) by metis
      fix k p
      show "view (st_meta s3) k = ?m k" if "\<forall>ts p. ParseDeletionQueueKey k \<noteq> Inr (ts, p)" using K2 [of k] that m'(2) by metis
      show "d p = ?d p" "\<not> queued (view (st_meta s3)) p" if "\<not> queued ?m p"
        using that Q K3 [of p] row [of _ _ p] unfolding queued_def by metis+
      assume p: "d p \<noteq> None"
      then show "d p = ?d p" by (rule K4)
      show "queued (view (st_meta s3)) p" if "queued ?m p"
        using that p K5 [of p] row [of _ _ p] m'(2) by (metis queued_def)
    qed
  qed
qed

lemma write_prune_safe:
  assumes "\<forall>w \<in> set b. \<exists>k ts p. w = WDelete k \<and> ParseDeletionQueueKey k = Inr (ts, p) \<and> st_disk s p = None"
  shows "queue_safe (view (st_meta s)) (st_disk s) (view (st_meta (snd (meta_write E b s)))) (st_disk (snd (meta_write E b s)))"
    "st_disk (snd (meta_write E b s)) = st_disk s"
proof -
  obtain r s' where w: "meta_write E b s = (r, s')" by fastforce
  show d: "st_disk (snd (meta_write E b s)) = st_disk s" using meta_only_fields(1) [OF meta_write_ok(1) [OF w]] by (simp add: w)
  show "queue_safe (view (st_meta s)) (st_disk s) (view (st_meta (snd (meta_write E b s)))) (st_disk (snd (meta_write E b s)))"
    using meta_write_ok(2,3) [OF w] prune_batch_safe [OF assms] d by (cases r) (simp_all add: w queue_safe_refl)
qed

lemma prune_loop_safe:
  assumes "\<forall>w \<in> set b. \<exists>k ts p. w = WDelete k \<and> ParseDeletionQueueKey k = Inr (ts, p) \<and> st_disk s p = None" "dq_env_ok cfg e"
  shows "queue_safe (view (st_meta s)) (st_disk s) (view (st_meta (prune_loop E e cutoff i b rows s))) (st_disk (prune_loop E e cutoff i b rows s))"
  using assms(1)
proof (induction rows arbitrary: i b s)
  case Nil
  then show ?case by (auto simp: queue_safe_refl write_prune_safe(1) [OF Nil])
next
  case (Cons r rows)
  obtain k v where r: "r = (k, v)" by fastforce
  obtain b' where b': "b' = (case ParseDeletionQueueKey k of
      Inr (timestamp, filepath) \<Rightarrow>
        if timestamp > 0 \<and> timestamp < cutoff \<and> file_gone e (st_disk s) filepath then b @ [WDelete k] else b
    | Inl err \<Rightarrow> b)" by simp
  have gone: "st_disk s p = None" if "file_gone e (st_disk s) p" for p
    using that assms(2) by (auto simp: file_gone_def os_Stat_def os_IsNotExist_def dq_env_ok_def split: option.splits if_splits)
  have B: "\<forall>w \<in> set b'. \<exists>k ts p. w = WDelete k \<and> ParseDeletionQueueKey k = Inr (ts, p) \<and> st_disk s p = None"
    using Cons.prems gone by (cases "ParseDeletionQueueKey k") (auto simp: b' split: prod.splits)
  note W = write_prune_safe [OF B]
  have "prune_loop E e cutoff i b (r # rows) s \<in> {s, snd (meta_write E b s),
      prune_loop E e cutoff (Suc i) [] rows (snd (meta_write E b' s)), prune_loop E e cutoff (Suc i) b' rows s}"
    by (simp add: r b' [symmetric] Let_def)
  then show ?case
    using Cons.IH [OF B, of "Suc i"] queue_safe_trans [OF W(1) Cons.IH [of "[]" "snd (meta_write E b' s)" "Suc i"]]
      write_prune_safe(1) [OF Cons.prems] queue_safe_refl by auto
qed

lemma processing_tick_safe:
  assumes "case t of ProcessTick e \<Rightarrow> dq_env_ok cfg e | PruneTick e \<Rightarrow> dq_env_ok cfg e | DepthTick \<Rightarrow> True"
  shows "queue_safe (view (st_meta s)) (st_disk s) (view (st_meta (processing_tick E cfg t s))) (st_disk (processing_tick E cfg t s))"
proof -
  obtain rows err s1 where sk: "meta_seek E DeletionQueuePrefix s = ((rows, err), s1)" by (metis prod.collapse)
  note K = seek_state(1,2) [OF sk]
  show ?thesis
  proof (cases t)
    case (ProcessTick e)
    then show ?thesis using ProcessBatch_safe assms by simp
  next
    case (PruneTick e)
    then show ?thesis
      using prune_loop_safe [of "[]" s1 cfg e "wrap_int64 (dq_now e - PruneAge cfg)" 0 rows] assms by (simp add: pruneOldEntries_def sk K)
  qed (simp add: GetQueueDepth_def sk K queue_safe_refl)
qed

end

section \<open>Properties\<close>

text \<open>C12: the deletion queue loses no file and deletes no other.  Whatever batches, prunings,
  failures of the disk and of the database, read locks and shutdowns occur in whatever
  order: a file that no entry named is never touched and never becomes queued; a file
  that remains on disk keeps its contents and, if it was queued, is still queued; and
  rows of other kinds do not change.\<close>

theorem queue_loses_no_file:
  assumes "rocksdb E tag var byt view"
    and "\<forall>t \<in> set ticks. case t of ProcessTick e \<Rightarrow> dq_env_ok cfg e | PruneTick e \<Rightarrow> dq_env_ok cfg e | DepthTick \<Rightarrow> True"
  shows "queue_safe (view (st_meta s)) (st_disk s)
    (view (st_meta (processingLoop E cfg ticks s))) (st_disk (processingLoop E cfg ticks s))"
  unfolding processingLoop_def
proof (rule foldl_invariant [where I = "\<lambda>s'. queue_safe (view (st_meta s)) (st_disk s) (view (st_meta s')) (st_disk s')"])
  fix s' :: "'a storage" and t assume "t \<in> set ticks" "queue_safe (view (st_meta s)) (st_disk s) (view (st_meta s')) (st_disk s')"
  then show "queue_safe (view (st_meta s)) (st_disk s) (view (st_meta (processing_tick E cfg t s'))) (st_disk (processing_tick E cfg t s'))"
    using assms(2) rocksdb.processing_tick_safe [OF assms(1)] by (blast intro: queue_safe_trans)
qed (rule queue_safe_refl)

definition demo_dq :: "bool \<Rightarrow> dq_env" where
  "demo_dq locked = \<lparr>dq_now = 2000, retry_now = (\<lambda>p. 2000), read_locked = (\<lambda>p. locked), remove_err = (\<lambda>p. None),
     stat_err = (\<lambda>p. None), dq_stop = (\<lambda>i. False)\<rparr>"

definition demo_dq_config :: dq_config where
  "demo_dq_config = \<lparr>BatchSize = 10, PruneAge = 500, RetryDelay = 100\<rparr>"

definition demo_queue :: "memdb storage" where
  "demo_queue = (demo_store [(MakeDeletionQueueKey 1000 ''f/u'', [char_of (1 :: nat)])] [])\<lparr>st_disk := [''f/u'' \<mapsto> ''x'']\<rparr>"

theorem queue_loses_no_file_witness:
  "queued (mem_view (st_meta demo_queue)) ''f/u''
   \<and> (let s' = processingLoop mem_ext demo_dq_config [ProcessTick (demo_dq True), PruneTick (demo_dq True)] demo_queue in
      queue_safe (mem_view (st_meta demo_queue)) (st_disk demo_queue) (mem_view (st_meta s')) (st_disk s'))"
proof -
  have "queued (mem_view (st_meta demo_queue)) ''f/u''"
    using parse_deletion_make [of 1000 "''f/u''"] by (intro queuedI) (simp_all add: demo_queue_def demo_store_def nonneg_int64_def)
  moreover have "dq_env_ok demo_dq_config (demo_dq True)" by (simp add: dq_env_ok_def demo_dq_def demo_dq_config_def)
  ultimately show ?thesis
    unfolding Let_def by (intro conjI queue_loses_no_file [OF mem.rocksdb_axioms]) auto
qed

end
