(* ===== verification/Eviction.thy ===== *)
theory Eviction
  imports DeletionQueue "HOL-Library.AList"
begin

text \<open>
  Eviction by the ordered index of the active policy (\<^verbatim>\<open>src/storage/eviction.go\<close>,
  \<^verbatim>\<open>lru.go\<close>, \<^verbatim>\<open>fifo.go\<close>, \<^verbatim>\<open>access_index_bucketed.go\<close>), the age-based pruning of the access
  buckets, and the batched updates of access times (\<^verbatim>\<open>access_updater.go\<close>).  The locale
  \<open>eviction_index\<close> states what the walk relies on in an index; both policies interpret it.
  A pass runs alone: the shutdown signal, the clock and the failures of the database are
  its environment.
\<close>

section \<open>Operations\<close>

record evictionIndex =
  policy :: string
  idx_prefix :: bytes
  parseKey :: "bytes \<Rightarrow> string result"
  backrefKey :: "string \<Rightarrow> bytes"

definition GetOldestAccessBucketPrefix :: bytes where
  "GetOldestAccessBucketPrefix = AccessBucketPrefix"

definition lruEvictionIndex :: evictionIndex where
  "lruEvictionIndex = \<lparr>policy = EvictionPolicyLRU, idx_prefix = GetOldestAccessBucketPrefix,
     parseKey = (\<lambda>entryKey. case ParseBucketedAccessKey entryKey of Inl err \<Rightarrow> Inl err | Inr (key, _) \<Rightarrow> Inr key),
     backrefKey = MakeBucketedAccessIndexKey\<rparr>"

definition fifoEvictionIndex :: evictionIndex where
  "fifoEvictionIndex = \<lparr>policy = EvictionPolicyFIFO, idx_prefix = GetFifoIndexPrefix,
     parseKey = ParseFifoIndexKey, backrefKey = MakeFifoBackrefKey\<rparr>"

record evict_env =
  ev_unix :: "nat \<Rightarrow> int"
  ev_nano :: "nat \<Rightarrow> int"
  ev_stop :: "nat \<Rightarrow> bool"

text \<open>The variables of one pass.  \<open>ev_nano\<close> numbers the files queued for deletion, \<open>ev_unix\<close> and
  \<open>ev_stop\<close> the rows of the scan.\<close>

record evict_acc =
  ev_batch :: batch
  committedBytes :: int
  pendingBytes :: int
  evictedCount :: nat
  pendingCount :: nat
  pendingFiles :: "ValueMessage list"

fun stage_files :: "'db ext_api \<Rightarrow> (nat \<Rightarrow> int) \<Rightarrow> nat \<Rightarrow> ValueMessage list \<Rightarrow> 'db storage \<Rightarrow> 'db storage" where
  "stage_files E nano i [] s = s"
| "stage_files E nano i (vm # vms) s = stage_files E nano (Suc i) vms (stageFileDeletion E (nano i) vm s)"

text \<open>The closure \<^verbatim>\<open>commit\<close>.\<close>

definition commit :: "'db ext_api \<Rightarrow> evict_env \<Rightarrow> evict_acc \<Rightarrow> 'db storage \<Rightarrow> evict_acc \<times> 'db storage" where
  "commit E e a s =
    (if ev_batch a = [] then (a, s)
     else let cleared = a\<lparr>ev_batch := [], pendingBytes := 0, pendingCount := 0, pendingFiles := []\<rparr> in
       case meta_write E (ev_batch a) s of
         (Some err, s1) \<Rightarrow> (cleared, s1)
       | (None, s1) \<Rightarrow> (cleared\<lparr>committedBytes := wrap_int64 (committedBytes a + pendingBytes a),
                            evictedCount := evictedCount a + pendingCount a\<rparr>,
                          stage_files E (ev_nano e) (evictedCount a) (pendingFiles a) s1))"

text \<open>One row of the index.\<close>

definition evict_entry :: "'db ext_api \<Rightarrow> evictionIndex \<Rightarrow> int \<Rightarrow> bytes \<Rightarrow> evict_acc \<Rightarrow> 'db storage \<Rightarrow> evict_acc \<times> 'db storage" where
  "evict_entry E idx now keyBytes a s =
    (case parseKey idx keyBytes of
       Inl err \<Rightarrow> (a, s)
     | Inr originalKey \<Rightarrow>
       let metaKey = MakeMetadataKey originalKey; backref = backrefKey idx originalKey in
       case meta_get E metaKey s of
         (Inl err, s1) \<Rightarrow> (a, s1)
       | (Inr None, s1) \<Rightarrow> (a\<lparr>ev_batch := ev_batch a @ [WDelete keyBytes]\<rparr>, s1)
       | (Inr (Some b), s1) \<Rightarrow>
         case unmarshal E b of
           None \<Rightarrow> (a\<lparr>ev_batch := ev_batch a @ [WDelete metaKey, WDelete keyBytes, WDelete backref]\<rparr>, s1)
         | Some valueMsg \<Rightarrow>
           if Expiry valueMsg > 0 \<and> now \<ge> Expiry valueMsg then (a, s1)
           else case meta_get E backref s1 of
             (Inl err, s2) \<Rightarrow> (a, s2)
           | (Inr cur, s2) \<Rightarrow>
             if cur \<noteq> None \<and> cur \<noteq> Some keyBytes
             then (a\<lparr>ev_batch := ev_batch a @ [WDelete keyBytes]\<rparr>, s2)
             else (a\<lparr>ev_batch := ev_batch a @ [WDelete metaKey, WDelete keyBytes, WDelete backref],
                     pendingBytes := wrap_int64 (pendingBytes a + ValueLength valueMsg),
                     pendingCount := pendingCount a + 1, pendingFiles := pendingFiles a @ [valueMsg]\<rparr>, s2))"

fun evict_loop :: "'db ext_api \<Rightarrow> evictionIndex \<Rightarrow> evict_env \<Rightarrow> int \<Rightarrow> nat \<Rightarrow> (bytes \<times> bytes) list \<Rightarrow> evict_acc \<Rightarrow> 'db storage
  \<Rightarrow> evict_acc \<times> 'db storage" where
  "evict_loop E idx e targetBytes i [] a s = (a, s)"
| "evict_loop E idx e targetBytes i ((k, v) # rows) a s =
    (if \<not> prefix (idx_prefix idx) k \<or> ev_stop e i then (a, s)
     else case (if length (ev_batch a) \<ge> 1000 then commit E e a s else (a, s)) of (a1, s1) \<Rightarrow>
       if wrap_int64 (committedBytes a1 + pendingBytes a1) \<ge> targetBytes then (a1, s1)
       else case evict_entry E idx (ev_unix e i) k a1 s1 of (a2, s2) \<Rightarrow> evict_loop E idx e targetBytes (Suc i) rows a2 s2)"

definition evict_start :: evict_acc where
  "evict_start = \<lparr>ev_batch = [], committedBytes = 0, pendingBytes = 0, evictedCount = 0, pendingCount = 0, pendingFiles = []\<rparr>"

text \<open>The deferred block commits the last batch and takes the committed bytes off the total on every return path.\<close>

definition evictByIndex :: "'db ext_api \<Rightarrow> evictionIndex \<Rightarrow> evict_env \<Rightarrow> int \<Rightarrow> 'db storage \<Rightarrow> nat \<times> 'db storage" where
  "evictByIndex E idx e targetBytes s =
    (case meta_seek E (idx_prefix idx) s of ((rows, err), s1) \<Rightarrow>
      case evict_loop E idx e targetBytes 0 rows evict_start s1 of (a, s2) \<Rightarrow>
        case commit E e a s2 of (a', s3) \<Rightarrow> (evictedCount a', UpdateSize (- committedBytes a') s3))"

section \<open>Pruning of old access buckets\<close>

fun bucket_loop :: "'db ext_api \<Rightarrow> string \<Rightarrow> batch \<Rightarrow> (bytes \<times> bytes) list \<Rightarrow> 'db storage \<Rightarrow> 'db storage" where
  "bucket_loop E cutoffBucket b [] s = (if b \<noteq> [] then snd (meta_write E b s) else s)"
| "bucket_loop E cutoffBucket b ((k, v) # rows) s =
    (let bucket = ExtractAccessBucketFromKey k in
     if \<not> prefix GetOldestAccessBucketPrefix k \<or> bucket = [] \<or> bucket \<ge> cutoffBucket
     then (if b \<noteq> [] then snd (meta_write E b s) else s)
     else let b' = b @ [WDelete k] in
       if length b' \<ge> 1000 then bucket_loop E cutoffBucket [] rows (snd (meta_write E b' s))
       else bucket_loop E cutoffBucket b' rows s)"

definition cleanupOldBuckets :: "'db ext_api \<Rightarrow> gotime \<Rightarrow> int \<Rightarrow> 'db storage \<Rightarrow> 'db storage" where
  "cleanupOldBuckets E now olderThan s =
    (let cutoff = now\<lparr>unixNano := unixNano now - olderThan\<rparr>; cutoffBucket = GetBucketedAccessKey cutoff in
     case meta_seek E GetOldestAccessBucketPrefix s of ((rows, err), s1) \<Rightarrow> bucket_loop E cutoffBucket [] rows s1)"

section \<open>Access-time updates\<close>

text \<open>The time gate asks the third-party LRU cache for the time last recorded for the key; the batch
  is a map from keys to times, here an association list in the order in which Go iterates over it.\<close>

definition addToBatch :: "string \<times> gotime \<Rightarrow> (string \<times> gotime) list \<Rightarrow> (string \<times> gotime) list" where
  "addToBatch update b = AList.update (fst update) (snd update) b"

definition timeGateUpdate :: "('lru \<Rightarrow> string \<Rightarrow> gotime option \<times> 'lru) \<Rightarrow> ('lru \<Rightarrow> string \<Rightarrow> gotime \<Rightarrow> 'lru) \<Rightarrow> int
  \<Rightarrow> string \<times> gotime \<Rightarrow> 'lru \<times> (string \<times> gotime) list \<Rightarrow> 'lru \<times> (string \<times> gotime) list" where
  "timeGateUpdate lru_get lru_add delay update st = (case st of (c, b) \<Rightarrow>
     case lru_get c (fst update) of (accessTime, c1) \<Rightarrow>
       if (case accessTime of None \<Rightarrow> True | Some t \<Rightarrow> unixNano (snd update) - unixNano t > delay)
       then (lru_add c1 (fst update) (snd update), addToBatch update b) else (c1, b))"

definition collectUpdates :: "('lru \<Rightarrow> string \<Rightarrow> gotime option \<times> 'lru) \<Rightarrow> ('lru \<Rightarrow> string \<Rightarrow> gotime \<Rightarrow> 'lru) \<Rightarrow> int
  \<Rightarrow> 'lru \<times> (string \<times> gotime) list \<Rightarrow> 'db storage \<Rightarrow> ('lru \<times> (string \<times> gotime) list) \<times> 'db storage" where
  "collectUpdates lru_get lru_add delay st s =
    (foldl (\<lambda>st u. timeGateUpdate lru_get lru_add delay u st) st (accessUpdates s), s\<lparr>accessUpdates := []\<rparr>)"

fun flush_loop :: "'db ext_api \<Rightarrow> batch \<Rightarrow> (string \<times> gotime) list \<Rightarrow> 'db storage \<Rightarrow> 'db storage" where
  "flush_loop E b [] s = (if b \<noteq> [] then snd (meta_write E b s) else s)"
| "flush_loop E b ((key, t) # us) s =
    (let bucketIndexKey = MakeBucketedAccessIndexKey key; newKey = MakeBucketedAccessKey key t in
     case meta_get E bucketIndexKey s of (r, s1) \<Rightarrow>
       let b' = b @ (case r of Inr (Some oldBucketKey) \<Rightarrow> [WDelete oldBucketKey] | _ \<Rightarrow> [])
                  @ [WPut newKey [], WPut bucketIndexKey newKey] in
       if length b' > 1000 then flush_loop E [] us (snd (meta_write E b' s1)) else flush_loop E b' us s1)"

definition flushBatch :: "'db ext_api \<Rightarrow> (string \<times> gotime) list \<Rightarrow> 'db storage \<Rightarrow> nat \<times> 'db storage" where
  "flushBatch E b s = (if b = [] then (0, s) else (length b, flush_loop E [] b s))"

section \<open>What the walk relies on\<close>

locale eviction_index =
  fixes idx :: evictionIndex
  assumes entry_not_meta: "prefix (idx_prefix idx) k \<Longrightarrow> k \<noteq> MakeMetadataKey u"
    and entry_not_backref: "prefix (idx_prefix idx) k \<Longrightarrow> k \<noteq> backrefKey idx u"
    and entry_not_side: "prefix (idx_prefix idx) k \<Longrightarrow> \<not> side_key k"
    and backref_not_meta: "backrefKey idx u \<noteq> MakeMetadataKey w"
    and backref_inject: "backrefKey idx u = backrefKey idx w \<longleftrightarrow> u = w"
    and backref_not_side: "\<not> side_key (backrefKey idx u)"

text \<open>A key that has a row either has no entry and no back-reference, or its back-reference points
  at an existing entry of its own.\<close>

definition index_sound :: "evictionIndex \<Rightarrow> view \<Rightarrow> bool" where
  "index_sound idx m \<longleftrightarrow> (\<forall>u. m (MakeMetadataKey u) \<noteq> None \<longrightarrow> (case m (backrefKey idx u) of
       None \<Rightarrow> \<forall>k. prefix (idx_prefix idx) k \<longrightarrow> parseKey idx k = Inr u \<longrightarrow> m k = None
     | Some x \<Rightarrow> prefix (idx_prefix idx) x \<and> parseKey idx x = Inr u \<and> m x \<noteq> None))"

text \<open>Every row was written by the program or cannot be decoded by either decoder.\<close>

definition rows_ok :: "'a proto_api_scheme \<Rightarrow> view \<Rightarrow> bool" where
  "rows_ok P m \<longleftrightarrow> (\<forall>u b. m (MakeMetadataKey u) = Some b \<longrightarrow> (\<exists>v. marshal P v = Some b)
     \<or> unmarshal P b = None \<and> decodeValueMessageCleanupFields P b = None)"

text \<open>One view is another with some rows removed.\<close>

definition shrunk :: "view \<Rightarrow> view \<Rightarrow> bool" where
  "shrunk m m' \<longleftrightarrow> (\<forall>k. m' k = m k \<or> m' k = None)"

lemma index_soundD:
  assumes "index_sound idx m" "m (MakeMetadataKey u) = Some b"
  shows "m (backrefKey idx u) = None \<Longrightarrow> prefix (idx_prefix idx) k \<Longrightarrow> parseKey idx k = Inr u \<Longrightarrow> m k = None"
    and "m (backrefKey idx u) = Some x \<Longrightarrow> prefix (idx_prefix idx) x \<and> parseKey idx x = Inr u \<and> m x \<noteq> None"
  using assms unfolding index_sound_def by (auto dest!: spec [of _ u])

lemma index_soundI:
  assumes "\<And>u b k. m (MakeMetadataKey u) = Some b \<Longrightarrow> m (backrefKey idx u) = None \<Longrightarrow> prefix (idx_prefix idx) k \<Longrightarrow> parseKey idx k = Inr u \<Longrightarrow> m k = None"
    and "\<And>u b x. m (MakeMetadataKey u) = Some b \<Longrightarrow> m (backrefKey idx u) = Some x \<Longrightarrow> prefix (idx_prefix idx) x \<and> parseKey idx x = Inr u \<and> m x \<noteq> None"
  shows "index_sound idx m"
  unfolding index_sound_def
proof (intro allI impI, split option.split, intro conjI allI impI)
  fix u k assume "m (MakeMetadataKey u) \<noteq> None" "m (backrefKey idx u) = None" "prefix (idx_prefix idx) k" "parseKey idx k = Inr u"
  then show "m k = None" using assms(1) by blast
next
  fix u x assume "m (MakeMetadataKey u) \<noteq> None" "m (backrefKey idx u) = Some x"
  then have "prefix (idx_prefix idx) x \<and> parseKey idx x = Inr u \<and> m x \<noteq> None" using assms(2) by blast
  then show "prefix (idx_prefix idx) x" "parseKey idx x = Inr u" "m x \<noteq> None" by simp_all
qed

lemma wrap_int64_add_right [simp]: "wrap_int64 (a + wrap_int64 b) = wrap_int64 (a + b)"
  using wrap_int64_add_left [of b a] by (simp add: add.commute)

lemma wrap_int64_diff_right [simp]: "wrap_int64 (a - wrap_int64 b) = wrap_int64 (a - b)"
  by (simp add: wrap_int64_def algebra_simps mod_simps)

lemma size_inv_cong:
  assumes "size_inv P m n" "\<And>u. m' (MakeMetadataKey u) = m (MakeMetadataKey u)"
  shows "size_inv P m' n"
  using assms by (simp add: size_inv_def row_len_def)

lemma index_simps [simp]:
  "idx_prefix fifoEvictionIndex = FifoIndexPrefix" "parseKey fifoEvictionIndex = ParseFifoIndexKey"
  "backrefKey fifoEvictionIndex = MakeFifoBackrefKey" "idx_prefix lruEvictionIndex = AccessBucketPrefix"
  "backrefKey lruEvictionIndex = MakeBucketedAccessIndexKey"
  by (simp_all add: fifoEvictionIndex_def lruEvictionIndex_def GetFifoIndexPrefix_def GetOldestAccessBucketPrefix_def)

lemma index_keys:
  "AccessBucketPrefix @ z \<noteq> MakeMetadataKey u" "AccessBucketPrefix @ z \<noteq> MakeBucketedAccessIndexKey u"
  "FifoIndexPrefix @ z \<noteq> MakeMetadataKey u" "FifoIndexPrefix @ z \<noteq> MakeFifoBackrefKey u"
  by (simp_all add: key_defs prefix_defs)

lemma side_other:
  "AccessBucketPrefix @ z \<noteq> MakeDeleteIndexKey u" "AccessBucketPrefix @ z \<noteq> MakeDeletionQueueKey t u" "AccessBucketPrefix @ z \<noteq> MakeCompactionKey t u"
  "FifoIndexPrefix @ z \<noteq> MakeDeleteIndexKey u" "FifoIndexPrefix @ z \<noteq> MakeDeletionQueueKey t u" "FifoIndexPrefix @ z \<noteq> MakeCompactionKey t u"
  by (simp_all add: key_defs prefix_defs)

lemma entry_not_side_key: "\<not> side_key (AccessBucketPrefix @ z)" "\<not> side_key (FifoIndexPrefix @ z)"
  unfolding side_key_def using side_other by blast+

lemma backref_not_side_key: "\<not> side_key (MakeBucketedAccessIndexKey u)" "\<not> side_key (MakeFifoBackrefKey u)"
  using side_not_index index_key_make by blast+

lemmas index_laws = prefix_def index_keys entry_not_side_key backref_not_side_key

interpretation lru_index: eviction_index lruEvictionIndex
  by unfold_locales (auto simp: index_laws)

interpretation fifo_evict: eviction_index fifoEvictionIndex
  by unfold_locales (auto simp: index_laws)

text \<open>What the rest of the node keeps of the index is enough.\<close>

lemma index_inv_sound:
  assumes "index_inv m"
    and "\<And>u b k. m (MakeMetadataKey u) = Some b \<Longrightarrow> m (MakeFifoBackrefKey u) = None \<Longrightarrow> prefix FifoIndexPrefix k \<Longrightarrow> ParseFifoIndexKey k = Inr u \<Longrightarrow> m k = None"
  shows "index_sound fifoEvictionIndex m"
proof (rule index_soundI, unfold index_simps)
  fix u b x assume "m (MakeFifoBackrefKey u) = Some x"
  then obtain t where t: "time_ok t" "x = MakeFifoIndexKey u t" "m x = Some []"
    using index_invD(1) [OF assms(1), of u x] by blast
  have "ParseFifoIndexKey x = Inr u" using parse_fifo_make(1) [of t u] t(1,2) by (simp add: time_ok_def)
  moreover have "prefix FifoIndexPrefix x" using t(2) by (simp add: MakeFifoIndexKey_def)
  ultimately show "prefix FifoIndexPrefix x \<and> ParseFifoIndexKey x = Inr u \<and> m x \<noteq> None" using t(3) by blast
qed (rule assms(2))

section \<open>The invariant of a pass\<close>

text \<open>What holds of a view after evictions that freed \<open>b\<close> bytes of the \<open>n0\<close> of \<open>m0\<close>.\<close>

definition evict_keeps :: "'a proto_api_scheme \<Rightarrow> evictionIndex \<Rightarrow> view \<Rightarrow> int \<Rightarrow> view \<Rightarrow> int \<Rightarrow> bool" where
  "evict_keeps P idx m0 n0 m b \<longleftrightarrow> index_sound idx m \<and> rows_ok P m \<and> size_inv P m (n0 - b)
     \<and> (\<forall>u. m (MakeMetadataKey u) = m0 (MakeMetadataKey u) \<or> m (MakeMetadataKey u) = None)"

text \<open>The stored view \<open>m\<close>, the view \<open>p\<close> that the pending batch leads to, and the entries \<open>rem\<close> still
  to be visited.  A decodable row that the batch removes was reached by the entry that its
  back-reference names, which will not be visited again.\<close>

definition evict_inv :: "'a proto_api_scheme \<Rightarrow> evictionIndex \<Rightarrow> view \<Rightarrow> int \<Rightarrow> view \<Rightarrow> view \<Rightarrow> bytes set \<Rightarrow> int \<Rightarrow> int \<Rightarrow> bool" where
  "evict_inv P idx m0 n0 m p rem c pb \<longleftrightarrow> evict_keeps P idx m0 n0 m c \<and> evict_keeps P idx m0 n0 p (c + pb) \<and> shrunk m p
     \<and> (\<forall>u b. m (MakeMetadataKey u) = Some b \<longrightarrow> p (MakeMetadataKey u) = None \<longrightarrow> unmarshal P b \<noteq> None
          \<longrightarrow> (\<exists>k. m (backrefKey idx u) = Some k \<and> k \<notin> rem))
     \<and> (\<forall>k \<in> rem. p k \<noteq> None)"

lemma shrunkD: "shrunk m p \<Longrightarrow> p k = Some x \<Longrightarrow> m k = Some x"
  unfolding shrunk_def by (metis option.distinct(1))

lemma rows_ok_sub: "rows_ok P m \<Longrightarrow> (\<And>u b. p (MakeMetadataKey u) = Some b \<Longrightarrow> m (MakeMetadataKey u) = Some b) \<Longrightarrow> rows_ok P p"
  unfolding rows_ok_def by blast

context eviction_index
begin

lemma keeps_cong:
  assumes "evict_keeps P idx m0 n0 m b" "\<And>k. \<not> side_key k \<Longrightarrow> m' k = m k"
  shows "evict_keeps P idx m0 n0 m' b"
proof -
  have eq: "m' (MakeMetadataKey u) = m (MakeMetadataKey u)" "m' (backrefKey idx u) = m (backrefKey idx u)" for u
    using assms(2) backref_not_side by simp_all
  have ent: "m' k = m k" if "prefix (idx_prefix idx) k" for k using assms(2) entry_not_side that by blast
  have S: "index_sound idx m" using assms(1) by (simp add: evict_keeps_def)
  have "index_sound idx m'"
  proof (rule index_soundI, unfold eq)
    fix u b x assume "m (MakeMetadataKey u) = Some b" "m (backrefKey idx u) = Some x"
    then show "prefix (idx_prefix idx) x \<and> parseKey idx x = Inr u \<and> m' x \<noteq> None"
      using index_soundD(2) [OF S] ent by metis
  qed (use index_soundD(1) [OF S] ent in metis)
  then show ?thesis
    using assms(1) rows_ok_sub [of P m m'] size_inv_cong [of P m "n0 - b" m'] eq(1) unfolding evict_keeps_def by metis
qed

text \<open>Removing an entry that no row needs, and removing a key with its entry and its back-reference.\<close>

lemma keeps_drop_entry:
  assumes "evict_keeps P idx m0 n0 p b" "prefix (idx_prefix idx) k" "parseKey idx k = Inr u"
    and "p (MakeMetadataKey u) = None \<or> p (backrefKey idx u) \<noteq> Some k"
  shows "evict_keeps P idx m0 n0 (p(k := None)) b"
proof -
  have ne: "k \<noteq> MakeMetadataKey w" "k \<noteq> backrefKey idx w" for w
    using assms(2) entry_not_meta entry_not_backref by blast+
  have S: "index_sound idx p" using assms(1) by (simp add: evict_keeps_def)
  have "index_sound idx (p(k := None))"
  proof (rule index_soundI)
    fix w b x assume w: "(p(k := None)) (MakeMetadataKey w) = Some b" "(p(k := None)) (backrefKey idx w) = Some x"
    then have p: "p (MakeMetadataKey w) = Some b" "p (backrefKey idx w) = Some x" using ne by (simp_all split: if_splits)
    note x = index_soundD(2) [OF S p]
    have "x \<noteq> k" using assms(3,4) p x by auto
    then show "prefix (idx_prefix idx) x \<and> parseKey idx x = Inr w \<and> (p(k := None)) x \<noteq> None" using x by simp
  next
    fix w b k' assume "(p(k := None)) (MakeMetadataKey w) = Some b" "(p(k := None)) (backrefKey idx w) = None"
      "prefix (idx_prefix idx) k'" "parseKey idx k' = Inr w"
    then show "(p(k := None)) k' = None"
      using index_soundD(1) [OF S, of w b k'] ne(1) [of w] ne(2) [of w] by (simp split: if_splits)
  qed
  moreover have "(p(k := None)) (MakeMetadataKey w) = p (MakeMetadataKey w)" for w using ne(1) [of w] by simp
  ultimately show ?thesis
    using assms(1) rows_ok_sub [of P p "p(k := None)"] size_inv_cong [of P p "n0 - b" "p(k := None)"] unfolding evict_keeps_def by metis
qed

lemma keeps_drop_key:
  fixes p :: view
  assumes "evict_keeps P idx m0 n0 p b" "prefix (idx_prefix idx) k" "parseKey idx k = Inr u"
  defines "p' \<equiv> p(MakeMetadataKey u := None, k := None, backrefKey idx u := None)"
  shows "evict_keeps P idx m0 n0 p' (b + row_len P p u)"
proof -
  have ne: "k \<noteq> MakeMetadataKey w" "k \<noteq> backrefKey idx w" for w
    using assms(2) entry_not_meta entry_not_backref by blast+
  have row: "p' (MakeMetadataKey w) = (if w = u then None else p (MakeMetadataKey w))" for w
    using ne(1) [of w] backref_not_meta [of u w] backref_not_meta [of u u] ne(1) [of u] by (auto simp: p'_def)
  have ref: "p' (backrefKey idx w) = (if w = u then None else p (backrefKey idx w))" for w
    using ne(2) [of w] backref_not_meta [of w u] by (auto simp: p'_def backref_inject)
  have ent: "p' x = (if x = k then None else p x)" if "prefix (idx_prefix idx) x" for x
    using entry_not_meta [OF that, of u] entry_not_backref [OF that, of u] by (auto simp: p'_def)
  have S: "index_sound idx p" using assms(1) by (simp add: evict_keeps_def)
  have "index_sound idx p'"
  proof (rule index_soundI)
    fix w b x assume w: "p' (MakeMetadataKey w) = Some b" "p' (backrefKey idx w) = Some x"
    then have p: "p (MakeMetadataKey w) = Some b" "p (backrefKey idx w) = Some x" "w \<noteq> u"
      by (simp_all add: row ref split: if_splits)
    note x = index_soundD(2) [OF S p(1,2)]
    have "x \<noteq> k" using assms(3) x p(3) by auto
    then show "prefix (idx_prefix idx) x \<and> parseKey idx x = Inr w \<and> p' x \<noteq> None" using x ent [of x] by simp
  next
    fix w b k' assume "p' (MakeMetadataKey w) = Some b" "p' (backrefKey idx w) = None"
      "prefix (idx_prefix idx) k'" "parseKey idx k' = Inr w"
    then show "p' k' = None" using index_soundD(1) [OF S, of w b k'] ent [of k'] by (simp add: row ref split: if_splits)
  qed
  moreover have "rows_ok P p'"
  proof (rule rows_ok_sub)
    show "rows_ok P p" using assms(1) by (simp add: evict_keeps_def)
    show "p (MakeMetadataKey w) = Some x" if "p' (MakeMetadataKey w) = Some x" for w x
      using that row [of w] by (simp split: if_splits)
  qed
  moreover have "size_inv P p' (n0 - (b + row_len P p u))"
  proof -
    have "size_inv P p (n0 - b)" using assms(1) by (simp add: evict_keeps_def)
    then have "size_inv P p' (n0 - b + row_len P p' u - row_len P p u)" by (rule size_inv_update) (simp add: row)
    moreover have "row_len P p' u = 0" by (simp add: row_len_def row)
    ultimately show ?thesis by (simp add: algebra_simps)
  qed
  ultimately show ?thesis using assms(1) unfolding evict_keeps_def by (simp add: row)
qed

text \<open>The steps of the walk, on the stored view and the pending one.\<close>

lemma evict_inv_skip: "evict_inv P idx m0 n0 m p rem c pb \<Longrightarrow> evict_inv P idx m0 n0 m p (rem - {k}) c pb"
  unfolding evict_inv_def by blast

lemma evict_inv_drop_entry:
  assumes inv: "evict_inv P idx m0 n0 m p rem c pb" and k: "prefix (idx_prefix idx) k" "parseKey idx k = Inr u"
    and stale: "m (MakeMetadataKey u) = None \<or> (\<exists>x. m (backrefKey idx u) = Some x \<and> x \<noteq> k)"
  shows "evict_inv P idx m0 n0 m (p(k := None)) (rem - {k}) c pb"
proof -
  have sh: "shrunk m p" using inv by (simp add: evict_inv_def)
  have "p (MakeMetadataKey u) = None \<or> p (backrefKey idx u) \<noteq> Some k"
    using stale shrunkD [OF sh] by (metis not_None_eq option.inject)
  then have "evict_keeps P idx m0 n0 (p(k := None)) (c + pb)"
    using inv k keeps_drop_entry unfolding evict_inv_def by blast
  moreover have "shrunk m (p(k := None))" using sh by (simp add: shrunk_def)
  moreover have "\<forall>x \<in> rem - {k}. (p(k := None)) x \<noteq> None" using inv by (simp add: evict_inv_def)
  moreover have eq: "(p(k := None)) (MakeMetadataKey w) = p (MakeMetadataKey w)" for w using entry_not_meta [OF k(1), of w] by simp
  ultimately show ?thesis using inv unfolding evict_inv_def eq by blast
qed

lemma evict_inv_drop_key:
  fixes p :: view
  assumes inv: "evict_inv P idx m0 n0 m p rem c pb" and k: "prefix (idx_prefix idx) k" "parseKey idx k = Inr u"
    and rem: "\<And>x. x \<in> rem \<Longrightarrow> prefix (idx_prefix idx) x"
    and row: "m (MakeMetadataKey u) = Some b" and cur: "unmarshal P b = None \<or> m (backrefKey idx u) = Some k"
    and len: "row_len P p u = n"
  defines "p' \<equiv> p(MakeMetadataKey u := None, k := None, backrefKey idx u := None)"
  shows "evict_inv P idx m0 n0 m p' (rem - {k}) c (pb + n)"
proof -
  have "evict_keeps P idx m0 n0 p' (c + pb + n)"
    using inv keeps_drop_key [OF _ k, of P m0 n0 p "c + pb"] unfolding evict_inv_def p'_def len by blast
  moreover have "shrunk m p'" using inv by (simp add: evict_inv_def shrunk_def p'_def)
  moreover have "p' x \<noteq> None" if "x \<in> rem - {k}" for x
    using that inv rem [of x] entry_not_meta [of x u] entry_not_backref [of x u] by (auto simp: p'_def evict_inv_def)
  moreover have "\<exists>k'. m (backrefKey idx w) = Some k' \<and> k' \<notin> rem - {k}"
    if w: "m (MakeMetadataKey w) = Some b'" "p' (MakeMetadataKey w) = None" "unmarshal P b' \<noteq> None" for w b'
  proof (cases "w = u")
    case True
    then show ?thesis using w(1,3) row cur by auto
  next
    case False
    then have "p (MakeMetadataKey w) = None"
      using w(2) entry_not_meta [OF k(1), of w] backref_not_meta [of u w] by (auto simp: p'_def split: if_splits)
    then show ?thesis using inv w(1,3) unfolding evict_inv_def by blast
  qed
  ultimately show ?thesis using inv unfolding evict_inv_def by (simp add: add.assoc)
qed

text \<open>A decodable row reached by the entry its back-reference names is still there.\<close>

lemma evict_inv_current:
  assumes inv: "evict_inv P idx m0 n0 m p rem c pb" and k: "k \<in> rem" "prefix (idx_prefix idx) k" "parseKey idx k = Inr u"
    and row: "m (MakeMetadataKey u) = Some b" "unmarshal P b \<noteq> None"
    and cur: "\<not> (m (backrefKey idx u) \<noteq> None \<and> m (backrefKey idx u) \<noteq> Some k)"
  shows "m (backrefKey idx u) = Some k" "p (MakeMetadataKey u) = Some b"
proof -
  have sh: "shrunk m p" and snd: "index_sound idx m" and pk: "p k \<noteq> None"
    using inv k(1) by (simp_all add: evict_inv_def evict_keeps_def)
  then show ref: "m (backrefKey idx u) = Some k"
    using index_soundD(1) [OF snd row(1) _ k(2,3)] cur shrunkD [OF sh, of k] by auto
  show "p (MakeMetadataKey u) = Some b"
    using inv row ref k(1) unfolding evict_inv_def shrunk_def by (metis option.inject)
qed

end

section \<open>A pass keeps it\<close>

text \<open>A key without an entry is never evicted.\<close>

definition spares :: "bytes \<Rightarrow> evict_acc \<Rightarrow> bool" where
  "spares x a \<longleftrightarrow> (\<forall>w \<in> set (ev_batch a). wop_key w \<noteq> x)"

text \<open>The state of a pass: the wrapped sums stand for the freed bytes.\<close>

definition pass_ok :: "'db ext_api \<Rightarrow> evictionIndex \<Rightarrow> ('db \<Rightarrow> view) \<Rightarrow> view \<Rightarrow> int \<Rightarrow> 'db storage \<Rightarrow> bytes set \<Rightarrow> evict_acc \<Rightarrow> 'db storage \<Rightarrow> bool" where
  "pass_ok E idx view m0 n0 s0 rem a s \<longleftrightarrow> meta_only s0 s \<and> (\<exists>c pb. committedBytes a = wrap_int64 c \<and> pendingBytes a = wrap_int64 pb
     \<and> evict_inv E idx m0 n0 (view (st_meta s)) (apply_batch E (view (st_meta s)) (ev_batch a)) rem c pb)"

context rocksdb
begin

lemma stage_files_ok:
  "meta_only s (stage_files E nano i vms s) \<and> (\<forall>k. \<not> side_key k \<longrightarrow> view (st_meta (stage_files E nano i vms s)) k = view (st_meta s) k)"
proof (induction vms arbitrary: i s)
  case (Cons vm vms)
  let ?s = "stageFileDeletion E (nano i) vm s"
  have "meta_only s ?s \<and> (\<forall>k. \<not> side_key k \<longrightarrow> view (st_meta ?s) k = view (st_meta s) k)"
    using stageRawFileDeletion_ok [OF refl] updateDeleteIndex_ok [OF refl] by (auto simp: stageFileDeletion_def)
  then show ?case using Cons [of ?s "Suc i"] meta_only_trans [of s ?s] by simp
qed simp

end

locale evicting = rocksdb E tag var byt view + eviction_index idx
  for E :: "'db ext_api" and tag :: "nat \<Rightarrow> nat \<Rightarrow> bytes" and var :: "nat \<Rightarrow> bytes" and byt :: "bytes \<Rightarrow> bytes"
    and view :: "'db \<Rightarrow> view" and idx :: evictionIndex
begin

lemma row_len_unmarshal:
  assumes "rows_ok E m" "m (MakeMetadataKey u) = Some b"
  shows "unmarshal E b = None \<Longrightarrow> row_len E m u = 0" "unmarshal E b = Some v \<Longrightarrow> row_len E m u = ValueLength v"
proof -
  consider w where "marshal E w = Some b" | "unmarshal E b = None" "decodeValueMessageCleanupFields E b = None"
    using assms(1) [unfolded rows_ok_def, rule_format, OF assms(2)] by metis
  then have "(unmarshal E b = None \<longrightarrow> row_len E m u = 0) \<and> (\<forall>v. unmarshal E b = Some v \<longrightarrow> row_len E m u = ValueLength v)"
  proof cases
    case 1
    then show ?thesis using assms(2) scanned_cleanup [OF 1] unmarshal_marshal [OF 1] by (simp add: row_len_def cleanup_of_def)
  qed (use assms(2) in \<open>simp add: row_len_def\<close>)
  then show "unmarshal E b = None \<Longrightarrow> row_len E m u = 0" "unmarshal E b = Some v \<Longrightarrow> row_len E m u = ValueLength v" by blast+
qed

lemma pass_okI:
  assumes "meta_only s0 s" "committedBytes a = wrap_int64 c" "pendingBytes a = wrap_int64 pb" "view (st_meta s) = m"
    and "evict_inv E idx m0 n0 m (apply_batch E m (ev_batch a)) rem c pb"
  shows "pass_ok E idx view m0 n0 s0 rem a s"
  unfolding pass_ok_def using assms by blast

lemma commit_ok:
  assumes ok: "pass_ok E idx view m0 n0 s0 rem a s" and run: "commit E e a s = (a', s')"
    and rem: "\<And>x. x \<in> rem \<Longrightarrow> prefix (idx_prefix idx) x"
  shows "pass_ok E idx view m0 n0 s0 rem a' s'" "ev_batch a' = []"
proof -
  obtain c pb where only: "meta_only s0 s" and cnt: "committedBytes a = wrap_int64 c" "pendingBytes a = wrap_int64 pb"
    and inv: "evict_inv E idx m0 n0 (view (st_meta s)) (apply_batch E (view (st_meta s)) (ev_batch a)) rem c pb"
    using ok unfolding pass_ok_def by blast
  let ?p = "apply_batch E (view (st_meta s)) (ev_batch a)"
  have base: "evict_inv E idx m0 n0 m m rem c' 0" if "evict_keeps E idx m0 n0 m c'" "\<And>k. k \<in> rem \<Longrightarrow> m k \<noteq> None" for m c'
    using that by (simp add: evict_inv_def shrunk_def)
  have keep: "evict_keeps E idx m0 n0 (view (st_meta s)) c" "evict_keeps E idx m0 n0 ?p (c + pb)" "shrunk (view (st_meta s)) ?p"
    "\<And>k. k \<in> rem \<Longrightarrow> ?p k \<noteq> None"
    using inv by (simp_all add: evict_inv_def)
  show "pass_ok E idx view m0 n0 s0 rem a' s'"
  proof (cases "ev_batch a = []")
    case False
    obtain r s1 where w: "meta_write E (ev_batch a) s = (r, s1)" by fastforce
    show ?thesis
    proof (cases r)
      case None
      then have a': "committedBytes a' = wrap_int64 (c + pb)" "pendingBytes a' = wrap_int64 0" "ev_batch a' = []"
        and s': "s' = stage_files E (ev_nano e) (evictedCount a) (pendingFiles a) s1"
        using run w False cnt by (auto simp: commit_def Let_def)
      have st: "meta_only s1 s'" "\<And>k. \<not> side_key k \<Longrightarrow> view (st_meta s') k = ?p k"
        using stage_files_ok [of s1] meta_write_ok(2) [OF w None] s' by simp_all
      have "evict_keeps E idx m0 n0 (view (st_meta s')) (c + pb)" by (rule keeps_cong [OF keep(2) st(2)])
      moreover have "view (st_meta s') k \<noteq> None" if "k \<in> rem" for k using that keep(4) st(2) entry_not_side rem by simp
      ultimately show ?thesis
        using a' base st(1) meta_write_ok(1) [OF w] only
        by (intro pass_okI [OF _ a'(1,2) refl]) (auto intro: meta_only_trans)
    next
      case (Some err)
      then have a': "committedBytes a' = wrap_int64 c" "pendingBytes a' = wrap_int64 0" "ev_batch a' = []" "s' = s1"
        using run w False cnt by (auto simp: commit_def Let_def)
      have v: "view (st_meta s1) = view (st_meta s)" using meta_write_ok(3) [OF w Some] .
      have "view (st_meta s) k \<noteq> None" if "k \<in> rem" for k using keep(4) [OF that] shrunkD [OF keep(3)] by blast
      then have "evict_inv E idx m0 n0 (view (st_meta s)) (apply_batch E (view (st_meta s)) (ev_batch a')) rem c 0"
        using base [OF keep(1)] a'(3) by simp
      then show ?thesis
        using meta_write_ok(1) [OF w] only v a'(4) by (intro pass_okI [OF _ a'(1,2)]) (auto intro: meta_only_trans)
    qed
  qed (use ok run in \<open>simp add: commit_def\<close>)
  show "ev_batch a' = []"
    using run by (cases "ev_batch a = []") (auto simp: commit_def Let_def split: prod.splits option.splits)
qed

lemma evict_entry_ok:
  assumes ok: "pass_ok E idx view m0 n0 s0 rem a s" and run: "evict_entry E idx now k a s = (a', s')"
    and rem: "\<And>x. x \<in> rem \<Longrightarrow> prefix (idx_prefix idx) x" and k: "k \<in> rem"
  shows "pass_ok E idx view m0 n0 s0 (rem - {k}) a' s'"
proof -
  obtain c pb where only: "meta_only s0 s" and cnt: "committedBytes a = wrap_int64 c" "pendingBytes a = wrap_int64 pb"
    and inv: "evict_inv E idx m0 n0 (view (st_meta s)) (apply_batch E (view (st_meta s)) (ev_batch a)) rem c pb"
    using ok unfolding pass_ok_def by blast
  define m where "m = view (st_meta s)"
  note inv = inv [folded m_def]
  have rows: "rows_ok E m" "rows_ok E (apply_batch E m (ev_batch a))" "shrunk m (apply_batch E m (ev_batch a))"
    using inv by (simp_all add: evict_inv_def evict_keeps_def)
  note pk = rem [OF k]
  have same: "pass_ok E idx view m0 n0 s0 (rem - {k}) a t" if "meta_only s t" "view (st_meta t) = m" for t
    using that only meta_only_trans by (intro pass_okI [OF _ cnt _ evict_inv_skip [OF inv]]) auto
  have drop: "pass_ok E idx view m0 n0 s0 (rem - {k}) (a\<lparr>ev_batch := ev_batch a @ [WDelete k]\<rparr>) t"
    if "meta_only s t" "view (st_meta t) = m" "parseKey idx k = Inr u"
      "m (MakeMetadataKey u) = None \<or> (\<exists>x. m (backrefKey idx u) = Some x \<and> x \<noteq> k)" for t u
    using that(1,2) only meta_only_trans cnt evict_inv_drop_entry [OF inv pk that(3,4)]
    by (intro pass_okI [of s0 t _ c pb m]) auto
  show ?thesis
  proof (cases "parseKey idx k")
    case (Inl err)
    then show ?thesis using run same [of s] by (simp add: evict_entry_def m_def)
  next
    case (Inr u)
    let ?p = "apply_batch E m (ev_batch a)"
    obtain r s1 where g: "meta_get E (MakeMetadataKey u) s = (r, s1)" by fastforce
    note s1 = meta_get_ok(1,2) [OF g, folded m_def]
    show ?thesis
    proof (cases "\<exists>b. r = Inr (Some b)")
      case False
      then consider err where "r = Inl err" | "r = Inr None" by (cases r) auto
      then show ?thesis
      proof cases
        case 2
        then have "m (MakeMetadataKey u) = None" using meta_get_Inr g by (simp add: m_def)
        then show ?thesis using run Inr g 2 drop [OF s1 Inr] by (auto simp: evict_entry_def Let_def)
      qed (use run Inr g same [OF s1] in \<open>auto simp: evict_entry_def Let_def\<close>)
    next
      case True
      then obtain b where b: "r = Inr (Some b)" by blast
      then have row: "m (MakeMetadataKey u) = Some b" using meta_get_Inr g by (simp add: m_def)
      show ?thesis
      proof (cases "unmarshal E b")
        case None
        have "row_len E ?p u = 0"
          using row_len_unmarshal(1) [OF rows(2) _ None] row rows(3) by (auto simp: shrunk_def row_len_def dest!: spec [of _ "MakeMetadataKey u"])
        from evict_inv_drop_key [OF inv pk Inr rem row disjI1 [OF None] this]
        show ?thesis using run Inr g b None s1 only cnt
          by (intro pass_okI [of s0 s' _ c pb m]) (auto simp: evict_entry_def Let_def intro: meta_only_trans)
      next
        case (Some v)
        obtain r2 s2 where g2: "meta_get E (backrefKey idx u) s1 = (r2, s2)" by fastforce
        have s2: "meta_only s s2" "view (st_meta s2) = m" using meta_get_ok(1,2) [OF g2] s1 meta_only_trans by auto
        consider "a' = a" "meta_only s s'" "view (st_meta s') = m"
          | cur where "r2 = Inr cur" "s' = s2" "cur \<noteq> None" "cur \<noteq> Some k" "a' = a\<lparr>ev_batch := ev_batch a @ [WDelete k]\<rparr>"
          | cur where "r2 = Inr cur" "s' = s2" "\<not> (cur \<noteq> None \<and> cur \<noteq> Some k)"
            "a' = a\<lparr>ev_batch := ev_batch a @ [WDelete (MakeMetadataKey u), WDelete k, WDelete (backrefKey idx u)],
               pendingBytes := wrap_int64 (pendingBytes a + ValueLength v),
               pendingCount := pendingCount a + 1, pendingFiles := pendingFiles a @ [v]\<rparr>"
          using run [unfolded evict_entry_def Inr] g b Some g2 s1 s2 by (cases r2) (auto simp: Let_def split: if_splits)
        then show ?thesis
        proof cases
          case 1
          then show ?thesis using same [of s'] by simp
        next
          case 2
          then have "m (backrefKey idx u) = cur" using meta_get_Inr [of "backrefKey idx u" s1 cur s2] g2 s1(2) by simp
          then show ?thesis using 2 drop [OF s2 Inr] by auto
        next
          case 3
          then have "m (backrefKey idx u) = cur" using meta_get_Inr [of "backrefKey idx u" s1 cur s2] g2 s1(2) by simp
          then have now: "m (backrefKey idx u) = Some k" "?p (MakeMetadataKey u) = Some b"
            using evict_inv_current [OF inv k pk Inr row] Some 3(3) by simp_all
          from evict_inv_drop_key [OF inv pk Inr rem row disjI2 [OF now(1)] row_len_unmarshal(2) [OF rows(2) now(2) Some]]
          show ?thesis using 3(2,4) s2 only cnt
            by (intro pass_okI [of s0 s' _ c "pb + ValueLength v" m]) (auto intro: meta_only_trans)
        qed
      qed
    qed
  qed
qed

lemma evict_loop_ok:
  assumes "pass_ok E idx view m0 n0 s0 {k \<in> fst ` set rows. prefix (idx_prefix idx) k} a s" "distinct (map fst rows)"
  shows "\<exists>rem. (\<forall>x \<in> rem. prefix (idx_prefix idx) x) \<and> pass_ok E idx view m0 n0 s0 rem
    (fst (evict_loop E idx e target i rows a s)) (snd (evict_loop E idx e target i rows a s))"
  using assms
proof (induction rows arbitrary: a s i)
  case Nil
  then show ?case by (intro exI [of _ "{}"]) simp
next
  case (Cons r rows)
  obtain k v where r: "r = (k, v)" by fastforce
  let ?R = "\<lambda>rows. {k \<in> fst ` set rows. prefix (idx_prefix idx) k}"
  show ?case
  proof (cases "\<not> prefix (idx_prefix idx) k \<or> ev_stop e i")
    case True
    then show ?thesis using Cons.prems(1) by (intro exI [of _ "?R (r # rows)"]) (simp add: r)
  next
    case False
    obtain a1 s1 where c: "(if length (ev_batch a) \<ge> 1000 then commit E e a s else (a, s)) = (a1, s1)" by fastforce
    have ok1: "pass_ok E idx view m0 n0 s0 (?R (r # rows)) a1 s1"
      using c Cons.prems(1) commit_ok(1) [OF Cons.prems(1), of e a1 s1] by (simp split: if_splits)
    obtain a2 s2 where en: "evict_entry E idx (ev_unix e i) k a1 s1 = (a2, s2)" by fastforce
    have "?R (r # rows) - {k} = ?R rows" using Cons.prems(2) by (auto simp: r)
    then have ok2: "pass_ok E idx view m0 n0 s0 (?R rows) a2 s2"
      using evict_entry_ok [OF ok1 en] False by (simp add: r)
    have "evict_loop E idx e target i (r # rows) a s = (if target \<le> wrap_int64 (committedBytes a1 + pendingBytes a1) then (a1, s1)
        else evict_loop E idx e target (Suc i) rows a2 s2)"
      using False c en by (simp add: r)
    then show ?thesis using Cons.IH [OF ok2, of "Suc i"] Cons.prems(2) ok1
      by (cases "target \<le> wrap_int64 (committedBytes a1 + pendingBytes a1)") (auto intro!: exI [of _ "?R (r # rows)"])
  qed
qed

lemma evictByIndex_ok:
  assumes "index_sound idx (view (st_meta s))" "rows_ok E (view (st_meta s))" "size_inv E (view (st_meta s)) n0"
    and "evictByIndex E idx e target s = (n, s')"
  shows "\<exists>freed. totalSize s' = wrap_int64 (totalSize s - freed) \<and> st_disk s' = st_disk s
    \<and> evict_keeps E idx (view (st_meta s)) n0 (view (st_meta s')) freed"
proof -
  let ?m = "view (st_meta s)"
  obtain rows err s1 where sk: "meta_seek E (idx_prefix idx) s = ((rows, err), s1)" by (metis prod.collapse)
  have v1: "view (st_meta s1) = ?m" "meta_only s s1" and srt: "distinct (map fst rows)"
    using seek_state(1) [OF sk] sk seek_sorted [of "st_meta s" "idx_prefix idx"] strict_sorted_iff
    by (auto simp: meta_seek_def split: prod.splits)
  have "evict_keeps E idx ?m n0 ?m 0" using assms(1-3) by (simp add: evict_keeps_def)
  then have "pass_ok E idx view ?m n0 s {k \<in> fst ` set rows. prefix (idx_prefix idx) k} evict_start s1"
    using v1 seek_state(3) [OF sk] by (intro pass_okI [of s s1 _ 0 0 ?m]) (auto simp: evict_start_def evict_inv_def shrunk_def wrap_int64_def)
  from evict_loop_ok [OF this srt, of e target 0] obtain rem a s2
    where l: "evict_loop E idx e target 0 rows evict_start s1 = (a, s2)" "\<And>x. x \<in> rem \<Longrightarrow> prefix (idx_prefix idx) x"
      "pass_ok E idx view ?m n0 s rem a s2"
    by (metis prod.collapse)
  obtain a' s3 where c: "commit E e a s2 = (a', s3)" by fastforce
  note ok = commit_ok [OF l(3) c l(2)]
  obtain freed where "committedBytes a' = wrap_int64 freed" "evict_keeps E idx ?m n0 (view (st_meta s3)) freed" "meta_only s s3"
    using ok(1) unfolding pass_ok_def evict_inv_def by blast
  moreover have "s' = UpdateSize (- committedBytes a') s3" using assms(4) sk l(1) c by (simp add: evictByIndex_def)
  ultimately show ?thesis
    using meta_only_fields(1,3) [of s s3] by (intro exI [of _ freed]) (simp add: UpdateSize_def)
qed

lemma commit_spares:
  assumes "commit E e a s = (a', s')" "spares (MakeMetadataKey u) a"
  shows "view (st_meta s') (MakeMetadataKey u) = view (st_meta s) (MakeMetadataKey u)" "spares (MakeMetadataKey u) a'"
proof -
  obtain r s1 where w: "meta_write E (ev_batch a) s = (r, s1)" by fastforce
  have "view (st_meta s1) (MakeMetadataKey u) = view (st_meta s) (MakeMetadataKey u)"
    using meta_write_ok(2,3) [OF w] assms(2) by (cases r) (auto simp: spares_def intro!: apply_batch_same)
  then show "view (st_meta s') (MakeMetadataKey u) = view (st_meta s) (MakeMetadataKey u)"
    using assms(1) w stage_files_ok [of s1] by (cases r) (auto simp: commit_def Let_def split: if_splits)
  show "spares (MakeMetadataKey u) a'"
    using assms w by (cases r) (auto simp: commit_def Let_def spares_def split: if_splits)
qed

lemma evict_entry_spares:
  assumes "evict_entry E idx now k a s = (a', s')" "spares (MakeMetadataKey u) a" "prefix (idx_prefix idx) k" "parseKey idx k \<noteq> Inr u"
  shows "view (st_meta s') = view (st_meta s)" "spares (MakeMetadataKey u) a'"
proof -
  have "view (st_meta s') = view (st_meta s) \<and> spares (MakeMetadataKey u) a'"
    using assms entry_not_meta [OF assms(3), of u] backref_not_meta [of _ u]
    by (auto simp: evict_entry_def Let_def spares_def dest!: meta_get_ok(2) split: sum.splits prod.splits option.splits if_splits)
  then show "view (st_meta s') = view (st_meta s)" "spares (MakeMetadataKey u) a'" by simp_all
qed

lemma evict_loop_spares:
  assumes "evict_loop E idx e target i rows a s = (a', s')" "spares (MakeMetadataKey u) a"
    and "\<And>k v. (k, v) \<in> set rows \<Longrightarrow> prefix (idx_prefix idx) k \<Longrightarrow> parseKey idx k \<noteq> Inr u"
  shows "view (st_meta s') (MakeMetadataKey u) = view (st_meta s) (MakeMetadataKey u) \<and> spares (MakeMetadataKey u) a'"
  using assms
proof (induction rows arbitrary: a s i)
  case (Cons r rows)
  obtain k v where r: "r = (k, v)" by fastforce
  obtain a1 s1 where c: "(if length (ev_batch a) \<ge> 1000 then commit E e a s else (a, s)) = (a1, s1)" by fastforce
  have one: "view (st_meta s1) (MakeMetadataKey u) = view (st_meta s) (MakeMetadataKey u)" "spares (MakeMetadataKey u) a1"
    using c commit_spares [of e a s a1 s1 u] Cons.prems(2) by (auto split: if_splits)
  obtain a2 s2 where en: "evict_entry E idx (ev_unix e i) k a1 s1 = (a2, s2)" by fastforce
  show ?case
  proof (cases "prefix (idx_prefix idx) k \<and> \<not> ev_stop e i \<and> \<not> target \<le> wrap_int64 (committedBytes a1 + pendingBytes a1)")
    case True
    then have loop: "evict_loop E idx e target (Suc i) rows a2 s2 = (a', s')" using Cons.prems(1) c en by (simp add: r)
    have "parseKey idx k \<noteq> Inr u" using Cons.prems(3) [of k v] True by (simp add: r)
    note two = evict_entry_spares [OF en one(2) True [THEN conjunct1] this]
    have "view (st_meta s') (MakeMetadataKey u) = view (st_meta s2) (MakeMetadataKey u) \<and> spares (MakeMetadataKey u) a'"
      by (rule Cons.IH [OF loop two(2)], rule Cons.prems(3) [OF list.set_intros(2)])
    then show ?thesis using two(1) one(1) by simp
  next
    case False
    then have "(a', s') = (a, s) \<or> (a', s') = (a1, s1)" using Cons.prems(1) c by (auto simp: r split: if_splits)
    then show ?thesis using one Cons.prems(2) by auto
  qed
qed simp

lemma evictByIndex_spares:
  assumes "evictByIndex E idx e target s = (n, s')"
    and none: "\<And>k v. view (st_meta s) k = Some v \<Longrightarrow> prefix (idx_prefix idx) k \<Longrightarrow> parseKey idx k \<noteq> Inr u"
  shows "view (st_meta s') (MakeMetadataKey u) = view (st_meta s) (MakeMetadataKey u)"
proof -
  obtain rows err s1 where sk: "meta_seek E (idx_prefix idx) s = ((rows, err), s1)" by (metis prod.collapse)
  obtain a s2 where l: "evict_loop E idx e target 0 rows evict_start s1 = (a, s2)" by fastforce
  obtain a' s3 where c: "commit E e a s2 = (a', s3)" by fastforce
  have s0: "spares (MakeMetadataKey u) evict_start" by (simp add: spares_def evict_start_def)
  have "view (st_meta s2) (MakeMetadataKey u) = view (st_meta s1) (MakeMetadataKey u) \<and> spares (MakeMetadataKey u) a"
    using none seek_state(3) [OF sk] by (intro evict_loop_spares [OF l s0]) blast
  then show ?thesis
    using commit_spares(1) [OF c, of u] seek_state(1) [OF sk] assms(1) sk l c by (auto simp: evictByIndex_def UpdateSize_def)
qed

end

section \<open>What a flush of access times does\<close>

lemma index_inv_access_move:
  assumes "index_inv m" "time_ok t" "prev = None \<or> prev = m (MakeBucketedAccessIndexKey k)"
  shows "index_inv ((case prev of None \<Rightarrow> m | Some p \<Rightarrow> m(p := None))
     (MakeBucketedAccessKey k t \<mapsto> [], MakeBucketedAccessIndexKey k \<mapsto> MakeBucketedAccessKey k t))"
proof -
  let ?m = "(case prev of None \<Rightarrow> m | Some p \<Rightarrow> m(p := None))(MakeBucketedAccessIndexKey k := None)"
  have "index_inv ?m" using index_inv_drop_access [OF assms(1,3)] .
  from index_inv_access_put [OF this assms(2), of k] show ?thesis
    by (simp add: fun_upd_twist [of "MakeBucketedAccessKey k t"])
qed

context rocksdb
begin

text \<open>Whatever reads and writes fail, every key the flush moves keeps one entry that its
  back-reference names.\<close>

lemma flush_loop_index:
  assumes "index_inv (view (st_meta s))" "index_inv (apply_batch E (view (st_meta s)) b)" "distinct (map fst us)" "\<forall>u \<in> set us. time_ok (snd u)"
    and "\<And>u. u \<in> fst ` set us \<Longrightarrow> apply_batch E (view (st_meta s)) b (MakeBucketedAccessIndexKey u) = view (st_meta s) (MakeBucketedAccessIndexKey u)"
  shows "index_inv (view (st_meta (flush_loop E b us s)))"
  using assms
proof (induction us arbitrary: b s)
  case Nil
  obtain r s' where w: "meta_write E b s = (r, s')" by fastforce
  then show ?case using Nil.prems(1,2) meta_write_ok(2,3) [OF w] by (cases r) auto
next
  case (Cons u us)
  obtain key t where u: "u = (key, t)" by fastforce
  let ?bk = "MakeBucketedAccessIndexKey key" and ?nk = "MakeBucketedAccessKey key t" and ?m = "view (st_meta s)"
  obtain r s1 where g: "meta_get E ?bk s = (r, s1)" by fastforce
  note v = meta_get_ok(2) [OF g]
  define prev where "prev = (case r of Inr (Some p) \<Rightarrow> Some p | _ \<Rightarrow> None)"
  obtain c where c: "c = b @ (case prev of None \<Rightarrow> [] | Some p \<Rightarrow> [WDelete p]) @ [WPut ?nk [], WPut ?bk ?nk]" by simp
  have loop: "flush_loop E b (u # us) s = (if length c > 1000 then flush_loop E [] us (snd (meta_write E c s1)) else flush_loop E c us s1)"
    using g by (auto simp: u c prev_def Let_def split: sum.splits option.splits)
  have p: "prev = None \<or> prev = apply_batch E ?m b ?bk"
    using meta_get_ok(3) [OF g] Cons.prems(5) [of key] by (auto simp: prev_def u split: sum.splits option.splits)
  have app: "apply_batch E ?m c = (case prev of None \<Rightarrow> apply_batch E ?m b | Some p \<Rightarrow> (apply_batch E ?m b)(p := None))(?nk \<mapsto> [], ?bk \<mapsto> ?nk)"
    by (simp add: c split: option.splits)
  have inv: "index_inv (apply_batch E ?m c)"
    unfolding app by (rule index_inv_access_move [OF Cons.prems(2) _ p]) (use Cons.prems(4) in \<open>simp add: u\<close>)
  have other: "apply_batch E ?m c (MakeBucketedAccessIndexKey w) = ?m (MakeBucketedAccessIndexKey w)" if "w \<in> fst ` set us" for w
  proof -
    have "w \<noteq> key" using Cons.prems(3) that by (auto simp: u)
    moreover have "x \<noteq> MakeBucketedAccessIndexKey w" if "prev = Some x" for x
      using p that index_invD(2) [OF Cons.prems(2), of key x] by auto
    ultimately show ?thesis using Cons.prems(5) [of w] that by (auto simp: app split: option.splits)
  qed
  obtain r2 s2 where w: "meta_write E c s1 = (r2, s2)" by fastforce
  have "index_inv (view (st_meta s2))" using Cons.prems(1) inv meta_write_ok(2,3) [OF w] v by (cases r2) simp_all
  then have full: "index_inv (view (st_meta (flush_loop E [] us s2)))"
    using Cons.prems(3,4) by (intro Cons.IH) (simp_all add: u)
  have part: "index_inv (view (st_meta (flush_loop E c us s1)))"
    using Cons.prems(1,3,4) inv other v by (intro Cons.IH) (simp_all add: u)
  show ?case unfolding loop using full part w by simp
qed

lemma flushBatch_index:
  assumes "index_inv (view (st_meta s))" "distinct (map fst b)" "\<forall>u \<in> set b. time_ok (snd u)" "flushBatch E b s = (n, s')"
  shows "index_inv (view (st_meta s'))"
  using flush_loop_index [of s "[]" b] assms by (auto simp: flushBatch_def split: if_splits)

end

section \<open>What the pruning of buckets does\<close>

definition old_bucket :: "string \<Rightarrow> bytes \<times> bytes \<Rightarrow> bool" where
  "old_bucket cutoffBucket r \<longleftrightarrow> prefix GetOldestAccessBucketPrefix (fst r) \<and> ExtractAccessBucketFromKey (fst r) \<noteq> []
     \<and> ExtractAccessBucketFromKey (fst r) < cutoffBucket"

definition access_entries_ok :: "view \<Rightarrow> bool" where
  "access_entries_ok m \<longleftrightarrow> (\<forall>k. m k \<noteq> None \<longrightarrow> prefix AccessBucketPrefix k \<longrightarrow> (\<exists>w t. time_ok t \<and> k = MakeBucketedAccessKey w t))"

lemma take_mono: "xs \<le> ys \<Longrightarrow> take n xs \<le> take n (ys :: 'a :: linorder list)"
proof (induction n arbitrary: xs ys)
  case (Suc n)
  then show ?case by (cases xs; cases ys) auto
qed simp

lemma bucket_of_entry: "time_ok t \<Longrightarrow> ExtractAccessBucketFromKey (MakeBucketedAccessKey u t) = GetBucketedAccessKey t"
  using length_format [of t] by (simp add: ExtractAccessBucketFromKey_def MakeBucketedAccessKey_def GetBucketedAccessKey_def time_ok_def Let_def)

lemma takeWhile_all_before:
  assumes "sorted_wrt (<) (map fst rows)" "r \<in> set rows" "P r" "\<And>q. q \<in> set rows \<Longrightarrow> fst q < fst r \<Longrightarrow> P q"
  shows "r \<in> set (takeWhile P rows)"
  using assms by (induction rows) auto

lemma apply_deletes: "apply_batch P m (map (\<lambda>r. WDelete (f r)) rs) k = (if k \<in> f ` set rs then None else m k)"
  by (induction rs arbitrary: m) auto

context rocksdb
begin

lemma bucket_loop_only: "meta_only s (bucket_loop E c b rows s)"
proof (induction rows arbitrary: b s)
  case (Cons r rows)
  have w: "meta_only s (snd (meta_write E b s))" for b by (simp add: meta_write_def split: prod.split)
  show ?case using w Cons meta_only_trans [OF w Cons] by (cases r) (simp add: Let_def)
qed (simp add: meta_write_def split: prod.split)

lemma cleanupOldBuckets_only: "meta_only s (cleanupOldBuckets E now olderThan s)"
  unfolding cleanupOldBuckets_def meta_seek_def Let_def
  by (auto split: prod.split intro: meta_only_trans [OF meta_only_upd bucket_loop_only])

lemma bucket_loop_view:
  assumes w: "\<And>d b. fst (db_write E d b) = None"
  shows "view (st_meta (bucket_loop E c b rows s))
    = apply_batch E (view (st_meta s)) (b @ map (\<lambda>r. WDelete (fst r)) (takeWhile (old_bucket c) rows))"
proof (induction rows arbitrary: b s)
  case Nil
  show ?case using write_ok [OF w, of "st_meta s" b] by (auto simp: meta_write_def split: prod.splits)
next
  case (Cons r rows)
  obtain k v where r: "r = (k, v)" by fastforce
  have wr: "view (st_meta (snd (meta_write E b s))) = apply_batch E (view (st_meta s)) b" for b and s :: "'db storage"
    using write_ok [OF w, of "st_meta s" b] by (auto simp: meta_write_def split: prod.splits)
  show ?case
  proof (cases "old_bucket c r")
    case True
    then have "bucket_loop E c b (r # rows) s = (if length (b @ [WDelete k]) \<ge> 1000
        then bucket_loop E c [] rows (snd (meta_write E (b @ [WDelete k]) s)) else bucket_loop E c (b @ [WDelete k]) rows s)"
      by (auto simp: r old_bucket_def Let_def)
    then show ?thesis using True Cons.IH wr by (simp add: r)
  next
    case False
    then have "bucket_loop E c b (r # rows) s = (if b \<noteq> [] then snd (meta_write E b s) else s)"
      by (auto simp: r old_bucket_def Let_def)
    then show ?thesis using False wr by simp
  qed
qed

lemma cleanupOldBuckets_view:
  assumes w: "\<And>d b. fst (db_write E d b) = None" and sk: "snd (fst (meta_seek E GetOldestAccessBucketPrefix s)) = None"
    and ok: "access_entries_ok (view (st_meta s))"
  shows "view (st_meta (cleanupOldBuckets E now olderThan s)) x =
    (if view (st_meta s) x \<noteq> None \<and> old_bucket (GetBucketedAccessKey (now\<lparr>unixNano := unixNano now - olderThan\<rparr>)) (x, [])
     then None else view (st_meta s) x)"
proof -
  let ?c = "GetBucketedAccessKey (now\<lparr>unixNano := unixNano now - olderThan\<rparr>)"
  obtain rows s1 where r: "meta_seek E GetOldestAccessBucketPrefix s = ((rows, None), s1)" using sk by (metis prod.collapse)
  have rf: "rows_from (view (st_meta s)) AccessBucketPrefix rows" and v: "view (st_meta s1) = view (st_meta s)"
    using r seek_ok [of "st_meta s" AccessBucketPrefix rows] seek_state(1) [OF r]
    by (auto simp: meta_seek_def GetOldestAccessBucketPrefix_def split: prod.splits)
  have del: "x \<in> fst ` set (takeWhile (old_bucket ?c) rows) \<longleftrightarrow> view (st_meta s) x \<noteq> None \<and> old_bucket ?c (x, [])"
  proof
    assume "x \<in> fst ` set (takeWhile (old_bucket ?c) rows)"
    then obtain y where "(x, y) \<in> set rows" "old_bucket ?c (x, y)" by (auto dest: set_takeWhileD)
    then show "view (st_meta s) x \<noteq> None \<and> old_bucket ?c (x, [])"
      using rf by (auto simp: rows_from_def old_bucket_def)
  next
    assume a: "view (st_meta s) x \<noteq> None \<and> old_bucket ?c (x, [])"
    then obtain y where y: "view (st_meta s) x = Some y" by blast
    have px: "prefix AccessBucketPrefix x" using a by (simp add: old_bucket_def GetOldestAccessBucketPrefix_def)
    then have "(x, y) \<in> set rows" using rf y prefix_le by (auto simp: rows_from_def)
    moreover have "old_bucket ?c q" if q: "q \<in> set rows" "fst q < x" for q
    proof -
      have qm: "view (st_meta s) (fst q) \<noteq> None" "AccessBucketPrefix \<le> fst q" using q(1) rf by (auto simp: rows_from_def)
      have pq: "prefix AccessBucketPrefix (fst q)" using prefix_convex [of AccessBucketPrefix "fst q" x AccessBucketPrefix] px qm(2) q(2) by simp
      obtain w t where t: "time_ok t" "fst q = MakeBucketedAccessKey w t" using ok qm(1) pq unfolding access_entries_ok_def by blast
      have "ExtractAccessBucketFromKey (fst q) \<noteq> []" "ExtractAccessBucketFromKey (fst q) \<le> ExtractAccessBucketFromKey x"
        using bucket_of_entry [OF t(1), of w] t(2) take_mono [of "fst q" x "length AccessBucketPrefix + 11"] q(2) a
        by (auto simp: ExtractAccessBucketFromKey_def GetBucketedAccessKey_def old_bucket_def Let_def split: if_splits)
      then show ?thesis using a pq by (auto simp: old_bucket_def GetOldestAccessBucketPrefix_def)
    qed
    ultimately have "(x, y) \<in> set (takeWhile (old_bucket ?c) rows)"
      using rf a by (intro takeWhile_all_before) (auto simp: rows_from_def old_bucket_def)
    then show "x \<in> fst ` set (takeWhile (old_bucket ?c) rows)" by force
  qed
  have "view (st_meta (cleanupOldBuckets E now olderThan s)) = apply_batch E (view (st_meta s)) (map (\<lambda>r. WDelete (fst r)) (takeWhile (old_bucket ?c) rows))"
    using r bucket_loop_view [OF w] v by (simp add: cleanupOldBuckets_def Let_def)
  then show ?thesis using del by (simp add: apply_deletes)
qed

end

lemma size_inv_shrunk:
  assumes "size_inv P m n" "size_inv P m' n'" "\<And>u. 0 \<le> row_len P m u"
    and row: "\<And>u. m' (MakeMetadataKey u) = m (MakeMetadataKey u) \<or> m' (MakeMetadataKey u) = None"
  shows "0 \<le> n'" "n' \<le> n"
proof -
  let ?K = "\<lambda>m. {u. m (MakeMetadataKey u) \<noteq> None}"
  have len: "row_len P m' u = row_len P m u" if "u \<in> ?K m'" for u using row [of u] that by (auto simp: row_len_def)
  have n': "n' = (\<Sum>u \<in> ?K m'. row_len P m u)" using assms(2) len by (simp add: size_inv_def)
  then show "0 \<le> n'" using assms(3) by (simp add: sum_nonneg)
  have "?K m' \<subseteq> ?K m" using row by (metis (mono_tags, lifting) Collect_mono)
  then show "n' \<le> n" using assms(1,3) n' by (auto simp: size_inv_def intro: sum_mono2)
qed

interpretation mem_lru: evicting mem_ext "\<lambda>num typ. varint (8 * num + typ)" varint "\<lambda>s. varint (length s) @ s"
  "\<lambda>d. map_of (fst d)" lruEvictionIndex
  by unfold_locales

interpretation mem_fifo: evicting mem_ext "\<lambda>num typ. varint (8 * num + typ)" varint "\<lambda>s. varint (length s) @ s"
  "\<lambda>d. map_of (fst d)" fifoEvictionIndex
  by unfold_locales

section \<open>Properties\<close>

text \<open>A node that holds one small key, indexed in write order.\<close>

definition demo_entry :: bytes where
  "demo_entry = MakeFifoIndexKey ''k'' (clk demo_env 0)"

definition demo_fifo :: "string option list \<Rightarrow> memdb storage" where
  "demo_fifo errs = (demo_store [(demo_entry, []), (MakeFifoBackrefKey ''k'', demo_entry), (MakeMetadataKey ''k'', demo_row)] errs)\<lparr>totalSize := 1\<rparr>"

definition demo_evict_env :: evict_env where
  "demo_evict_env = \<lparr>ev_unix = (\<lambda>i. 1700000000), ev_nano = (\<lambda>i. 1700000000000000000), ev_stop = (\<lambda>i. False)\<rparr>"

lemma demo_entry_parse: "ParseFifoIndexKey demo_entry = Inr ''k''" "prefix FifoIndexPrefix demo_entry"
  unfolding demo_entry_def
  using parse_fifo_make(1) [of "clk demo_env 0"] by (simp_all add: demo_env_def nonneg_int64_def MakeFifoIndexKey_def)

lemma demo_fifo_view: "map_of (fst (st_meta (demo_fifo errs))) =
    [MakeMetadataKey ''k'' \<mapsto> demo_row, MakeFifoBackrefKey ''k'' \<mapsto> demo_entry, demo_entry \<mapsto> []]"
  by (simp add: demo_fifo_def demo_store_def demo_entry_def fun_eq_iff)

lemma demo_fifo_ok:
  shows "index_sound fifoEvictionIndex (map_of (fst (st_meta (demo_fifo errs))))" "rows_ok mem_ext (map_of (fst (st_meta (demo_fifo errs))))"
    "size_inv mem_ext (map_of (fst (st_meta (demo_fifo errs)))) (totalSize (demo_fifo errs))"
    "row_len mem_ext (map_of (fst (st_meta (demo_fifo errs)))) u = (if u = ''k'' then 1 else 0)"
proof -
  have ne: "demo_entry \<noteq> MakeMetadataKey w" "demo_entry \<noteq> MakeFifoBackrefKey w" for w by (simp_all add: demo_entry_def)
  let ?m = "map_of (fst (st_meta (demo_fifo errs)))"
  have row: "?m (MakeMetadataKey w) = (if w = ''k'' then Some demo_row else None)"
    and ref: "?m (MakeFifoBackrefKey w) = (if w = ''k'' then Some demo_entry else None)" for w
    using ne [symmetric] by (simp_all add: demo_fifo_view)
  have "?m demo_entry = Some []" using ne by (simp add: demo_fifo_view)
  then show "index_sound fifoEvictionIndex ?m"
    by (intro index_soundI) (simp_all only: index_simps row ref demo_entry_parse split: if_splits, simp_all add: demo_entry_parse)
  show "rows_ok mem_ext ?m" using demo_row by (auto simp: rows_ok_def row)
  show len: "row_len mem_ext ?m w = (if w = ''k'' then 1 else 0)" for w
    by (simp add: row_len_def row demo_decode cleanup_of_def)
  have "totalSize (demo_fifo errs) = 1" by (simp add: demo_fifo_def)
  then show "size_inv mem_ext ?m (totalSize (demo_fifo errs))" by (simp add: size_inv_def row len)
qed

lemma demo_seek: "meta_seek mem_ext FifoIndexPrefix (demo_fifo []) = (([(demo_entry, []), (MakeFifoBackrefKey ''k'', demo_entry), (MakeMetadataKey ''k'', demo_row)], None), demo_fifo [])"
proof -
  have "demo_entry < MakeFifoBackrefKey ''k''" "MakeFifoBackrefKey ''k'' < MakeMetadataKey ''k''" "FifoIndexPrefix \<le> demo_entry"
    by (simp_all add: demo_entry_def key_defs prefix_defs less_char_def)
  then show ?thesis by (auto simp: meta_seek_def demo_fifo_def demo_store_def mem_seek_def pop_error_def)
qed

lemma demo_get: "meta_get mem_ext x (demo_fifo []) = (Inr (map_of (fst (st_meta (demo_fifo []))) x), demo_fifo [])"
  by (simp add: demo_fifo_def demo_store_def meta_get_def mem_get_def pop_error_def)

lemma demo_evict:
  "evictByIndex mem_ext fifoEvictionIndex demo_evict_env 1 (demo_fifo []) = (1, (demo_store [] [])\<lparr>totalSize := 0\<rparr>)"
proof -
  let ?v = "vm0\<lparr>Data := ''v'', ValueLength := 1\<rparr>"
  let ?b = "[WDelete (MakeMetadataKey ''k''), WDelete demo_entry, WDelete (MakeFifoBackrefKey ''k'')]"
  let ?a = "\<lparr>ev_batch = ?b, committedBytes = 0, pendingBytes = 1, evictedCount = 0, pendingCount = 1, pendingFiles = [?v]\<rparr>"
  have u: "unmarshal mem_ext demo_row = Some ?v" using mem.unmarshal_marshal [OF demo_row] .
  have ne: "demo_entry \<noteq> MakeMetadataKey w" "demo_entry \<noteq> MakeFifoBackrefKey w" for w by (simp_all add: demo_entry_def)
  have get: "map_of (fst (st_meta (demo_fifo []))) (MakeMetadataKey ''k'') = Some demo_row"
    "map_of (fst (st_meta (demo_fifo []))) (MakeFifoBackrefKey ''k'') = Some demo_entry"
    using ne [symmetric] by (simp_all add: demo_fifo_view)
  have one: "evict_entry mem_ext fifoEvictionIndex 1700000000 demo_entry evict_start (demo_fifo []) = (?a, demo_fifo [])"
    using u by (simp add: evict_entry_def demo_entry_parse demo_get get evict_start_def Let_def wrap_int64_def)
  have w: "wrap_int64 0 = 0" "wrap_int64 1 = 1" by (simp_all add: wrap_int64_def)
  have "\<not> prefix FifoIndexPrefix (MakeFifoBackrefKey ''k'')" by (simp add: key_defs prefix_defs)
  then have loop: "evict_loop mem_ext fifoEvictionIndex demo_evict_env 1 0
      [(demo_entry, []), (MakeFifoBackrefKey ''k'', demo_entry), (MakeMetadataKey ''k'', demo_row)] evict_start (demo_fifo []) = (?a, demo_fifo [])"
    using one demo_entry_parse(2) w by (simp add: demo_evict_env_def) (simp add: evict_start_def)
  have "meta_write mem_ext ?b (demo_fifo []) = (None, (demo_store [] [])\<lparr>totalSize := 1\<rparr>)"
    using ne ne [symmetric] by (simp add: demo_fifo_def demo_store_def db_eval del_row_def)
  then have "commit mem_ext demo_evict_env ?a (demo_fifo []) = (?a\<lparr>ev_batch := [], pendingBytes := 0, pendingCount := 0, pendingFiles := [],
      committedBytes := 1, evictedCount := 1\<rparr>, (demo_store [] [])\<lparr>totalSize := 1\<rparr>)"
    using w by (simp add: commit_def Let_def stageFileDeletion_def)
  then show ?thesis
    using loop demo_seek w by (simp add: evictByIndex_def UpdateSize_def)
qed




end
