(* ===== verification/Cleaner.thy ===== *)
theory Cleaner
  imports Eviction
begin

text \<open>
  The background cleaner (\<^verbatim>\<open>src/storage/cleaner.go\<close>, \<^verbatim>\<open>orphan_sweep.go\<close>): the sweep of expired
  rows, the reconciliation of the size counter and of the eviction index with the metadata, the
  sweep of orphaned raw files, the two limits that start an eviction, and one tick of the loop.
  Other operations may run while a sweep scans: \<open>before_flush\<close> is what they did to the node before
  a batch of expired rows is re-read and written.
\<close>

section \<open>The sweep of expired rows\<close>

definition expiryFlushBatch :: nat where "expiryFlushBatch = 100"

definition DefaultFenceRetention :: int where "DefaultFenceRetention = 6 * 3600 * 10 ^ 9"

record expiryCandidate =
  ec_key :: string
  ec_metaKey :: bytes
  ec_expiry :: int
  ec_version :: version

text \<open>The variables of one sweep, and its environment: \<open>sweep_now\<close> is read once, in seconds;
  \<open>fence_now\<close>, \<open>row_stop\<close>, \<open>flush_stop\<close> and \<open>before_flush\<close> are numbered by the rows of the scan.\<close>

record expiry_acc =
  ex_batch :: batch
  ex_bytes :: int
  pendingCleaned :: nat
  ex_files :: "ValueMessage list"
  candidates :: "expiryCandidate list"
  committedCleaned :: nat

record 'db sweep_env =
  sweep_now :: int
  fence_now :: "nat \<Rightarrow> int"
  queue_nano :: "nat \<Rightarrow> int"
  row_stop :: "nat \<Rightarrow> bool"
  flush_stop :: "nat \<Rightarrow> bool"
  before_flush :: "nat \<Rightarrow> 'db storage \<Rightarrow> 'db storage"

definition version_or_zero :: "'a proto_api_scheme \<Rightarrow> bytes \<Rightarrow> version" where
  "version_or_zero P value = (case valueMessageVersion P value of Some v \<Rightarrow> v | None \<Rightarrow> 0)"

text \<open>The re-check of one candidate inside \<^verbatim>\<open>flush\<close>.\<close>

definition recheck :: "'db ext_api \<Rightarrow> expiryCandidate \<Rightarrow> expiry_acc \<times> 'db storage \<Rightarrow> expiry_acc \<times> 'db storage" where
  "recheck E cand st = (case st of (a, s) \<Rightarrow>
    case meta_get E (ec_metaKey cand) s of
      (Inl err, s1) \<Rightarrow> (a, s1)
    | (Inr None, s1) \<Rightarrow> (a, s1)
    | (Inr (Some value), s1) \<Rightarrow>
      let ok = valueMessageExpiry E value in
      if ok \<noteq> None \<and> ok \<noteq> Some (ec_expiry cand) then (a, s1)
      else if ok \<noteq> None \<and> ec_expiry cand = tombstoneExpiry \<and> version_or_zero E value \<noteq> ec_version cand then (a, s1)
      else case stageEvictionIndexDeletes E (ec_key cand) s1 of (ix, s2) \<Rightarrow>
        let a1 = a\<lparr>ex_batch := ex_batch a @ [WDelete (ec_metaKey cand)] @ ix, pendingCleaned := pendingCleaned a + 1\<rparr> in
        case (if ok = None then None else unmarshalValueMessageSkippingData E value) of
          None \<Rightarrow> (a1, s2)
        | Some valueMsg \<Rightarrow>
          let a2 = a1\<lparr>ex_bytes := wrap_int64 (ex_bytes a1 + ValueLength valueMsg)\<rparr> in
          if ValueTypeF valueMsg = SEGMENT \<and> SegmentPath valueMsg \<noteq> []
          then (a2\<lparr>ex_batch := ex_batch a2 @ [WMerge (MakeDeleteIndexKey (SegmentPath valueMsg))
                  (MakeDeleteIndexOperand 1 (ValueLength valueMsg))]\<rparr>, s2)
          else (a2\<lparr>ex_files := ex_files a2 @ [valueMsg]\<rparr>, s2))"

definition flush_expired :: "'db ext_api \<Rightarrow> 'db sweep_env \<Rightarrow> nat \<Rightarrow> expiry_acc \<Rightarrow> 'db storage \<Rightarrow> expiry_acc \<times> 'db storage" where
  "flush_expired E e i a s =
    (case foldl (\<lambda>st cand. recheck E cand st) (a, before_flush e i s) (candidates a) of (a1, s1) \<Rightarrow>
      let a2 = a1\<lparr>candidates := []\<rparr> in
      if ex_batch a2 = [] then (a2, s1)
      else let cleared = a2\<lparr>ex_batch := [], ex_bytes := 0, pendingCleaned := 0, ex_files := []\<rparr> in
        case meta_write E (ex_batch a2) s1 of
          (Some err, s2) \<Rightarrow> (cleared, s2)
        | (None, s2) \<Rightarrow>
          let s3 = stage_files E (queue_nano e) (committedCleaned a2) (ex_files a2) s2 in
          (cleared\<lparr>committedCleaned := committedCleaned a2 + pendingCleaned a2\<rparr>,
           if ex_bytes a2 > 0 then UpdateSize (- ex_bytes a2) s3 else s3))"

text \<open>One row of the scan.\<close>

definition expiry_row :: "'db ext_api \<Rightarrow> 'db sweep_env \<Rightarrow> int \<Rightarrow> nat \<Rightarrow> bytes \<Rightarrow> bytes \<Rightarrow> expiry_acc \<Rightarrow> 'db storage \<Rightarrow> expiry_acc \<times> 'db storage" where
  "expiry_row E e fenceRetention i keyBytes value a s =
    (let key = ExtractUserKey keyBytes in
     case valueMessageExpiry E value of
       None \<Rightarrow> (case stageEvictionIndexDeletes E key s of (ix, s1) \<Rightarrow>
         (a\<lparr>ex_batch := ex_batch a @ [WDelete keyBytes] @ ix, pendingCleaned := pendingCleaned a + 1\<rparr>, s1))
     | Some expiry \<Rightarrow>
       if expiry > 0 \<and> sweep_now e \<ge> expiry then
         let version = (if expiry = tombstoneExpiry then version_or_zero E value else 0);
             fenced = (expiry = tombstoneExpiry \<and> version \<noteq> 0 \<and> fence_now e i - int64_of_uint64 version < fenceRetention)
         in (if fenced then a
             else a\<lparr>candidates := candidates a @ [\<lparr>ec_key = key, ec_metaKey = keyBytes, ec_expiry = expiry, ec_version = version\<rparr>]\<rparr>, s)
       else (a, s))"

text \<open>The scan; the flag tells that it was interrupted, which drops what is pending.  A row that is
  invalid does not reach the test for a full batch.\<close>

fun expiry_loop :: "'db ext_api \<Rightarrow> 'db sweep_env \<Rightarrow> int \<Rightarrow> nat \<Rightarrow> (bytes \<times> bytes) list \<Rightarrow> expiry_acc \<Rightarrow> 'db storage
  \<Rightarrow> bool \<times> expiry_acc \<times> 'db storage" where
  "expiry_loop E e ret i [] a s = (False, a, s)"
| "expiry_loop E e ret i ((k, v) # rows) a s =
    (if \<not> prefix MetadataPrefix k then (False, a, s)
     else if row_stop e i then (True, a, s)
     else case expiry_row E e ret i k v a s of (a1, s1) \<Rightarrow>
       if valueMessageExpiry E v \<noteq> None \<and> (length (ex_batch a1) \<ge> 1000 \<or> length (candidates a1) \<ge> expiryFlushBatch) then
         (if flush_stop e i then (True, a1, s1)
          else case flush_expired E e i a1 s1 of (a2, s2) \<Rightarrow> expiry_loop E e ret (Suc i) rows a2 s2)
       else expiry_loop E e ret (Suc i) rows a1 s1)"

definition expiry_start :: expiry_acc where
  "expiry_start = \<lparr>ex_batch = [], ex_bytes = 0, pendingCleaned = 0, ex_files = [], candidates = [], committedCleaned = 0\<rparr>"

text \<open>The result counts the rows added to the cleaner's statistics, which an interrupted sweep leaves alone.\<close>

definition cleanupExpiredKeys :: "'db ext_api \<Rightarrow> 'db sweep_env \<Rightarrow> int \<Rightarrow> 'db storage \<Rightarrow> nat \<times> 'db storage" where
  "cleanupExpiredKeys E e ret s =
    (case meta_seek E MetadataPrefix s of ((rows, err), s1) \<Rightarrow>
      case expiry_loop E e ret 0 rows expiry_start s1 of (interrupted, a, s2) \<Rightarrow>
        if interrupted then (0, s2)
        else case (if ex_batch a \<noteq> [] \<or> candidates a \<noteq> [] then flush_expired E e (length rows) a s2 else (a, s2)) of
          (a1, s3) \<Rightarrow> (committedCleaned a1, s3))"

section \<open>The sweep of orphaned raw files\<close>

record dir_entry =
  de_name :: string
  de_isDir :: bool
  de_info :: "(int \<times> int) option"

definition orphanSweepInterval :: int where "orphanSweepInterval = 24 * 3600 * 10 ^ 9"
definition orphanGraceWindow :: int where "orphanGraceWindow = 10 * 60 * 10 ^ 9"

record reconcile_env =
  rec_now :: gotime
  rec_start :: int
  rec_due :: int
  rec_end :: int
  rec_stop :: "nat \<Rightarrow> bool"
  dir_list :: "dir_entry list option"
  dir_stop :: "nat \<Rightarrow> bool"
  inflightRaw :: "string \<Rightarrow> bool"
  path_locked :: "string \<Rightarrow> bool"
  orphan_nano :: "nat \<Rightarrow> int"

text \<open>The readings of the clock in nanoseconds are \<open>rec_start\<close> at the start, \<open>rec_due\<close> for the interval of
  the orphan sweep and \<open>rec_end\<close> after it; back-filled entries are stamped with \<open>rec_now\<close>.
  \<open>de_info\<close> is the size and the modification time in nanoseconds, unless the file has gone since
  the listing.\<close>

fun sweep_entries :: "'db ext_api \<Rightarrow> reconcile_env \<Rightarrow> (string \<times> int) list \<Rightarrow> int \<Rightarrow> nat \<Rightarrow> dir_entry list \<Rightarrow> 'db storage \<Rightarrow> bool \<times> 'db storage" where
  "sweep_entries E e referenced cutoff i [] s = (True, s)"
| "sweep_entries E e referenced cutoff i (entry # entries) s =
    (if i mod 1000 = 0 \<and> dir_stop e i then (False, s)
     else let path = filesPath s @ ''/'' @ de_name entry in
       if de_isDir entry \<or> map_of referenced (de_name entry) \<noteq> None
         \<or> (case de_info entry of None \<Rightarrow> True | Some (sz, modTime) \<Rightarrow> modTime > cutoff)
         \<or> inflightRaw e path \<or> path_locked e path
       then sweep_entries E e referenced cutoff (Suc i) entries s
       else sweep_entries E e referenced cutoff (Suc i) entries (stageRawFileDeletion E (orphan_nano e i) path s))"

definition sweepOrphanRawFiles :: "'db ext_api \<Rightarrow> reconcile_env \<Rightarrow> (string \<times> int) list \<Rightarrow> int \<Rightarrow> 'db storage \<Rightarrow> bool \<times> 'db storage" where
  "sweepOrphanRawFiles E e referenced scanStart s = (case dir_list e of
     None \<Rightarrow> (False, s)
   | Some entries \<Rightarrow> sweep_entries E e referenced (scanStart - orphanGraceWindow) 0 entries s)"

section \<open>Reconciliation with the metadata\<close>

text \<open>\<^verbatim>\<open>filepath.Base\<close>.\<close>

definition filepath_Base :: "string \<Rightarrow> string" where
  "filepath_Base path =
    (if path = [] then ''.''
     else let p = rev (dropWhile (\<lambda>c. c = CHR ''/'') (rev path)) in
       if p = [] then ''/'' else rev (takeWhile (\<lambda>c. c \<noteq> CHR ''/'') (rev p)))"

text \<open>The back-reference iterator is the rows it still has and the error it ends with; the result adds
  the rows left.  An iterator that stands on a row has no error.\<close>

fun advanceBackrefTo :: "bytes \<Rightarrow> string option \<Rightarrow> string \<Rightarrow> (bytes \<times> bytes) list \<Rightarrow> bool \<times> bool \<times> (bytes \<times> bytes) list" where
  "advanceBackrefTo pfx err userKey [] = (False, err = None, [])"
| "advanceBackrefTo pfx err userKey ((k, v) # refs) =
    (if \<not> prefix pfx k then (False, True, (k, v) # refs)
     else let suffix = drop (length pfx) k in
       if suffix < userKey then advanceBackrefTo pfx err userKey refs
       else if suffix = userKey then (True, True, refs)
       else (False, True, (k, v) # refs))"

definition stageBackfillEntry :: "'db ext_api \<Rightarrow> string \<Rightarrow> gotime \<Rightarrow> 'db storage \<Rightarrow> batch \<times> 'db storage" where
  "stageBackfillEntry E userKey now s =
    (if evictionPolicy s = EvictionPolicyFIFO then writeFifoIndexEntry E userKey now s
     else let accessKey = MakeBucketedAccessKey userKey now
       in ([WPut accessKey [], WPut (MakeBucketedAccessIndexKey userKey) accessKey], s))"

record rec_acc =
  rec_total :: int
  rec_batch :: batch
  rec_refs :: "(bytes \<times> bytes) list"
  writeErrs :: nat
  backrefBroken :: bool
  referencedRaw :: "(string \<times> int) list"

definition flush_backfill :: "'db ext_api \<Rightarrow> rec_acc \<Rightarrow> 'db storage \<Rightarrow> rec_acc \<times> 'db storage" where
  "flush_backfill E a s =
    (if rec_batch a = [] then (a, s)
     else case meta_write E (rec_batch a) s of
       (None, s1) \<Rightarrow> (a\<lparr>rec_batch := []\<rparr>, s1)
     | (Some err, s1) \<Rightarrow> (a\<lparr>rec_batch := [], writeErrs := writeErrs a + 1\<rparr>, s1))"

definition backref_prefix :: "'db storage \<Rightarrow> bytes" where
  "backref_prefix s = (if evictionPolicy s = EvictionPolicyFIFO then FifoBackrefPrefix else AccessBucketIndexPrefix)"

text \<open>One metadata row: its length and raw file, then its coverage by the eviction index.\<close>

definition reconcile_size :: "'db ext_api \<Rightarrow> bool \<Rightarrow> bytes \<Rightarrow> rec_acc \<Rightarrow> rec_acc" where
  "reconcile_size E sweepDue v a = (case valueMessageSizeAndRawPath E v of
     None \<Rightarrow> a
   | Some (len, rawPath) \<Rightarrow> a\<lparr>rec_total := wrap_int64 (rec_total a + len),
       referencedRaw := (if sweepDue \<and> rawPath \<noteq> [] then AList.update (filepath_Base rawPath) len (referencedRaw a) else referencedRaw a)\<rparr>)"

definition reconcile_cover :: "'db ext_api \<Rightarrow> gotime \<Rightarrow> string option \<Rightarrow> bytes \<Rightarrow> rec_acc \<Rightarrow> 'db storage \<Rightarrow> rec_acc \<times> 'db storage" where
  "reconcile_cover E now backrefErr keyBytes a s =
    (if \<not> (maxDiskUsage s > 0) \<or> backrefBroken a then (a, s)
     else let userKey = ExtractUserKey keyBytes in
       case advanceBackrefTo (backref_prefix s) backrefErr userKey (rec_refs a) of (covered, ok, refs) \<Rightarrow>
         let a1 = a\<lparr>rec_refs := refs\<rparr> in
         if \<not> ok then (a1\<lparr>backrefBroken := True\<rparr>, s)
         else if covered then (a1, s)
         else case stageBackfillEntry E userKey now s of (b, s1) \<Rightarrow>
           let a2 = a1\<lparr>rec_batch := rec_batch a1 @ b\<rparr> in
           if length (rec_batch a2) \<ge> 1000 then flush_backfill E a2 s1 else (a2, s1))"

text \<open>The scan: interrupted, or the error the metadata iterator ends with.\<close>

fun reconcile_loop :: "'db ext_api \<Rightarrow> reconcile_env \<Rightarrow> bool \<Rightarrow> string option \<Rightarrow> string option \<Rightarrow> nat \<Rightarrow> (bytes \<times> bytes) list \<Rightarrow> rec_acc \<Rightarrow> 'db storage
  \<Rightarrow> (bool \<times> string option) \<times> rec_acc \<times> 'db storage" where
  "reconcile_loop E e sweepDue backrefErr err i [] a s = ((False, err), a, s)"
| "reconcile_loop E e sweepDue backrefErr err i ((k, v) # rows) a s =
    (if \<not> prefix MetadataPrefix k then ((False, None), a, s)
     else if rec_stop e i then ((True, None), a, s)
     else case reconcile_cover E (rec_now e) backrefErr k (reconcile_size E sweepDue v a) s of (a1, s1) \<Rightarrow>
       reconcile_loop E e sweepDue backrefErr err (Suc i) rows a1 s1)"

text \<open>The cleaner's own fields: times in nanoseconds.\<close>

record cleaner =
  backfillPending :: bool
  lastSizeRecalc :: int
  lastOrphanSweep :: "int option"
  lastBucketCleanup :: int
  fenceRetention :: int
  diskReserveBytes :: int
  cleanedKeys :: int
  evictedKeys :: int

definition reconcileFromMetadata :: "'db ext_api \<Rightarrow> reconcile_env \<Rightarrow> cleaner \<Rightarrow> 'db storage \<Rightarrow> cleaner \<times> 'db storage" where
  "reconcileFromMetadata E e c s =
    (let tracked = totalSize s; backfill = maxDiskUsage s > 0;
         sweepDue = (case lastOrphanSweep c of None \<Rightarrow> True | Some t \<Rightarrow> rec_due e - t \<ge> orphanSweepInterval) in
     case meta_seek E MetadataPrefix s of ((rows, err), s1) \<Rightarrow>
     case (if backfill then meta_seek E (backref_prefix s1) s1 else (([], None), s1)) of ((refs, backrefErr), s2) \<Rightarrow>
     case reconcile_loop E e sweepDue backrefErr err 0 rows
         \<lparr>rec_total = 0, rec_batch = [], rec_refs = refs, writeErrs = 0, backrefBroken = False, referencedRaw = []\<rparr> s2 of
       ((interrupted, itErr), a, s3) \<Rightarrow>
     case flush_backfill E a s3 of (a1, s4) \<Rightarrow>
       if interrupted then (c, s4)
       else if itErr \<noteq> None then (if backfill then c\<lparr>backfillPending := True\<rparr> else c, s4)
       else let incomplete = (writeErrs a1 > 0 \<or> backrefBroken a1 \<or> (rec_refs a1 = [] \<and> backrefErr \<noteq> None));
                c1 = (if backfill then c\<lparr>backfillPending := incomplete\<rparr> else c);
                s5 = UpdateSize (rec_total a1 - tracked) s4 in
         if sweepDue then (case sweepOrphanRawFiles E e (referencedRaw a1) (rec_start e) s5 of
             (done, s6) \<Rightarrow> (if done then c1\<lparr>lastOrphanSweep := Some (rec_end e)\<rparr> else c1, s6))
         else (c1, s5))"

section \<open>The limits\<close>

definition active_index :: "'db storage \<Rightarrow> evictionIndex" where
  "active_index s = (if evictionPolicy s = EvictionPolicyFIFO then fifoEvictionIndex else lruEvictionIndex)"

text \<open>\<open>ninetyPercent\<close> is the product with 0.9 in \<^verbatim>\<open>float64\<close>, cut to an integer.\<close>

definition enforceDiskLimit :: "'db ext_api \<Rightarrow> (int \<Rightarrow> int) \<Rightarrow> evict_env \<Rightarrow> cleaner \<Rightarrow> 'db storage \<Rightarrow> cleaner \<times> 'db storage" where
  "enforceDiskLimit E ninetyPercent e c s =
    (if totalSize s \<le> maxDiskUsage s then (c, s)
     else let needToEvict = wrap_int64 (totalSize s - ninetyPercent (maxDiskUsage s)) in
       case evictByIndex E (active_index s) e needToEvict s of (n, s1) \<Rightarrow> (c\<lparr>evictedKeys := evictedKeys c + int n\<rparr>, s1))"

definition reserveVolumeFraction :: int where "reserveVolumeFraction = 10"
definition reserveEvictSliceFraction :: int where "reserveEvictSliceFraction = 4"
definition defaultDiskReserveBytes :: int where "defaultDiskReserveBytes = 2 * 1024 * 1024 * 1024"

definition effective_reserve :: "cleaner \<Rightarrow> int \<Rightarrow> int" where
  "effective_reserve c volTotal =
    (if volTotal > 0 \<and> volTotal div reserveVolumeFraction < diskReserveBytes c then volTotal div reserveVolumeFraction else diskReserveBytes c)"

text \<open>Go's division of \<^verbatim>\<open>int64\<close> rounds towards zero.\<close>

definition reserve_slice :: "cleaner \<Rightarrow> int \<Rightarrow> int \<Rightarrow> int \<Rightarrow> int" where
  "reserve_slice c free volTotal tracked =
    (let slice = effective_reserve c volTotal - free; maxSlice = sgn tracked * (\<bar>tracked\<bar> div reserveEvictSliceFraction) in
     if maxSlice > 0 \<and> maxSlice < slice then maxSlice else slice)"

definition enforceFilesystemReserve :: "'db ext_api \<Rightarrow> (int \<times> int) option \<Rightarrow> evict_env \<Rightarrow> cleaner \<Rightarrow> 'db storage \<Rightarrow> cleaner \<times> 'db storage" where
  "enforceFilesystemReserve E statfs e c s =
    (if maxDiskUsage s \<le> 0 then (c, s)
     else case statfs of
       None \<Rightarrow> (c, s)
     | Some (free, volTotal) \<Rightarrow>
       if free \<ge> effective_reserve c volTotal then (c, s)
       else case evictByIndex E (active_index s) e (reserve_slice c free volTotal (totalSize s)) s of
         (n, s1) \<Rightarrow> (c\<lparr>evictedKeys := evictedKeys c + int n\<rparr>, s1))"

section \<open>One tick of the loop\<close>

definition totalSizeRecalcInterval :: int where "totalSizeRecalcInterval = 3600 * 10 ^ 9"
definition accessBucketCleanupInterval :: int where "accessBucketCleanupInterval = 24 * 3600 * 10 ^ 9"
definition accessBucketCleanupThreshold :: int where "accessBucketCleanupThreshold = 30 * 24 * 3600 * 10 ^ 9"

record 'db tick_env =
  tick_clk :: "nat \<Rightarrow> gotime"
  tick_rec :: reconcile_env
  tick_sweep :: "'db sweep_env"
  tick_limit :: evict_env
  tick_reserve :: evict_env
  tick_statfs :: "(int \<times> int) option"

definition cleanup_tick :: "'db ext_api \<Rightarrow> (int \<Rightarrow> int) \<Rightarrow> 'db tick_env \<Rightarrow> cleaner \<Rightarrow> 'db storage \<Rightarrow> cleaner \<times> 'db storage" where
  "cleanup_tick E ninetyPercent e c s =
    (let now = (\<lambda>i. unixNano (tick_clk e i));
         (c1, s1) = (if backfillPending c \<or> now 0 - lastSizeRecalc c > totalSizeRecalcInterval
                     then (case reconcileFromMetadata E (tick_rec e) c s of (c', s') \<Rightarrow> (c'\<lparr>lastSizeRecalc := now 1\<rparr>, s')) else (c, s));
         (n, s2) = cleanupExpiredKeys E (tick_sweep e) (fenceRetention c1) s1;
         c2 = c1\<lparr>cleanedKeys := cleanedKeys c1 + int n\<rparr>;
         (c3, s3) = (if maxDiskUsage s2 > 0
                     then (case enforceDiskLimit E ninetyPercent (tick_limit e) c2 s2 of (c', s') \<Rightarrow>
                             enforceFilesystemReserve E (tick_statfs e) (tick_reserve e) c' s')
                     else (c2, s2))
     in if evictionPolicy s3 \<noteq> EvictionPolicyFIFO \<and> now 2 - lastBucketCleanup c3 > accessBucketCleanupInterval
        then (c3\<lparr>lastBucketCleanup := now 4\<rparr>, cleanupOldBuckets E (tick_clk e 3) accessBucketCleanupThreshold s3)
        else (c3, s3))"

section \<open>The merge of rows and back-references\<close>

lemma advance_keeps:
  assumes "advanceBackrefTo pfx err w refs = (covered, ok, refs')" "(pfx @ u, x) \<in> set refs" "w < u"
  shows "(pfx @ u, x) \<in> set refs'"
  using assms by (induction pfx err w refs rule: advanceBackrefTo.induct) (auto simp: Let_def split: if_splits)

lemma advance_sorted:
  assumes "advanceBackrefTo pfx err w refs = (covered, ok, refs')" "sorted_wrt (<) (map fst refs)" "\<forall>r \<in> set refs. pfx \<le> fst r"
  shows "sorted_wrt (<) (map fst refs') \<and> (\<forall>r \<in> set refs'. pfx \<le> fst r)"
  using assms by (induction pfx err w refs rule: advanceBackrefTo.induct) (auto simp: Let_def split: if_splits)

lemma advance_finds:
  assumes "sorted_wrt (<) (map fst refs)" "\<forall>r \<in> set refs. pfx \<le> fst r" "(pfx @ u, x) \<in> set refs"
  shows "\<exists>refs'. advanceBackrefTo pfx err u refs = (True, True, refs')"
  using assms
proof (induction pfx err u refs rule: advanceBackrefTo.induct)
  case (2 pfx err u k v refs)
  show ?case
  proof (cases "k = pfx @ u")
    case False
    then have mem: "(pfx @ u, x) \<in> set refs" using "2.prems"(3) by auto
    then have lt: "k < pfx @ u" using "2.prems"(1) by force
    have "prefix pfx k" using prefix_convex [of pfx k "pfx @ u" pfx] "2.prems"(2) lt by simp
    then obtain z where z: "k = pfx @ z" by (auto elim: prefixE)
    then have "z < u" using lt by simp
    then show ?thesis using "2.IH" [of "drop (length pfx) k"] "2.prems"(1,2) mem z by simp
  qed simp
qed simp

text \<open>The rows that decide whether a key can be evicted under LRU.\<close>

definition lru_rows_of :: "string \<Rightarrow> bytes set" where
  "lru_rows_of u = {MakeMetadataKey u, MakeBucketedAccessIndexKey u}
     \<union> {k. prefix AccessBucketPrefix k \<and> parseKey lruEvictionIndex k = Inr u}"

lemma lru_rows_other:
  assumes "w \<noteq> u" "time_ok t"
  shows "MakeBucketedAccessKey w t \<notin> lru_rows_of u" "MakeBucketedAccessIndexKey w \<notin> lru_rows_of u"
proof -
  have "parseKey lruEvictionIndex (MakeBucketedAccessKey w t) = Inr w"
    using parse_bucketed_make [of t w] assms(2) by (simp add: lruEvictionIndex_def time_ok_def)
  then show "MakeBucketedAccessKey w t \<notin> lru_rows_of u" using assms(1) by (auto simp: lru_rows_of_def)
  have "\<not> prefix AccessBucketPrefix (MakeBucketedAccessIndexKey w)" by (simp add: key_defs prefix_defs)
  then show "MakeBucketedAccessIndexKey w \<notin> lru_rows_of u" using assms(1) by (simp add: lru_rows_of_def)
qed

lemma lru_rows_not_side: "k \<in> lru_rows_of u \<Longrightarrow> \<not> side_key k"
  using lru_index.entry_not_side [of k] lru_index.backref_not_side [of u] by (auto simp: lru_rows_of_def)

definition untouched :: "('db \<Rightarrow> view) \<Rightarrow> string \<Rightarrow> 'db storage \<Rightarrow> 'db storage \<Rightarrow> bool" where
  "untouched view u s s' \<longleftrightarrow> meta_only s s' \<and> (\<forall>k \<in> lru_rows_of u. view (st_meta s') k = view (st_meta s) k)"

lemma untouched_trans: "untouched view u s s' \<Longrightarrow> untouched view u s' s'' \<Longrightarrow> untouched view u s s''"
  unfolding untouched_def using meta_only_trans by metis

lemma untouched_refl [simp]: "untouched view u s s"
  by (simp add: untouched_def)

context rocksdb
begin

lemma flush_backfill_untouched:
  assumes "flush_backfill E a s = (a', s')" "\<forall>w \<in> set (rec_batch a). wop_key w \<notin> lru_rows_of u"
  shows "untouched view u s s'" "rec_batch a' = []" "rec_refs a' = rec_refs a" "backrefBroken a' = backrefBroken a"
proof -
  obtain r s1 where w: "meta_write E (rec_batch a) s = (r, s1)" by fastforce
  have "view (st_meta s1) k = view (st_meta s) k" if "k \<in> lru_rows_of u" for k
    using meta_write_ok(2,3) [OF w] assms(2) that by (cases r) (auto intro!: apply_batch_same)
  then show "untouched view u s s'" "rec_batch a' = []" "rec_refs a' = rec_refs a" "backrefBroken a' = backrefBroken a"
    using assms(1) w meta_write_ok(1) [OF w] by (auto simp: flush_backfill_def untouched_def split: if_splits option.splits)
qed

lemma reconcile_cover_untouched:
  assumes run: "reconcile_cover E now err (MakeMetadataKey w) a s = (a', s')" and t: "time_ok now" and lru: "evictionPolicy s \<noteq> EvictionPolicyFIFO"
    and b: "\<forall>x \<in> set (rec_batch a). wop_key x \<notin> lru_rows_of u"
    and refs: "sorted_wrt (<) (map fst (rec_refs a))" "\<forall>r \<in> set (rec_refs a). AccessBucketIndexPrefix \<le> fst r"
    and here: "w \<le> u \<longrightarrow> (MakeBucketedAccessIndexKey u, x) \<in> set (rec_refs a) \<or> backrefBroken a \<or> \<not> maxDiskUsage s > 0"
  shows "untouched view u s s' \<and> (\<forall>x \<in> set (rec_batch a'). wop_key x \<notin> lru_rows_of u)
    \<and> sorted_wrt (<) (map fst (rec_refs a')) \<and> (\<forall>r \<in> set (rec_refs a'). AccessBucketIndexPrefix \<le> fst r)
    \<and> (w < u \<longrightarrow> (MakeBucketedAccessIndexKey u, x) \<in> set (rec_refs a') \<or> backrefBroken a' \<or> \<not> maxDiskUsage s > 0)"
proof (cases "\<not> maxDiskUsage s > 0 \<or> backrefBroken a")
  case True
  then show ?thesis using run b refs here by (auto simp: reconcile_cover_def)
next
  case False
  have key: "ExtractUserKey (MakeMetadataKey w) = w" by (simp add: ExtractUserKey_def MakeMetadataKey_def)
  obtain covered ok refs' where adv: "advanceBackrefTo AccessBucketIndexPrefix err w (rec_refs a) = (covered, ok, refs')"
    by (metis prod.collapse)
  note srt = advance_sorted [OF adv refs]
  have keep: "(MakeBucketedAccessIndexKey u, x) \<in> set refs'" if "w < u"
    using advance_keeps [OF adv _ that, of x] here that False by (auto simp: MakeBucketedAccessIndexKey_def)
  let ?ops = "[WPut (MakeBucketedAccessKey w now) [], WPut (MakeBucketedAccessIndexKey w) (MakeBucketedAccessKey w now)]"
  let ?a = "a\<lparr>rec_refs := refs'\<rparr>"
  have cases: "reconcile_cover E now err (MakeMetadataKey w) a s =
      (if \<not> ok then (?a\<lparr>backrefBroken := True\<rparr>, s) else if covered then (?a, s)
       else if length (rec_batch a @ ?ops) \<ge> 1000 then flush_backfill E (?a\<lparr>rec_batch := rec_batch a @ ?ops\<rparr>) s
       else (?a\<lparr>rec_batch := rec_batch a @ ?ops\<rparr>, s))"
    using False adv lru by (simp add: reconcile_cover_def key backref_prefix_def stageBackfillEntry_def Let_def)
  show ?thesis
  proof (cases "ok \<and> \<not> covered")
    case True
    have "w \<noteq> u"
      using advance_finds [OF refs, of u x err] adv True here False by (auto simp: MakeBucketedAccessIndexKey_def)
    then have ops: "\<forall>y \<in> set (rec_batch a @ ?ops). wop_key y \<notin> lru_rows_of u" using b lru_rows_other [OF _ t] by auto
    obtain a2 s2 where f: "flush_backfill E (?a\<lparr>rec_batch := rec_batch a @ ?ops\<rparr>) s = (a2, s2)" by fastforce
    have fl: "untouched view u s s2" "rec_batch a2 = []" "rec_refs a2 = refs'" "backrefBroken a2 = backrefBroken a"
      using flush_backfill_untouched [OF f, of u] ops by simp_all
    show ?thesis
    proof (cases "length (rec_batch a @ ?ops) \<ge> 1000")
      case True
      then have "a' = a2" "s' = s2" using run cases f \<open>ok \<and> \<not> covered\<close> by auto
      then show ?thesis using fl srt keep by simp
    next
      case False
      then have "a' = ?a\<lparr>rec_batch := rec_batch a @ ?ops\<rparr>" "s' = s" using run cases \<open>ok \<and> \<not> covered\<close> by auto
      then show ?thesis using ops srt keep by simp
    qed
  next
    case False
    then have "a' = ?a\<lparr>backrefBroken := True\<rparr> \<and> s' = s \<or> a' = ?a \<and> s' = s" using run cases by (auto split: if_splits)
    then show ?thesis using b srt keep by auto
  qed
qed

lemma reconcile_size_fields [simp]:
  "rec_batch (reconcile_size E d v a) = rec_batch a" "rec_refs (reconcile_size E d v a) = rec_refs a"
  "backrefBroken (reconcile_size E d v a) = backrefBroken a"
  by (simp_all add: reconcile_size_def split: option.split)

lemma reconcile_loop_untouched:
  assumes "reconcile_loop E e d rerr err i rows a s = (r, a', s')" "time_ok (rec_now e)" "evictionPolicy s \<noteq> EvictionPolicyFIFO"
    and "\<forall>x \<in> set (rec_batch a). wop_key x \<notin> lru_rows_of u"
    and "sorted_wrt (<) (map fst (rec_refs a))" "\<forall>r \<in> set (rec_refs a). AccessBucketIndexPrefix \<le> fst r" "sorted_wrt (<) (map fst rows)"
    and "\<And>w v. (MakeMetadataKey w, v) \<in> set rows \<Longrightarrow> w \<le> u \<Longrightarrow> (MakeBucketedAccessIndexKey u, x) \<in> set (rec_refs a) \<or> backrefBroken a \<or> \<not> maxDiskUsage s > 0"
  shows "untouched view u s s' \<and> (\<forall>x \<in> set (rec_batch a'). wop_key x \<notin> lru_rows_of u)"
  using assms
proof (induction rows arbitrary: a s i)
  case (Cons q rows)
  obtain k v where q: "q = (k, v)" by fastforce
  show ?case
  proof (cases "prefix MetadataPrefix k \<and> \<not> rec_stop e i")
    case True
    then obtain w where k: "k = MakeMetadataKey w" by (auto simp: MakeMetadataKey_def elim: prefixE)
    obtain a1 s1 where c: "reconcile_cover E (rec_now e) rerr k (reconcile_size E d v a) s = (a1, s1)" by fastforce
    have run: "reconcile_loop E e d rerr err (Suc i) rows a1 s1 = (r, a', s')" using Cons.prems(1) True c by (simp add: q)
    note one = reconcile_cover_untouched [OF c [unfolded k] Cons.prems(2,3), of u x]
    have one: "untouched view u s s1 \<and> (\<forall>x \<in> set (rec_batch a1). wop_key x \<notin> lru_rows_of u)
        \<and> sorted_wrt (<) (map fst (rec_refs a1)) \<and> (\<forall>r \<in> set (rec_refs a1). AccessBucketIndexPrefix \<le> fst r)
        \<and> (w < u \<longrightarrow> (MakeBucketedAccessIndexKey u, x) \<in> set (rec_refs a1) \<or> backrefBroken a1 \<or> \<not> maxDiskUsage s > 0)"
      using one Cons.prems(4-6) Cons.prems(8) [of w v] by (simp add: q k)
    have frame: "maxDiskUsage s1 = maxDiskUsage s" "evictionPolicy s1 = evictionPolicy s"
      using one meta_only_fields(7,8) [of s s1] unfolding untouched_def by simp_all
    have lt: "w < w'" if "(MakeMetadataKey w', v') \<in> set rows" for w' v'
      using Cons.prems(7) that by (force simp: q k MakeMetadataKey_def)
    have "(MakeBucketedAccessIndexKey u, x) \<in> set (rec_refs a1) \<or> backrefBroken a1 \<or> \<not> maxDiskUsage s1 > 0"
      if "(MakeMetadataKey w', v') \<in> set rows" "w' \<le> u" for w' v'
    proof -
      have "w < u" using lt [OF that(1)] that(2) by simp
      then show ?thesis using one frame(1) by simp
    qed
    then have "untouched view u s1 s' \<and> (\<forall>x \<in> set (rec_batch a'). wop_key x \<notin> lru_rows_of u)"
      using one frame Cons.prems(2,3,7) by (intro Cons.IH [OF run]) (simp_all add: q)
    then show ?thesis using one untouched_trans by blast
  next
    case False
    then have "a' = a \<and> s' = s" using Cons.prems(1) by (auto simp: q split: if_splits)
    then show ?thesis using Cons.prems(4) by simp
  qed
qed simp

lemma sweep_entries_untouched: "sweep_entries E e refd cutoff i es s = (r, s') \<Longrightarrow> untouched view u s s'"
proof (induction es arbitrary: i s)
  case (Cons d es)
  have one: "untouched view u s (stageRawFileDeletion E n p s)" for n p
    using stageRawFileDeletion_ok [OF refl] lru_rows_not_side by (simp add: untouched_def)
  consider "s' = s" | "sweep_entries E e refd cutoff (Suc i) es s = (r, s')"
    | n p where "sweep_entries E e refd cutoff (Suc i) es (stageRawFileDeletion E n p s) = (r, s')"
    using Cons.prems by (simp add: Let_def split: if_splits)
  then show ?case using Cons.IH untouched_trans [OF one] by cases (simp, blast+)
qed simp

lemma seek_complete:
  assumes "\<And>d k. snd (fst (db_seek E d k)) = None" "meta_seek E k s = ((rows, err), s1)"
  shows "err = None" "meta_only s s1" "view (st_meta s1) = view (st_meta s)" "rows_from (view (st_meta s)) k rows"
proof -
  obtain r d where q: "db_seek E (st_meta s) k = (r, d)" by fastforce
  then have r: "r = (rows, err)" "s1 = s\<lparr>st_meta := d\<rparr>" using assms(2) by (simp_all add: meta_seek_def)
  show err: "err = None" using assms(1) [of "st_meta s" k] q r by simp
  show "meta_only s s1" using r by simp
  show "view (st_meta s1) = view (st_meta s)" using seek_state(1) [OF assms(2)] .
  show "rows_from (view (st_meta s)) k rows" using seek_ok [of "st_meta s" k rows] q r err by simp
qed

lemma reconcile_untouched:
  assumes run: "reconcileFromMetadata E e c s = (c', s')" and seek: "\<And>d k. snd (fst (db_seek E d k)) = None" and t: "time_ok (rec_now e)"
    and lru: "evictionPolicy s \<noteq> EvictionPolicyFIFO" and ref: "view (st_meta s) (MakeBucketedAccessIndexKey u) = Some x" and k: "k \<in> lru_rows_of u"
  shows "view (st_meta s') k = view (st_meta s) k"
proof -
  let ?due = "case lastOrphanSweep c of None \<Rightarrow> True | Some t \<Rightarrow> rec_due e - t \<ge> orphanSweepInterval"
  obtain rows err s1 where sk: "meta_seek E MetadataPrefix s = ((rows, err), s1)" by (metis prod.collapse)
  note m1 = seek_complete [OF seek sk]
  obtain refs rerr s2 where rf: "(if maxDiskUsage s > 0 then meta_seek E (backref_prefix s1) s1 else (([], None), s1)) = ((refs, rerr), s2)"
    by (metis prod.collapse)
  have pol: "backref_prefix s1 = AccessBucketIndexPrefix" using meta_only_fields(8) [OF m1(2)] lru by (simp add: backref_prefix_def)
  have m2: "meta_only s s2" "view (st_meta s2) = view (st_meta s)" "sorted_wrt (<) (map fst refs)" "\<forall>r \<in> set refs. AccessBucketIndexPrefix \<le> fst r"
    "maxDiskUsage s > 0 \<Longrightarrow> (MakeBucketedAccessIndexKey u, x) \<in> set refs"
    using rf m1 seek_complete [OF seek, of AccessBucketIndexPrefix s1 refs rerr s2] ref meta_only_trans [OF m1(2), of s2]
    by (auto simp: pol rows_from_def MakeBucketedAccessIndexKey_def prefix_le split: if_splits)
  let ?a = "\<lparr>rec_total = 0, rec_batch = [], rec_refs = refs, writeErrs = 0, backrefBroken = False, referencedRaw = []\<rparr>"
  obtain intr ierr a s3 where lp: "reconcile_loop E e ?due rerr err 0 rows ?a s2 = ((intr, ierr), a, s3)" by (metis prod.collapse)
  have l: "untouched view u s2 s3 \<and> (\<forall>x \<in> set (rec_batch a). wop_key x \<notin> lru_rows_of u)"
    using m1(4) m2 meta_only_fields(7,8) [OF m2(1)] lru
    by (intro reconcile_loop_untouched [OF lp t, of u x]) (auto simp: rows_from_def)
  obtain a1 s4 where f: "flush_backfill E a s3 = (a1, s4)" by fastforce
  have u4: "untouched view u s2 s4" using l flush_backfill_untouched(1) [OF f] untouched_trans by blast
  let ?s5 = "UpdateSize (rec_total a1 - totalSize s) s4"
  obtain dn s6 where sw: "sweepOrphanRawFiles E e (referencedRaw a1) (rec_start e) ?s5 = (dn, s6)" by fastforce
  have "untouched view u ?s5 s6"
    using sw sweep_entries_untouched by (auto simp: sweepOrphanRawFiles_def split: option.splits)
  moreover have "s' = s4 \<or> s' = ?s5 \<or> s' = s6"
    using run sk rf lp f sw by (auto simp: reconcileFromMetadata_def Let_def split: if_splits)
  ultimately show ?thesis using u4 k m2(2) by (auto simp: untouched_def UpdateSize_def)
qed

end

section \<open>The sweep spares live rows and young fences\<close>

text \<open>A row that no sweep may remove: it has not expired, or it is a fence younger than the horizon
  whenever its age is measured.\<close>

definition keepable :: "'a proto_api_scheme \<Rightarrow> 'db sweep_env \<Rightarrow> int \<Rightarrow> bytes \<Rightarrow> bool" where
  "keepable P e ret b \<longleftrightarrow> (case valueMessageExpiry P b of None \<Rightarrow> False
     | Some x \<Rightarrow> \<not> (0 < x \<and> x \<le> sweep_now e)
         \<or> x = tombstoneExpiry \<and> version_or_zero P b \<noteq> 0 \<and> (\<forall>i. fence_now e i - int64_of_uint64 (version_or_zero P b) < ret))"

definition cand_ok :: "'db sweep_env \<Rightarrow> int \<Rightarrow> expiryCandidate \<Rightarrow> bool" where
  "cand_ok e ret cand \<longleftrightarrow> 0 < ec_expiry cand \<and> ec_expiry cand \<le> sweep_now e
     \<and> (ec_expiry cand = tombstoneExpiry \<longrightarrow> ec_version cand = 0 \<or> (\<exists>i. \<not> fence_now e i - int64_of_uint64 (ec_version cand) < ret))"

text \<open>The back-references hold keys of the eviction index.\<close>

definition refs_ok :: "view \<Rightarrow> bool" where
  "refs_ok m \<longleftrightarrow> (\<forall>k x. m (MakeFifoBackrefKey k) = Some x \<or> m (MakeBucketedAccessIndexKey k) = Some x \<longrightarrow> index_key x)"

text \<open>The operations a sweep stages, none of them on the row of the key.\<close>

definition sweep_op :: "string \<Rightarrow> wop \<Rightarrow> bool" where
  "sweep_op u w \<longleftrightarrow> wop_key w \<noteq> MakeMetadataKey u \<and> ((\<exists>k. w = WDelete k) \<or> side_key (wop_key w))"

lemma index_inv_refs: "index_inv m \<Longrightarrow> refs_ok m"
  unfolding refs_ok_def using index_invD index_key_make by metis

lemma refs_ok_sweep:
  assumes "refs_ok m" "\<forall>w \<in> set b. sweep_op u w"
  shows "refs_ok (apply_batch P m b) \<and> apply_batch P m b (MakeMetadataKey u) = m (MakeMetadataKey u)"
  using assms
proof (induction b arbitrary: m)
  case (Cons w b)
  have ne: "wop_key w \<noteq> MakeMetadataKey u" using Cons.prems(2) by (simp add: sweep_op_def)
  have sub: "m k = Some x" if "apply_wop P m w k = Some x" "index_key k" for k x
  proof (cases "k = wop_key w")
    case True
    then have "\<exists>j. w = WDelete j" using Cons.prems(2) that(2) side_not_index by (auto simp: sweep_op_def)
    then show ?thesis using that(1) True by auto
  qed (use that(1) in simp)
  have "refs_ok (apply_wop P m w)"
    unfolding refs_ok_def using Cons.prems(1) [unfolded refs_ok_def] sub index_key_make(1,2) by blast
  then show ?case using Cons.IH [of "apply_wop P m w"] Cons.prems(2) ne by (simp add: apply_wop_other)
qed simp

lemma keepable_not_cand:
  assumes "keepable P e ret b" "cand_ok e ret cand"
  shows "valueMessageExpiry P b \<noteq> None \<and> (valueMessageExpiry P b \<noteq> Some (ec_expiry cand)
    \<or> ec_expiry cand = tombstoneExpiry \<and> version_or_zero P b \<noteq> ec_version cand)"
  using assms by (auto simp: keepable_def cand_ok_def split: option.splits)

context rocksdb
begin

lemma stage_deletes_sweep:
  assumes "stageEvictionIndexDeletes E key s = (ix, s')" "refs_ok (view (st_meta s))"
  shows "view (st_meta s') = view (st_meta s)" "\<forall>w \<in> set ix. sweep_op u w"
proof -
  let ?br = "eviction_backref s key"
  obtain r s1 where g: "meta_get E ?br s = (r, s1)" by fastforce
  have ix: "ix = (case r of Inr (Some p) \<Rightarrow> [WDelete p] | _ \<Rightarrow> []) @ [WDelete ?br]" and s': "s' = s1"
    using assms(1) g by (auto simp: stageEvictionIndexDeletes_def Let_def split: sum.splits option.splits)
  show "view (st_meta s') = view (st_meta s)" using s' meta_get_ok(2) [OF g] by simp
  have "index_key p" if "r = Inr (Some p)" for p
    using meta_get_ok(3) [OF g that] assms(2) unfolding refs_ok_def eviction_backref_def by (metis (full_types))
  moreover have "index_key ?br" by (simp add: eviction_backref_def)
  ultimately show "\<forall>w \<in> set ix. sweep_op u w"
    unfolding ix sweep_op_def by (auto split: sum.splits option.splits)
qed

lemma recheck_spares:
  assumes run: "recheck E cand (a, s) = (a', s')" and row: "view (st_meta s) (MakeMetadataKey u) = Some b" "keepable E e ret b"
    and c: "cand_ok e ret cand" and refs: "refs_ok (view (st_meta s))" and ops: "\<forall>w \<in> set (ex_batch a). sweep_op u w"
  shows "view (st_meta s') = view (st_meta s) \<and> (\<forall>w \<in> set (ex_batch a'). sweep_op u w)"
proof -
  obtain r s1 where g: "meta_get E (ec_metaKey cand) s = (r, s1)" by fastforce
  note v1 = meta_get_ok(2) [OF g]
  show ?thesis
  proof (cases "\<exists>val. r = Inr (Some val)")
    case False
    then show ?thesis using run g v1 ops by (auto simp: recheck_def split: sum.splits option.splits)
  next
    case True
    then obtain val where r: "r = Inr (Some val)" by blast
    then have val: "view (st_meta s) (ec_metaKey cand) = Some val" using meta_get_Inr g by simp
    obtain ix s2 where st: "stageEvictionIndexDeletes E (ec_key cand) s1 = (ix, s2)" by fastforce
    have two: "view (st_meta s2) = view (st_meta s)" "\<forall>w \<in> set ix. sweep_op u w"
      using stage_deletes_sweep [OF st] refs v1 by simp_all
    show ?thesis
    proof (cases "ec_metaKey cand = MakeMetadataKey u")
      case True
      then have "val = b" using val row(1) by simp
      then have "a' = a \<and> s' = s1" using run g r keepable_not_cand [OF row(2) c] by (auto simp: recheck_def Let_def split: if_splits)
      then show ?thesis using v1 ops by simp
    next
      case False
      then have del: "sweep_op u (WDelete (ec_metaKey cand))" by (simp add: sweep_op_def)
      have mrg: "sweep_op u (WMerge (MakeDeleteIndexKey p) n)" for p n by (simp add: sweep_op_def)
      have "view (st_meta s') = view (st_meta s)" using run g r st v1 two(1) by (auto simp: recheck_def Let_def split: if_splits option.splits)
      moreover have "set (ex_batch a') \<subseteq> set (ex_batch a) \<union> {WDelete (ec_metaKey cand)} \<union> set ix \<union> {WMerge (MakeDeleteIndexKey p) n | p n. True}"
        using run g r st by (auto simp: recheck_def Let_def split: if_splits option.splits)
      ultimately show ?thesis using ops two(2) del mrg by blast
    qed
  qed
qed

lemma recheck_all_spares:
  assumes "foldl (\<lambda>st cand. recheck E cand st) (a, s) cs = (a', s')" "view (st_meta s) (MakeMetadataKey u) = Some b" "keepable E e ret b"
    and "\<forall>c \<in> set cs. cand_ok e ret c" "refs_ok (view (st_meta s))" "\<forall>w \<in> set (ex_batch a). sweep_op u w"
  shows "view (st_meta s') = view (st_meta s) \<and> (\<forall>w \<in> set (ex_batch a'). sweep_op u w)"
  using assms
proof (induction cs arbitrary: a s)
  case (Cons c cs)
  obtain a1 s1 where r: "recheck E c (a, s) = (a1, s1)" by fastforce
  have one: "view (st_meta s1) = view (st_meta s)" "\<forall>w \<in> set (ex_batch a1). sweep_op u w"
    using recheck_spares [OF r Cons.prems(2,3) _ Cons.prems(5,6)] Cons.prems(4) by simp_all
  have "foldl (\<lambda>st cand. recheck E cand st) (a1, s1) cs = (a', s')" using Cons.prems(1) r by simp
  then have "view (st_meta s') = view (st_meta s1) \<and> (\<forall>w \<in> set (ex_batch a'). sweep_op u w)"
    using Cons.prems(2-5) one by (intro Cons.IH) simp_all
  then show ?case using one by simp
qed simp

lemma flush_spares:
  assumes run: "flush_expired E e i a s = (a', s')" and row: "view (st_meta (before_flush e i s)) (MakeMetadataKey u) = Some b" "keepable E e ret b"
    and c: "\<forall>c \<in> set (candidates a). cand_ok e ret c" and refs: "refs_ok (view (st_meta (before_flush e i s)))"
    and ops: "\<forall>w \<in> set (ex_batch a). sweep_op u w"
  shows "view (st_meta s') (MakeMetadataKey u) = Some b" "refs_ok (view (st_meta s'))" "ex_batch a' = []" "candidates a' = []"
proof -
  obtain a1 s1 where f: "foldl (\<lambda>st cand. recheck E cand st) (a, before_flush e i s) (candidates a) = (a1, s1)" by fastforce
  have one: "view (st_meta s1) = view (st_meta (before_flush e i s))" "\<forall>w \<in> set (ex_batch a1). sweep_op u w"
    using recheck_all_spares [OF f row c refs ops] by simp_all
  obtain r s2 where w: "meta_write E (ex_batch a1) s1 = (r, s2)" by fastforce
  have two: "refs_ok (view (st_meta s2))" "view (st_meta s2) (MakeMetadataKey u) = Some b"
    using refs_ok_sweep [OF _ one(2), of "view (st_meta s1)" E] one(1) refs row(1) meta_write_ok(2,3) [OF w] by (cases r; simp)+
  let ?s3 = "stage_files E (queue_nano e) (committedCleaned a1) (ex_files a1) s2"
  have three: "view (st_meta ?s3) (MakeMetadataKey u) = Some b" "refs_ok (view (st_meta ?s3))"
    using two stage_files_ok side_not_index index_key_make(1,2) unfolding refs_ok_def by (simp, metis)
  have "s' = s1 \<or> s' = s2 \<or> s' = ?s3 \<or> s' = UpdateSize (- ex_bytes a1) ?s3"
    using run f w by (auto simp: flush_expired_def Let_def split: if_splits option.splits)
  then show "view (st_meta s') (MakeMetadataKey u) = Some b" "refs_ok (view (st_meta s'))"
    using one(1) refs row(1) two three by (auto simp: UpdateSize_def)
  show "ex_batch a' = []" "candidates a' = []"
    using run f w by (auto simp: flush_expired_def Let_def split: if_splits option.splits)
qed

lemma expiry_row_spares:
  assumes run: "expiry_row E e ret i k v a s = (a', s')" and k: "k = MakeMetadataKey u \<Longrightarrow> valueMessageExpiry E v \<noteq> None"
    and c: "\<forall>c \<in> set (candidates a). cand_ok e ret c" and refs: "refs_ok (view (st_meta s))" and ops: "\<forall>w \<in> set (ex_batch a). sweep_op u w"
  shows "view (st_meta s') = view (st_meta s)" "\<forall>w \<in> set (ex_batch a'). sweep_op u w" "\<forall>c \<in> set (candidates a'). cand_ok e ret c"
proof -
  obtain ix s1 where st: "stageEvictionIndexDeletes E (ExtractUserKey k) s = (ix, s1)" by fastforce
  note two = stage_deletes_sweep [OF st refs]
  have "view (st_meta s') = view (st_meta s) \<and> (\<forall>w \<in> set (ex_batch a'). sweep_op u w) \<and> (\<forall>c \<in> set (candidates a'). cand_ok e ret c)"
  proof (cases "valueMessageExpiry E v")
    case None
    then have "sweep_op u (WDelete k)" using k by (auto simp: sweep_op_def)
    then show ?thesis using run st None two ops c by (auto simp: expiry_row_def Let_def)
  next
    case (Some x)
    then show ?thesis using run ops c by (auto simp: expiry_row_def Let_def cand_ok_def split: if_splits)
  qed
  then show "view (st_meta s') = view (st_meta s)" "\<forall>w \<in> set (ex_batch a'). sweep_op u w" "\<forall>c \<in> set (candidates a'). cand_ok e ret c" by blast+
qed

text \<open>A sweep state: the key's row is the one at the start or one of \<open>L\<close>, and nothing staged touches it.\<close>

lemma expiry_loop_spares:
  assumes "expiry_loop E e ret i rows a s = (intr, a', s')"
    and keep: "\<And>b. b \<in> L \<Longrightarrow> keepable E e ret b"
    and other: "\<And>i t. refs_ok (view (st_meta t)) \<Longrightarrow> view (st_meta t) (MakeMetadataKey u) \<in> insert r0 (Some ` L)
      \<Longrightarrow> refs_ok (view (st_meta (before_flush e i t))) \<and> view (st_meta (before_flush e i t)) (MakeMetadataKey u) \<in> Some ` L"
    and "\<And>v. (MakeMetadataKey u, v) \<in> set rows \<Longrightarrow> valueMessageExpiry E v \<noteq> None"
    and "\<forall>c \<in> set (candidates a). cand_ok e ret c" "refs_ok (view (st_meta s))" "\<forall>w \<in> set (ex_batch a). sweep_op u w"
    and "view (st_meta s) (MakeMetadataKey u) \<in> insert r0 (Some ` L)"
  shows "(\<forall>c \<in> set (candidates a'). cand_ok e ret c) \<and> refs_ok (view (st_meta s')) \<and> (\<forall>w \<in> set (ex_batch a'). sweep_op u w)
    \<and> view (st_meta s') (MakeMetadataKey u) \<in> insert r0 (Some ` L)"
  using assms(1,4-8)
proof (induction rows arbitrary: a s i)
  case (Cons q rows)
  obtain k v where q: "q = (k, v)" by fastforce
  obtain a1 s1 where er: "expiry_row E e ret i k v a s = (a1, s1)" by fastforce
  have val: "k = MakeMetadataKey u \<Longrightarrow> valueMessageExpiry E v \<noteq> None" using Cons.prems(2) [of v] by (simp add: q)
  note one = expiry_row_spares [OF er val Cons.prems(3-5)]
  have s1: "refs_ok (view (st_meta s1))" "view (st_meta s1) (MakeMetadataKey u) \<in> insert r0 (Some ` L)"
    using Cons.prems(4,6) one(1) by simp_all
  have rest: "\<And>v. (MakeMetadataKey u, v) \<in> set rows \<Longrightarrow> valueMessageExpiry E v \<noteq> None" using Cons.prems(2) by (meson list.set_intros(2))
  obtain a2 s2 where fl: "flush_expired E e i a1 s1 = (a2, s2)" by fastforce
  obtain b where b: "b \<in> L" "view (st_meta (before_flush e i s1)) (MakeMetadataKey u) = Some b" "refs_ok (view (st_meta (before_flush e i s1)))"
    using other [OF s1, of i] by auto
  note two = flush_spares [OF fl b(2) keep [OF b(1)] one(3) b(3) one(2)]
  consider "a' = a" "s' = s" | "a' = a1" "s' = s1"
    | "expiry_loop E e ret (Suc i) rows a1 s1 = (intr, a', s')" | "expiry_loop E e ret (Suc i) rows a2 s2 = (intr, a', s')"
    using Cons.prems(1) er fl by (auto simp: q split: if_splits)
  then show ?case
  proof cases
    case 1
    then show ?thesis using Cons.prems(3-6) by simp
  next
    case 2
    then show ?thesis using one s1 by simp
  next
    case 3
    then show ?thesis by (rule Cons.IH [OF _ rest one(3) s1(1) one(2) s1(2)])
  next
    case 4
    then show ?thesis by (rule Cons.IH [OF _ rest]) (use two b(1) in simp_all)
  qed
qed simp

lemma cleanupExpiredKeys_spares:
  assumes run: "cleanupExpiredKeys E e ret s = (n, s')"
    and keep: "\<And>b. b \<in> L \<Longrightarrow> keepable E e ret b"
    and other: "\<And>i t. refs_ok (view (st_meta t)) \<Longrightarrow> view (st_meta t) (MakeMetadataKey u) \<in> insert (view (st_meta s) (MakeMetadataKey u)) (Some ` L)
      \<Longrightarrow> refs_ok (view (st_meta (before_flush e i t))) \<and> view (st_meta (before_flush e i t)) (MakeMetadataKey u) \<in> Some ` L"
    and valid: "\<And>b. view (st_meta s) (MakeMetadataKey u) = Some b \<Longrightarrow> valueMessageExpiry E b \<noteq> None" and refs: "refs_ok (view (st_meta s))"
  shows "view (st_meta s') (MakeMetadataKey u) \<in> insert (view (st_meta s) (MakeMetadataKey u)) (Some ` L)"
proof -
  let ?R = "insert (view (st_meta s) (MakeMetadataKey u)) (Some ` L)"
  obtain rows err s1 where sk: "meta_seek E MetadataPrefix s = ((rows, err), s1)" by (metis prod.collapse)
  note v1 = seek_state(1) [OF sk]
  obtain intr a s2 where lp: "expiry_loop E e ret 0 rows expiry_start s1 = (intr, a, s2)" by (metis prod.collapse)
  have l: "(\<forall>c \<in> set (candidates a). cand_ok e ret c) \<and> refs_ok (view (st_meta s2)) \<and> (\<forall>w \<in> set (ex_batch a). sweep_op u w)
      \<and> view (st_meta s2) (MakeMetadataKey u) \<in> ?R"
    using refs valid seek_state(3) [OF sk, of "MakeMetadataKey u"]
    by (intro expiry_loop_spares [OF lp keep other]) (auto simp: v1 expiry_start_def)
  obtain a3 s3 where fl: "flush_expired E e (length rows) a s2 = (a3, s3)" by fastforce
  obtain b where b: "b \<in> L" "view (st_meta (before_flush e (length rows) s2)) (MakeMetadataKey u) = Some b" "refs_ok (view (st_meta (before_flush e (length rows) s2)))"
    using other [of s2 "length rows"] l by auto
  have "view (st_meta s3) (MakeMetadataKey u) = Some b"
    using flush_spares(1) [OF fl b(2) keep [OF b(1)] _ b(3)] l by blast
  moreover have "s' = s2 \<or> s' = s3" using run sk lp fl by (auto simp: cleanupExpiredKeys_def split: if_splits)
  ultimately show ?thesis using l b(1) by auto
qed

end

section \<open>A store that never fails\<close>

definition calm_ext :: "memdb ext_api" where
  "calm_ext = mem_ext\<lparr>db_get := \<lambda>d. mem_get (fst d, []), db_write := \<lambda>d. mem_write wire_proto (fst d, []), db_seek := \<lambda>d. mem_seek (fst d, [])\<rparr>"

lemma calm_ext_simps [simp]:
  "db_get calm_ext d = mem_get (fst d, [])" "db_write calm_ext d = mem_write wire_proto (fst d, [])" "db_seek calm_ext d = mem_seek (fst d, [])"
  "marshal calm_ext = marshal wire_proto" "unmarshal calm_ext = unmarshal wire_proto"
  "marshal_di calm_ext = marshal_di wire_proto" "unmarshal_di calm_ext = unmarshal_di wire_proto"
  "ConsumeTag calm_ext = ConsumeTag wire_proto" "IsValidNumber calm_ext = IsValidNumber wire_proto"
  "ConsumeVarint calm_ext = ConsumeVarint wire_proto" "ConsumeBytes calm_ext = ConsumeBytes wire_proto"
  "ConsumeFieldValue calm_ext = ConsumeFieldValue wire_proto"
  by (simp_all add: calm_ext_def)

lemma apply_batch_calm: "apply_batch calm_ext = apply_batch mem_ext"
proof -
  have "merge_operand calm_ext = merge_operand mem_ext" "finish_merge calm_ext = finish_merge mem_ext"
    by (simp_all add: merge_operand_def finish_merge_def fun_eq_iff)
  then have "FullMerge calm_ext k ex ops = FullMerge mem_ext k ex ops" for k ex ops
    by (simp add: FullMerge_def mergeMetadataCAS_def mergeDeleteIndex_def split: option.split)
  then have "apply_wop calm_ext m w = apply_wop mem_ext m w" for m w by (cases w) simp_all
  then have "apply_wop calm_ext = apply_wop mem_ext" by blast
  then have "apply_batch calm_ext m b = apply_batch mem_ext m b" for m b by (simp add: apply_batch_def)
  then show ?thesis by blast
qed

interpretation calm: rocksdb calm_ext "\<lambda>num typ. varint (8 * num + typ)" varint "\<lambda>s. varint (length s) @ s"
  "\<lambda>d. map_of (fst d)"
proof unfold_locales
  fix vm b assume "marshal calm_ext vm = Some b"
  then show "\<exists>fs. mset fs = mset (vm_fields vm) \<and> b = concat (map (append_field
      (\<lambda>num typ. varint (8 * num + typ)) varint (\<lambda>s. varint (length s) @ s)) fs)"
    using wire.marshal_fields by simp
next
  fix fs assume "\<forall>f \<in> set fs. field_ok f" "vm_wf (foldl set_field vm0 fs)"
  then show "unmarshal calm_ext (concat (map (append_field (\<lambda>num typ. varint (8 * num + typ)) varint
      (\<lambda>s. varint (length s) @ s)) fs)) = Some (foldl set_field vm0 fs)"
    using wire.unmarshal_fields by simp
next
  fix d :: memdb and b
  show "map_of (fst (snd (db_write calm_ext d b))) = apply_batch calm_ext (map_of (fst d)) b"
    using mem.write_ok [of "(fst d, [])" b] by (simp add: mem_write_def pop_error_def apply_batch_calm)
next
  fix d :: memdb and k rows assume "fst (db_seek calm_ext d k) = (rows, None)"
  then show "rows_from (map_of (fst d)) k rows" using mem.seek_ok [of "(fst d, [])" k rows] by simp
next
  fix d :: memdb and k k' v assume "(k', v) \<in> set (fst (fst (db_seek calm_ext d k)))"
  then show "map_of (fst d) k' = Some v" using mem.seek_rows [of k' v "(fst d, [])" k] by simp
next
  fix d :: memdb and k show "sorted_wrt (<) (map fst (fst (fst (db_seek calm_ext d k))))"
    using mem.seek_sorted [of "(fst d, [])" k] by simp
qed (auto simp: mem_get_def mem_write_def mem_seek_def pop_error_def wire.unmarshal_marshal wire.marshal_total
    wire.marshal_default wire.marshal_sentinel wire.unmarshal_marshal_di wire.marshal_di_total
    wire.marshal_di_default wire.consume_tag wire.consume_varint wire.consume_bytes [simplified] wire.skip_varint
    wire.skip_bytes [simplified] wire.valid_number
    dest: wire.unmarshal_wf wire.unmarshal_di_wf)

section \<open>Properties\<close>

text \<open>C4: The sweep of expired rows removes no row that is live, and no fence younger than the
  retention horizon, not even one that another operation writes after the sweep has read its
  expired predecessor: as long as the row is one of \<open>L\<close> whenever a batch is about to be checked,
  the sweep leaves it, or never touches the row at all.\<close>

theorem sweep_keeps_live:
  assumes "rocksdb E tag var byt view" "index_inv (view (st_meta s))"
    and "\<forall>b \<in> L. keepable E e ret b"
    and "\<forall>b. view (st_meta s) (MakeMetadataKey u) = Some b \<longrightarrow> valueMessageExpiry E b \<noteq> None"
    and "\<forall>i t. refs_ok (view (st_meta t)) \<longrightarrow> view (st_meta t) (MakeMetadataKey u) \<in> insert (view (st_meta s) (MakeMetadataKey u)) (Some ` L)
      \<longrightarrow> refs_ok (view (st_meta (before_flush e i t))) \<and> view (st_meta (before_flush e i t)) (MakeMetadataKey u) \<in> Some ` L"
    and "cleanupExpiredKeys E e ret s = (n, s')"
  shows "view (st_meta s') (MakeMetadataKey u) = view (st_meta s) (MakeMetadataKey u) \<or> view (st_meta s') (MakeMetadataKey u) \<in> Some ` L"
  using rocksdb.cleanupExpiredKeys_spares [OF assms(1,6), of L u] assms(2-5) index_inv_refs by blast

text \<open>An expired row, and a writer that puts a fresh value before every check.\<close>

definition demo_stale :: bytes where "demo_stale = wire_row (vm0\<lparr>Data := ''v'', Expiry := 5, ValueLength := 1\<rparr>)"

definition demo_sweep_env :: "memdb sweep_env" where
  "demo_sweep_env = \<lparr>sweep_now = 1700000000, fence_now = (\<lambda>i. 1700000000000000000), queue_nano = (\<lambda>i. 1700000000000000000),
     row_stop = (\<lambda>i. False), flush_stop = (\<lambda>i. False),
     before_flush = (\<lambda>i t. t\<lparr>st_meta := (upd_row (MakeMetadataKey ''k'') demo_row (fst (st_meta t)), snd (st_meta t))\<rparr>)\<rparr>"

theorem sweep_keeps_live_witness:
  "map_of (fst (st_meta (snd (cleanupExpiredKeys mem_ext demo_sweep_env DefaultFenceRetention (demo_store [(MakeMetadataKey ''k'', demo_stale)] [])))))
     (MakeMetadataKey ''k'') \<in> {Some demo_stale, Some demo_row}"
proof -
  let ?s = "demo_store [(MakeMetadataKey ''k'', demo_stale)] []"
  obtain n s' where run: "cleanupExpiredKeys mem_ext demo_sweep_env DefaultFenceRetention ?s = (n, s')" by fastforce
  have m: "map_of (fst (st_meta ?s)) = [MakeMetadataKey ''k'' \<mapsto> demo_stale]" by (simp add: demo_store_def)
  have "marshal mem_ext (vm0\<lparr>Data := ''v'', Expiry := 5, ValueLength := 1\<rparr>) = Some demo_stale"
    using wire_row [of "vm0\<lparr>Data := ''v'', Expiry := 5, ValueLength := 1\<rparr>"] by (simp add: demo_stale_def vm_wf_def in_int64_def)
  then have "valueMessageExpiry mem_ext demo_stale \<noteq> None" using mem.scanned_expiry by blast
  moreover have "keepable mem_ext demo_sweep_env DefaultFenceRetention demo_row"
    using mem.scanned_expiry [OF demo_row] by (simp add: keepable_def)
  moreover have "index_inv (map_of (fst (st_meta ?s)))" unfolding m by (rule index_invI) simp_all
  moreover have "refs_ok (m(MakeMetadataKey ''k'' \<mapsto> demo_row))" if "refs_ok m" for m
    using that by (simp add: refs_ok_def)
  ultimately have "map_of (fst (st_meta s')) (MakeMetadataKey ''k'') = map_of (fst (st_meta ?s)) (MakeMetadataKey ''k'')
      \<or> map_of (fst (st_meta s')) (MakeMetadataKey ''k'') \<in> Some ` {demo_row}"
    using run by (intro sweep_keeps_live [OF mem.rocksdb_axioms, of ?s "{demo_row}" demo_sweep_env DefaultFenceRetention]) (simp_all add: m demo_sweep_env_def)
  then show ?thesis using run by (auto simp: m)
qed

text \<open>C17: A key that has not been read or written for a month can no longer be evicted.  The pruning
  of old access buckets removes its entry but keeps its back-reference; the reconciliation then
  takes the key for covered and adds no entry, and no eviction pass, whatever its target, finds it.\<close>

theorem cold_keys_stranded:
  assumes db: "rocksdb E tag var byt view" and ok: "\<forall>d b. fst (db_write E d b) = None" "\<forall>d k. snd (fst (db_seek E d k)) = None"
    and lru: "evictionPolicy s \<noteq> EvictionPolicyFIFO" and ent: "access_entries_ok (view (st_meta s))"
    and row: "view (st_meta s) (MakeMetadataKey u) = Some b" "view (st_meta s) (MakeBucketedAccessIndexKey u) = Some x"
    and old: "\<forall>t. time_ok t \<longrightarrow> view (st_meta s) (MakeBucketedAccessKey u t) \<noteq> None
      \<longrightarrow> GetBucketedAccessKey t < GetBucketedAccessKey (now\<lparr>unixNano := unixNano now - accessBucketCleanupThreshold\<rparr>)"
    and t: "time_ok (rec_now re)"
    and s1: "s1 = cleanupOldBuckets E now accessBucketCleanupThreshold s" and s2: "reconcileFromMetadata E re c s1 = (c', s2)"
    and ev: "evictByIndex E lruEvictionIndex e target s2 = (n, s3)"
  shows "view (st_meta s3) (MakeMetadataKey u) = Some b \<and> view (st_meta s2) (MakeBucketedAccessIndexKey u) = Some x
    \<and> (\<forall>t. time_ok t \<longrightarrow> view (st_meta s2) (MakeBucketedAccessKey u t) = None)"
proof -
  let ?c = "GetBucketedAccessKey (now\<lparr>unixNano := unixNano now - accessBucketCleanupThreshold\<rparr>)"
  have v1: "view (st_meta s1) k = (if view (st_meta s) k \<noteq> None \<and> old_bucket ?c (k, []) then None else view (st_meta s) k)" for k
  proof -
    have "snd (fst (meta_seek E GetOldestAccessBucketPrefix s)) = None"
      using ok(2) [rule_format, of "st_meta s" GetOldestAccessBucketPrefix] by (auto simp: meta_seek_def split: prod.split)
    then show ?thesis unfolding s1 using ok(1) by (intro rocksdb.cleanupOldBuckets_view [OF db _ _ ent]) simp_all
  qed
  have pol: "evictionPolicy s1 \<noteq> EvictionPolicyFIFO"
    using lru meta_only_fields(8) [OF rocksdb.cleanupOldBuckets_only [OF db, of s now accessBucketCleanupThreshold]] s1 by simp
  have keep: "view (st_meta s1) (MakeMetadataKey u) = Some b" "view (st_meta s1) (MakeBucketedAccessIndexKey u) = Some x"
    using row by (simp_all add: v1 old_bucket_def GetOldestAccessBucketPrefix_def key_defs prefix_defs)
  have same: "view (st_meta s2) k = view (st_meta s1) k" if "k \<in> lru_rows_of u" for k
    using ok(2) by (intro rocksdb.reconcile_untouched [OF db s2 _ t pol keep(2) that]) simp
  have none: "view (st_meta s2) k = None" if k: "prefix AccessBucketPrefix k" "parseKey lruEvictionIndex k = Inr u" for k
  proof -
    have "view (st_meta s1) k = None"
    proof (cases "view (st_meta s) k = None")
      case False
      then obtain w t where t: "time_ok t" "k = MakeBucketedAccessKey w t" using ent k(1) unfolding access_entries_ok_def by blast
      have "w = u" using parse_bucketed_make [of t w] t k(2) by (simp add: lruEvictionIndex_def time_ok_def)
      then have "GetBucketedAccessKey t < ?c" using old t False by blast
      moreover have "ExtractAccessBucketFromKey k = GetBucketedAccessKey t" using bucket_of_entry [OF t(1), of w] t(2) by simp
      moreover have "GetBucketedAccessKey t \<noteq> []" by (simp add: GetBucketedAccessKey_def)
      ultimately have "old_bucket ?c (k, [])" using k(1) by (simp only: old_bucket_def GetOldestAccessBucketPrefix_def fst_conv) simp
      then show ?thesis by (simp add: v1)
    qed (simp add: v1)
    then show ?thesis using same [of k] k by (simp add: lru_rows_of_def)
  qed
  have "view (st_meta s3) (MakeMetadataKey u) = view (st_meta s2) (MakeMetadataKey u)"
    using none by (intro evicting.evictByIndex_spares [OF evicting.intro [OF db lru_index.eviction_index_axioms] ev]) (auto simp del: not_None_eq)
  moreover have "view (st_meta s2) (MakeBucketedAccessKey u t) = None" if "time_ok t" for t
    using that parse_bucketed_make [of t u] by (intro none) (simp_all add: lruEvictionIndex_def time_ok_def MakeBucketedAccessKey_def GetBucketedAccessKey_def)
  ultimately show ?thesis using same [of "MakeMetadataKey u"] same [of "MakeBucketedAccessIndexKey u"] keep by (simp add: lru_rows_of_def)
qed

text \<open>A node whose only key was last read in September 2001.\<close>

definition demo_then :: gotime where "demo_then = \<lparr>unixNano = 1000000000000000000, zoneOffset = 0\<rparr>"

definition demo_cold :: "memdb storage" where
  "demo_cold = (demo_store [(MakeBucketedAccessKey ''k'' demo_then, []), (MakeBucketedAccessIndexKey ''k'', MakeBucketedAccessKey ''k'' demo_then),
     (MakeMetadataKey ''k'', demo_row)] [])\<lparr>evictionPolicy := EvictionPolicyLRU\<rparr>"

definition demo_rec_env :: reconcile_env where
  "demo_rec_env = \<lparr>rec_now = clk demo_env 0, rec_start = 0, rec_due = 0, rec_end = 0, rec_stop = (\<lambda>i. False), dir_list = None, dir_stop = (\<lambda>i. False),
     inflightRaw = (\<lambda>p. False), path_locked = (\<lambda>p. False), orphan_nano = (\<lambda>i. 0)\<rparr>"

definition demo_cleaner :: cleaner where
  "demo_cleaner = \<lparr>backfillPending = False, lastSizeRecalc = 0, lastOrphanSweep = None, lastBucketCleanup = 0, fenceRetention = DefaultFenceRetention,
     diskReserveBytes = defaultDiskReserveBytes, cleanedKeys = 0, evictedKeys = 0\<rparr>"

lemma demo_buckets:
  "GetBucketedAccessKey demo_then < GetBucketedAccessKey ((clk demo_env 0)\<lparr>unixNano := unixNano (clk demo_env 0) - accessBucketCleanupThreshold\<rparr>)"
  by code_simp

lemma demo_cold_view: "map_of (fst (st_meta demo_cold)) k \<noteq> None \<longleftrightarrow>
    k = MakeBucketedAccessKey ''k'' demo_then \<or> k = MakeBucketedAccessIndexKey ''k'' \<or> k = MakeMetadataKey ''k''"
  by (auto simp: demo_cold_def demo_store_def)

theorem cold_keys_stranded_witness:
  "map_of (fst (st_meta (snd (evictByIndex calm_ext lruEvictionIndex demo_evict_env 1000000
     (snd (reconcileFromMetadata calm_ext demo_rec_env demo_cleaner
        (cleanupOldBuckets calm_ext (clk demo_env 0) accessBucketCleanupThreshold demo_cold))))))) (MakeMetadataKey ''k'') = Some demo_row"
proof -
  let ?s1 = "cleanupOldBuckets calm_ext (clk demo_env 0) accessBucketCleanupThreshold demo_cold"
  obtain c' s2 where s2: "reconcileFromMetadata calm_ext demo_rec_env demo_cleaner ?s1 = (c', s2)" by fastforce
  obtain n s3 where s3: "evictByIndex calm_ext lruEvictionIndex demo_evict_env 1000000 s2 = (n, s3)" by fastforce
  have then_ok: "time_ok demo_then" by (simp add: demo_then_def time_ok_def nonneg_int64_def valid_zone_def)
  have "\<forall>d b. fst (db_write calm_ext d b) = None" "\<forall>d k. snd (fst (db_seek calm_ext d k)) = None"
    by (simp_all add: mem_write_def mem_seek_def pop_error_def)
  moreover have "evictionPolicy demo_cold \<noteq> EvictionPolicyFIFO" by (simp add: demo_cold_def EvictionPolicyFIFO_def EvictionPolicyLRU_def)
  moreover have "access_entries_ok (map_of (fst (st_meta demo_cold)))"
    unfolding access_entries_ok_def demo_cold_view using then_ok by (auto simp: MakeBucketedAccessIndexKey_def MakeMetadataKey_def prefix_defs)
  moreover have "map_of (fst (st_meta demo_cold)) (MakeMetadataKey ''k'') = Some demo_row"
    "map_of (fst (st_meta demo_cold)) (MakeBucketedAccessIndexKey ''k'') = Some (MakeBucketedAccessKey ''k'' demo_then)"
    by (simp_all add: demo_cold_def demo_store_def)
  moreover have "GetBucketedAccessKey t < GetBucketedAccessKey ((clk demo_env 0)\<lparr>unixNano := unixNano (clk demo_env 0) - accessBucketCleanupThreshold\<rparr>)"
    if "time_ok t" "map_of (fst (st_meta demo_cold)) (MakeBucketedAccessKey ''k'' t) \<noteq> None" for t
  proof -
    have "MakeBucketedAccessKey ''k'' t = MakeBucketedAccessKey ''k'' demo_then" using that(2) unfolding demo_cold_view by simp
    then have "GetBucketedAccessKey t = GetBucketedAccessKey demo_then"
      using bucket_of_entry [OF that(1), of "''k''"] bucket_of_entry [OF then_ok, of "''k''"] by simp
    then show ?thesis using demo_buckets by simp
  qed
  moreover have "time_ok (rec_now demo_rec_env)" using demo_env_ok by (simp add: demo_rec_env_def env_ok_def)
  ultimately have "map_of (fst (st_meta s3)) (MakeMetadataKey ''k'') = Some demo_row"
    using cold_keys_stranded [OF calm.rocksdb_axioms _ _ _ _ _ _ _ _ refl s2 s3, of "''k''" demo_row "MakeBucketedAccessKey ''k'' demo_then"] by simp
  then show ?thesis using s2 s3 by simp
qed

end
