(* ===== verification/Reconcile.thy ===== *)
theory Reconcile
  imports Cleaner
begin

text \<open>
  What the periodic reconciliation (\<^verbatim>\<open>reconcileFromMetadata\<close> of \<^verbatim>\<open>src/storage/cleaner.go\<close>) achieves:
  whatever the size counter has drifted to, a scan that completes sets it to the sum over the
  rows, and the back-filling of the eviction index changes no value.
\<close>

section \<open>Back-filling touches the eviction index only\<close>

primrec index_op :: "wop \<Rightarrow> bool" where
  "index_op (WPut k v) \<longleftrightarrow> index_key k \<and> (\<forall>j. k = MakeFifoBackrefKey j \<or> k = MakeBucketedAccessIndexKey j \<longrightarrow> index_key v)"
| "index_op (WDelete k) \<longleftrightarrow> index_key k"
| "index_op (WMerge k v) \<longleftrightarrow> False"

lemma index_ops_keep:
  assumes "\<forall>w \<in> set b. index_op w"
  shows "apply_batch P m b (MakeMetadataKey u) = m (MakeMetadataKey u)" "refs_ok m \<Longrightarrow> refs_ok (apply_batch P m b)"
proof -
  have "apply_batch P m b (MakeMetadataKey u) = m (MakeMetadataKey u) \<and> (refs_ok m \<longrightarrow> refs_ok (apply_batch P m b))"
    using assms
  proof (induction b arbitrary: m)
    case (Cons w b)
    have "apply_wop P m w (MakeMetadataKey u) = m (MakeMetadataKey u)"
      using Cons.prems index_key_make(5) [of u] by (cases w) auto
    moreover have "refs_ok (apply_wop P m w)" if "refs_ok m"
      using that Cons.prems by (cases w) (auto simp: refs_ok_def)
    ultimately show ?case using Cons.IH [of "apply_wop P m w"] Cons.prems by simp
  qed simp
  then show "apply_batch P m b (MakeMetadataKey u) = m (MakeMetadataKey u)" "refs_ok m \<Longrightarrow> refs_ok (apply_batch P m b)" by blast+
qed

text \<open>The part of the state the scan leaves alone.\<close>

definition same_rows :: "('db \<Rightarrow> view) \<Rightarrow> 'db storage \<Rightarrow> 'db storage \<Rightarrow> bool" where
  "same_rows view s s' \<longleftrightarrow> meta_only s s' \<and> refs_ok (view (st_meta s'))
     \<and> (\<forall>u. view (st_meta s') (MakeMetadataKey u) = view (st_meta s) (MakeMetadataKey u))"

lemma same_rows_trans: "same_rows view s s' \<Longrightarrow> same_rows view s' s'' \<Longrightarrow> same_rows view s s''"
  unfolding same_rows_def using meta_only_trans by metis

definition scanned_len :: "'a proto_api_scheme \<Rightarrow> bytes \<Rightarrow> int" where
  "scanned_len P v = (case valueMessageSizeAndRawPath P v of None \<Rightarrow> 0 | Some (len, _) \<Rightarrow> len)"

context rocksdb
begin

lemma stageBackfill_ok:
  assumes "stageBackfillEntry E key now s = (b, s')" "refs_ok (view (st_meta s))"
  shows "same_rows view s s'" "\<forall>w \<in> set b. index_op w"
proof -
  obtain r s1 where g: "meta_get E (MakeFifoBackrefKey key) s = (r, s1)" by fastforce
  have "index_key p" if "r = Inr (Some p)" for p
    using meta_get_ok(3) [OF g that] assms(2) unfolding refs_ok_def by metis
  then show "same_rows view s s'" "\<forall>w \<in> set b. index_op w"
    using assms g meta_get_ok(1,2) [OF g]
    by (auto simp: stageBackfillEntry_def writeFifoIndexEntry_def same_rows_def Let_def split: if_splits sum.splits option.splits)
qed

lemma flush_backfill_ok:
  assumes "flush_backfill E a s = (a', s')" "refs_ok (view (st_meta s))" "\<forall>w \<in> set (rec_batch a). index_op w"
  shows "same_rows view s s'" "rec_batch a' = []" "rec_total a' = rec_total a"
proof -
  obtain r s1 where w: "meta_write E (rec_batch a) s = (r, s1)" by fastforce
  have "same_rows view s s1"
    using meta_write_ok [OF w] index_ops_keep [OF assms(3)] assms(2) by (cases r) (auto simp: same_rows_def)
  then show "same_rows view s s'" "rec_batch a' = []" "rec_total a' = rec_total a"
    using assms(1,2) w by (auto simp: flush_backfill_def same_rows_def split: if_splits option.splits)
qed

lemma reconcile_cover_ok:
  assumes run: "reconcile_cover E now err k a s = (a', s')" and refs: "refs_ok (view (st_meta s))" and b: "\<forall>w \<in> set (rec_batch a). index_op w"
  shows "same_rows view s s'" "rec_total a' = rec_total a" "\<forall>w \<in> set (rec_batch a'). index_op w"
proof -
  obtain covered ok refs' where adv: "advanceBackrefTo (backref_prefix s) err (ExtractUserKey k) (rec_refs a) = (covered, ok, refs')"
    by (metis prod.collapse)
  obtain c s1 where st: "stageBackfillEntry E (ExtractUserKey k) now s = (c, s1)" by fastforce
  note bf = stageBackfill_ok [OF st refs]
  let ?a = "a\<lparr>rec_refs := refs', rec_batch := rec_batch a @ c\<rparr>"
  obtain a2 s2 where fl: "flush_backfill E ?a s1 = (a2, s2)" by fastforce
  have ops: "\<forall>w \<in> set (rec_batch ?a). index_op w" using b bf(2) by auto
  have refs1: "refs_ok (view (st_meta s1))" using bf(1) by (simp add: same_rows_def)
  note f = flush_backfill_ok [OF fl refs1 ops]
  have same: "same_rows view s s" using refs by (simp add: same_rows_def)
  consider "rec_batch a' = rec_batch a" "rec_total a' = rec_total a" "s' = s" | "a' = ?a" "s' = s1" | "a' = a2" "s' = s2"
    using run adv st fl by (auto simp: reconcile_cover_def Let_def split: if_splits)
  then have "same_rows view s s' \<and> rec_total a' = rec_total a \<and> (\<forall>w \<in> set (rec_batch a'). index_op w)"
  proof cases
    case 1
    then show ?thesis using same b by simp
  next
    case 2
    then show ?thesis using bf(1) ops by simp
  next
    case 3
    then show ?thesis using f same_rows_trans [OF bf(1)] by simp
  qed
  then show "same_rows view s s'" "rec_total a' = rec_total a" "\<forall>w \<in> set (rec_batch a'). index_op w" by blast+
qed

lemma reconcile_loop_ok:
  assumes "reconcile_loop E e d rerr None i rows a s = ((intr, ierr), a', s')" "\<forall>i. \<not> rec_stop e i"
    and "refs_ok (view (st_meta s))" "\<forall>w \<in> set (rec_batch a). index_op w" "in_int64 (rec_total a)"
  shows "\<not> intr \<and> ierr = None \<and> same_rows view s s' \<and> (\<forall>w \<in> set (rec_batch a'). index_op w)
    \<and> rec_total a' = wrap_int64 (rec_total a + (\<Sum>r \<leftarrow> takeWhile (\<lambda>r. prefix MetadataPrefix (fst r)) rows. scanned_len E (snd r)))"
  using assms
proof (induction rows arbitrary: a s i)
  case (Cons q rows)
  obtain k v where q: "q = (k, v)" by fastforce
  show ?case
  proof (cases "prefix MetadataPrefix k")
    case True
    obtain a1 s1 where c: "reconcile_cover E (rec_now e) rerr k (reconcile_size E d v a) s = (a1, s1)" by fastforce
    have size: "rec_total (reconcile_size E d v a) = wrap_int64 (rec_total a + scanned_len E v)"
      using Cons.prems(5) by (auto simp: reconcile_size_def scanned_len_def split: option.splits)
    note one = reconcile_cover_ok [OF c Cons.prems(3)]
    have one: "same_rows view s s1" "rec_total a1 = wrap_int64 (rec_total a + scanned_len E v)" "\<forall>w \<in> set (rec_batch a1). index_op w"
      using one size Cons.prems(4) by simp_all
    have run: "reconcile_loop E e d rerr None (Suc i) rows a1 s1 = ((intr, ierr), a', s')"
      using Cons.prems(1,2) True c by (simp add: q)
    have refs1: "refs_ok (view (st_meta s1))" using one(1) by (simp add: same_rows_def)
    from Cons.IH [OF run Cons.prems(2) refs1 one(3)] one(2)
    show ?thesis using same_rows_trans [OF one(1)] True by (auto simp: q add.assoc)
  qed (use Cons.prems in \<open>auto simp: q same_rows_def\<close>)
qed (auto simp: same_rows_def)

lemma scanned_sum:
  assumes rf: "rows_from m MetadataPrefix rows" and wr: "\<And>u b. m (MakeMetadataKey u) = Some b \<Longrightarrow> \<exists>v. marshal E v = Some b"
  shows "(\<Sum>r \<leftarrow> takeWhile (\<lambda>r. prefix MetadataPrefix (fst r)) rows. scanned_len E (snd r)) = (\<Sum>u | m (MakeMetadataKey u) \<noteq> None. row_len E m u)"
proof -
  let ?R = "filter (\<lambda>r. prefix MetadataPrefix (fst r)) rows" and ?K = "{u. m (MakeMetadataKey u) \<noteq> None}"
  let ?f = "\<lambda>u. (MakeMetadataKey u, the (m (MakeMetadataKey u)))"
  have srt: "sorted_wrt (<) (map fst rows)" using rf by (simp add: rows_from_def)
  have tw: "takeWhile (\<lambda>r. prefix MetadataPrefix (fst r)) rows = ?R"
    using rf by (intro take_prefix_rows [OF srt, of MetadataPrefix]) (auto simp: rows_from_def)
  have "distinct rows" using srt strict_sorted_iff distinct_map by blast
  then have sum: "(\<Sum>r \<leftarrow> ?R. scanned_len E (snd r)) = (\<Sum>r \<in> set ?R. scanned_len E (snd r))"
    by (simp add: sum_list_distinct_conv_sum_set)
  have set: "set ?R = ?f ` ?K"
  proof (intro set_eqI iffI)
    fix r assume "r \<in> set ?R"
    then have r: "r \<in> set rows" "prefix MetadataPrefix (fst r)" by simp_all
    then have "m (fst r) = Some (snd r)" using rf by (auto simp: rows_from_def)
    moreover obtain u where "fst r = MakeMetadataKey u" using r(2) by (auto simp: MakeMetadataKey_def elim: prefixE)
    ultimately show "r \<in> ?f ` ?K" by (intro image_eqI [of _ _ u]) (auto simp: prod_eq_iff)
  next
    fix r assume "r \<in> ?f ` ?K"
    then show "r \<in> set ?R" using rf by (auto simp: rows_from_def MakeMetadataKey_def prefix_le)
  qed
  have "inj_on ?f ?K" by (simp add: inj_on_def)
  then have "(\<Sum>r \<in> set ?R. scanned_len E (snd r)) = (\<Sum>u \<in> ?K. scanned_len E (the (m (MakeMetadataKey u))))"
    unfolding set by (simp add: sum.reindex)
  also have "\<dots> = (\<Sum>u \<in> ?K. row_len E m u)"
  proof (rule sum.cong [OF refl])
    fix u assume "u \<in> ?K"
    then obtain b v where b: "m (MakeMetadataKey u) = Some b" "marshal E v = Some b" using wr by blast
    then show "scanned_len E (the (m (MakeMetadataKey u))) = row_len E m u"
      using scanned_size_path [OF b(2)] scanned_cleanup [OF b(2)] by (simp add: scanned_len_def row_len_def cleanup_of_def)
  qed
  finally show ?thesis using tw sum by simp
qed

lemma sweep_entries_rows: "sweep_entries E e refd cutoff i es s = (r, s') \<Longrightarrow> view (st_meta s') (MakeMetadataKey u) = view (st_meta s) (MakeMetadataKey u) \<and> totalSize s' = totalSize s"
  using sweep_entries_untouched [of e refd cutoff i es s r s' u] meta_only_fields(3) [of s s']
  by (simp add: untouched_def lru_rows_of_def)

lemma reconcile_rows:
  assumes run: "reconcileFromMetadata E e c s = (c', s')" and stop: "\<forall>i. \<not> rec_stop e i" and refs: "refs_ok (view (st_meta s))"
    and seek: "snd (fst (meta_seek E MetadataPrefix s)) = None"
    and wr: "\<And>u b. view (st_meta s) (MakeMetadataKey u) = Some b \<Longrightarrow> \<exists>v. marshal E v = Some b"
    and size: "size_inv E (view (st_meta s)) n" "in_int64 n"
  shows "totalSize s' = n \<and> (\<forall>u. view (st_meta s') (MakeMetadataKey u) = view (st_meta s) (MakeMetadataKey u))"
proof -
  let ?due = "case lastOrphanSweep c of None \<Rightarrow> True | Some t \<Rightarrow> rec_due e - t \<ge> orphanSweepInterval"
  obtain rows s1 where sk: "meta_seek E MetadataPrefix s = ((rows, None), s1)" using seek by (metis prod.collapse)
  have one: "meta_only s s1" "view (st_meta s1) = view (st_meta s)" "rows_from (view (st_meta s)) MetadataPrefix rows"
    using sk seek_ok [of "st_meta s" MetadataPrefix rows] seek_state(1) [OF sk] by (auto simp: meta_seek_def split: prod.splits)
  obtain rs rerr s2 where rf: "(if maxDiskUsage s > 0 then meta_seek E (backref_prefix s1) s1 else (([], None), s1)) = ((rs, rerr), s2)"
    by (metis prod.collapse)
  have two: "same_rows view s s2"
    using rf one(1,2) refs seek_state(1) [of "backref_prefix s1" s1 rs rerr s2] meta_only_trans [OF one(1)]
    by (auto simp: same_rows_def meta_seek_def split: if_splits prod.splits)
  let ?a = "\<lparr>rec_total = 0, rec_batch = [], rec_refs = rs, writeErrs = 0, backrefBroken = False, referencedRaw = []\<rparr>"
  obtain intr ierr a s3 where lp: "reconcile_loop E e ?due rerr None 0 rows ?a s2 = ((intr, ierr), a, s3)" by (metis prod.collapse)
  have l: "\<not> intr \<and> ierr = None \<and> same_rows view s2 s3 \<and> (\<forall>w \<in> set (rec_batch a). index_op w)
      \<and> rec_total a = wrap_int64 (0 + (\<Sum>r \<leftarrow> takeWhile (\<lambda>r. prefix MetadataPrefix (fst r)) rows. scanned_len E (snd r)))"
    using reconcile_loop_ok [OF lp stop] two by (simp add: same_rows_def in_int64_def)
  have tot: "rec_total a = n" using l scanned_sum [OF one(3) wr] size by (simp add: size_inv_def)
  obtain a1 s4 where f: "flush_backfill E a s3 = (a1, s4)" by fastforce
  have fl: "same_rows view s3 s4" "rec_total a1 = n"
    using flush_backfill_ok [OF f] l tot by (simp_all add: same_rows_def)
  have four: "same_rows view s s4" using two l fl(1) same_rows_trans by blast
  let ?s5 = "UpdateSize (rec_total a1 - totalSize s) s4"
  obtain dn s6 where sw: "sweepOrphanRawFiles E e (referencedRaw a1) (rec_start e) ?s5 = (dn, s6)" by fastforce
  have five: "totalSize ?s5 = n" "st_meta ?s5 = st_meta s4"
    using four meta_only_fields(3) [of s s4] fl(2) size(2) by (simp_all add: UpdateSize_def same_rows_def)
  have six: "totalSize s6 = n" "\<And>u. view (st_meta s6) (MakeMetadataKey u) = view (st_meta s4) (MakeMetadataKey u)"
    using sw sweep_entries_rows [of e "referencedRaw a1" _ 0 _ ?s5 dn s6] five by (auto simp: sweepOrphanRawFiles_def split: option.splits)
  have "s' = ?s5 \<or> s' = s6" using run sk rf lp f sw l by (auto simp: reconcileFromMetadata_def Let_def split: if_splits)
  then show ?thesis using five six four by (auto simp: same_rows_def)
qed

end

section \<open>Properties\<close>

text \<open>C16: Whatever value the size counter has drifted to, a reconciliation whose scan completes leaves
  it equal to the sum of the lengths of all rows, and changes no row of a key.\<close>

theorem reconcile_exact:
  assumes db: "rocksdb E tag var byt view" and inv: "index_inv (view (st_meta s))"
    and written: "\<forall>u b. view (st_meta s) (MakeMetadataKey u) = Some b \<longrightarrow> (\<exists>v. marshal E v = Some b)"
    and size: "size_inv E (view (st_meta s)) n" "in_int64 n"
    and scan: "\<forall>i. \<not> rec_stop e i" "snd (fst (meta_seek E MetadataPrefix s)) = None"
    and run: "reconcileFromMetadata E e c s = (c', s')"
  shows "size_inv E (view (st_meta s')) (totalSize s')
    \<and> (\<forall>u. view (st_meta s') (MakeMetadataKey u) = view (st_meta s) (MakeMetadataKey u))"
proof -
  have *: "totalSize s' = n \<and> (\<forall>u. view (st_meta s') (MakeMetadataKey u) = view (st_meta s) (MakeMetadataKey u))"
    using written by (intro rocksdb.reconcile_rows [OF db run scan(1) index_inv_refs [OF inv] scan(2) _ size]) blast
  then show ?thesis using size_inv_cong [OF size(1)] by simp
qed

theorem reconcile_exact_witness:
  "totalSize (snd (reconcileFromMetadata mem_ext demo_rec_env demo_cleaner ((demo_fifo [])\<lparr>totalSize := 77\<rparr>))) = 1"
proof -
  let ?s = "(demo_fifo [])\<lparr>totalSize := 77\<rparr>" and ?m = "map_of (fst (st_meta (demo_fifo [])))"
  obtain c' s' where run: "reconcileFromMetadata mem_ext demo_rec_env demo_cleaner ?s = (c', s')" by fastforce
  have m: "map_of (fst (st_meta ?s)) = ?m" by simp
  have ne: "demo_entry \<noteq> MakeMetadataKey w" "demo_entry \<noteq> MakeFifoBackrefKey w" "demo_entry \<noteq> MakeBucketedAccessIndexKey w" for w
    by (simp_all add: demo_entry_def)
  have "index_inv ?m"
    using ne ne [symmetric] demo_env_ok by (intro index_invI) (auto simp: demo_fifo_view demo_entry_def env_ok_def split: if_splits)
  moreover have "\<exists>v. marshal mem_ext v = Some b" if "?m (MakeMetadataKey u) = Some b" for u b
    using that ne(1) [of u] demo_row by (auto simp: demo_fifo_view split: if_splits)
  moreover have one: "size_inv mem_ext ?m 1" using demo_fifo_ok(3) [of "[]"] by (simp add: demo_fifo_def)
  moreover have "snd (fst (meta_seek mem_ext MetadataPrefix ?s)) = None" by (simp add: meta_seek_def demo_fifo_def demo_store_def mem_seek_def pop_error_def)
  ultimately have *: "size_inv mem_ext (map_of (fst (st_meta s'))) (totalSize s') \<and> (\<forall>u. map_of (fst (st_meta s')) (MakeMetadataKey u) = ?m (MakeMetadataKey u))"
    using reconcile_exact [OF mem.rocksdb_axioms, of ?s 1 demo_rec_env demo_cleaner c' s'] run by (simp add: in_int64_def demo_rec_env_def)
  then have "size_inv mem_ext ?m (totalSize s')" using size_inv_cong [of mem_ext "map_of (fst (st_meta s'))" _ ?m] by simp
  then have "totalSize s' = 1" using one by (simp add: size_inv_def)
  then show ?thesis using run by simp
qed

end
