(* ===== verification/Spec2Isabelle.thy ===== *)
theory Spec2Isabelle
  imports CasProps MemoryCache TokenRing ClusterList Reconcile
begin

text \<open>
  The object cache (\<^verbatim>\<open>src/\<close>) stores values under string keys on a set of nodes.  A node keeps one
  metadata row per key in RocksDB; the value is in the row itself, in a file of its own, or in a
  segment file that holds many values.  Small values are inline, larger ones go to a raw file and
  are later moved into segments.  Conditional operations carry a version: they are applied by a
  RocksDB merge operator, so that the database decides who wins.  Every write also keeps an
  eviction index (by access time or by insertion time) and a size counter; a cleaner removes
  expired rows, evicts by the index when the disk limit is exceeded, and reconciles index and
  counter with the rows; a queue deletes the files that no row refers to any more.  Clients place
  keys on nodes by a token ring; a server lists a cluster by merging the lists of its nodes.

  \<^bold>\<open>Theories and sources\<close>, in the order of their imports.

  \<^item> \<open>Prelude\<close>: byte strings with their order, Go integers and the parts of Go's library that the
    sources use; the lemma collections and generic lemmas.
  \<^item> \<open>Keys\<close>: \<^verbatim>\<open>storage/keys/keys.go\<close>, every kind of key of the metadata database.  The locales
    \<open>keyed_index\<close>, \<open>timed_index\<close> and \<open>ordered_index\<close> are the contract of an index whose
    keys carry a time and a user key; the five indices of the code interpret them.
  \<^item> \<open>Rows\<close>, \<open>Wire\<close>, \<open>ValueWire\<close>: \<^verbatim>\<open>storage/proto\<close> and \<^verbatim>\<open>storage/value_wire.go\<close>.  A row is
    the record \<open>ValueMessage\<close>.  The protobuf library is the parameter \<open>proto_api\<close>; the locales
    \<open>protobuf\<close> and \<open>protowire\<close> state what is assumed of it, and \<open>wire_proto\<close> is an
    executable instance of the wire format.  The scanners that read single fields off the wire
    agree with full decoding.
  \<^item> \<open>Merge\<close>: \<^verbatim>\<open>storage/merge/\<close>, the merge operator.  Its lemmas show which operand wins, that
    exactly one of several conditional puts on the same version wins, that reading a stamp back
    proves the win, that a populate with a token from before a fence loses, and when the result
    does (and does not) depend on how RocksDB groups operands.
  \<^item> \<open>MetaDB\<close>: RocksDB as the parameter \<open>ext_api\<close> with the laws of the locale \<open>rocksdb\<close>:
    reads and scans report the rows, a batch is applied completely or not at all, any call may
    fail.  \<open>mem_ext\<close> is an executable instance with a script of failures.
  \<^item> \<open>Errors\<close>, \<open>Retry\<close>: \<^verbatim>\<open>storage/errors/\<close>, \<^verbatim>\<open>storage/utils/errors.go\<close>, \<^verbatim>\<open>storage/retry/retry.go\<close>.
  \<^item> \<open>SegmentFormat\<close>, \<open>Segments\<close>: \<^verbatim>\<open>storage/segment/\<close>.  Entries, footer and header at byte
    level; append, read, walk, finalize, repair after a crash and the manager.  What was appended
    is read back, a failed append loses nothing that was there, a repaired segment holds exactly
    the whole entries, and the manager's books agree with its files.
  \<^item> \<open>ByteRange\<close>: the range reader of \<^verbatim>\<open>storage/storage.go\<close>; it returns exactly the requested
    bytes, except for one bound at which it panics.
  \<^item> \<open>Store\<close>, \<open>Storage\<close>: the state of a node (record \<open>storage\<close>: database, disk, limits,
    counter, stamp generator) and \<open>Put\<close>, \<open>Get\<close>, \<open>DeleteKey\<close> of \<^verbatim>\<open>storage/storage.go\<close> with
    the raw-file manager and the index rows a write touches.  The specification is
    \<open>abs_store\<close>, the map from keys to value and expiry; each operation refines an update of it,
    on success and on every error path, and keeps \<open>index_inv\<close> and the counter.
  \<^item> \<open>Stamps\<close>, \<open>Cas\<close>, \<open>CasProps\<close>: \<^verbatim>\<open>storage/cas.go\<close>.  Stamps come from a lock-free loop
    over durable reservations; the step relation \<open>stamp_step\<close> interleaves any number of callers,
    other writes and restarts, and no stamp is issued twice.  The conditional operations take the
    interference of other callers as a function applied between their reads and writes.
  \<^item> \<open>Listing\<close>, \<open>ClusterList\<close>: the scans of \<^verbatim>\<open>storage/storage.go\<close> and
    \<^verbatim>\<open>server/operations/list.go\<close>, on one node and merged over a cluster.
  \<^item> \<open>DeletionQueue\<close>: \<^verbatim>\<open>storage/deletion/queue.go\<close>; no file is lost and none is deleted that
    was not queued, over any sequence of batches, prunings, failures and shutdowns.
  \<^item> \<open>Eviction\<close>: \<^verbatim>\<open>storage/eviction.go\<close>, \<^verbatim>\<open>lru.go\<close>, \<^verbatim>\<open>fifo.go\<close> and the access index.  The locale
    \<open>eviction_index\<close> is the contract of a policy, \<open>evicting\<close> joins it with the database; the
    pass is verified once for both policies.
  \<^item> \<open>Cleaner\<close>, \<open>Reconcile\<close>: \<^verbatim>\<open>storage/cleaner.go\<close>, \<^verbatim>\<open>orphan_sweep.go\<close>.  The sweep removes no
    live row even if it is written during the sweep; reconciliation makes the counter exact; and
    keys whose access bucket was pruned stay out of the index.
  \<^item> \<open>MemoryCache\<close>: \<^verbatim>\<open>client/memory.go\<close>, and that it answers like a node.
  \<^item> \<open>TokenRing\<close>: \<^verbatim>\<open>client/tokenring.go\<close>, \<^verbatim>\<open>coordinator/ring/epoch.go\<close>.

  \<^bold>\<open>How the model corresponds to the code.\<close>  A method becomes a function from the state to its
  result and the new state; a Go error is a value of \<open>goerr\<close>, an unsigned 64-bit integer is a
  word, a signed one an \<open>int\<close> with wrap-around written out.  The clock, the file system's
  errors, random numbers, UUIDs and cancellation are fields of an environment record, read in the
  order of the calls.  Properties hold for every environment that meets the stated bounds.

  \<^bold>\<open>Bounds and fuel.\<close>  The wire scanners consume at least one byte per step, so the length of the
  buffer is enough.  The segment walk, the client's paging loop and the list loop carry fuel with
  \<open>None\<close> for running out: a number larger than the number of entries (of listed keys) is shown to
  be enough.  The heap merge and the ring's binary search have termination proofs.  Loops over an
  iterator recurse on the rows it yields.  Clocks lie below \<^term>\<open>2 ^ 62 :: int\<close> nanoseconds where a
  stamp is drawn, which lasts for more than a century.

  \<^bold>\<open>Not modelled.\<close>  Compaction and recompaction (\<^verbatim>\<open>storage/compaction/\<close>): their effect on a row and
  on a segment is in \<open>Merge\<close> and \<open>Segments\<close>, the background loops are not.  Startup recovery of
  raw files; file-descriptor caching and file locks (a lock that blocks a deletion is an input of
  the queue); the goroutines and channels that schedule the loops (a tick is an input).  The gRPC
  service, the coordinator and the network clients, which forward requests over third-party
  libraries.  Metrics and logging.
\<close>

end
